(* ===== verification/Prelude.thy ===== *)
theory Prelude
  imports Complex_Main "HOL-Library.Word" "HOL-Library.Monad_Syntax" "HOL-Library.Multiset"
    "HOL-Library.Signed_Division"
begin

text \<open>
  Shared vocabulary of the development.

  \<^item> A Go run-time panic (index or slice out of range, division by zero) is the value
    \<^const>\<open>None\<close> of an option type, and code that may panic is written in the option
    monad. An \<open>error\<close> result of a Go function is the left side of a sum.
  \<^item> A signed Go integer of width $w$ is an \<^typ>\<open>int\<close> with the wrap-around written out by
    \<open>wrap16\<close>, \<open>wrap32\<close>, \<open>wrap64\<close>; a \<open>uint32\<close> is a \<^typ>\<open>nat\<close> with the
    wrap-around written out by \<open>u32\<close> and \<open>u32_sub\<close>.
  \<^item> A text buffer (\<open>[]byte\<close> holding HTTP or JSON) is a \<^typ>\<open>string\<close>: Isabelle's
    characters are bytes. Its byte arithmetic goes through \<open>byte_sub\<close>.
\<close>

named_theorems wrap_simps \<open>wrap-around operations are the identity inside their range\<close>
named_theorems panic_simps \<open>panicking reads that are in range\<close>

type_synonym bytes = string

subsection \<open>Machine integers\<close>

definition wrap16 :: "int \<Rightarrow> int" where
  "wrap16 x = signed_take_bit 15 x"

definition wrap32 :: "int \<Rightarrow> int" where
  "wrap32 x = signed_take_bit 31 x"

definition wrap64 :: "int \<Rightarrow> int" where
  "wrap64 x = signed_take_bit 63 x"

definition u32 :: "nat \<Rightarrow> nat" where
  "u32 n = n mod 2 ^ 32"

definition u32_sub :: "nat \<Rightarrow> nat \<Rightarrow> nat" where
  "u32_sub a b = (a + (2 ^ 32 - b mod 2 ^ 32)) mod 2 ^ 32"

definition byte_sub :: "char \<Rightarrow> char \<Rightarrow> nat" where
  "byte_sub c d = (of_char c + (256 - of_char d)) mod 256"

lemma wrap16_id [wrap_simps]: "- 32768 \<le> x \<Longrightarrow> x < 32768 \<Longrightarrow> wrap16 x = x"
  by (simp add: wrap16_def signed_take_bit_int_eq_self)

lemma wrap32_id [wrap_simps]: "- 2147483648 \<le> x \<Longrightarrow> x < 2147483648 \<Longrightarrow> wrap32 x = x"
  by (simp add: wrap32_def signed_take_bit_int_eq_self)

lemma wrap64_id [wrap_simps]:
  "- 9223372036854775808 \<le> x \<Longrightarrow> x < 9223372036854775808 \<Longrightarrow> wrap64 x = x"
  by (simp add: wrap64_def signed_take_bit_int_eq_self)

lemma u32_id [wrap_simps]: "n < 2 ^ 32 \<Longrightarrow> u32 n = n"
  by (simp add: u32_def)

lemma u32_sub_id [wrap_simps]: "b \<le> a \<Longrightarrow> a < 2 ^ 32 \<Longrightarrow> u32_sub a b = a - b"
  unfolding u32_sub_def
  by (simp add: mod_if)

lemma u32_sub_underflow: "a < b \<Longrightarrow> b < 2 ^ 32 \<Longrightarrow> u32_sub a b = 2 ^ 32 + a - b"
  unfolding u32_sub_def by simp

lemma byte_sub_less: "byte_sub c d < 256"
  by (simp add: byte_sub_def)

lemma byte_sub_digit: "of_char d \<le> (of_char c :: nat) \<Longrightarrow> byte_sub c d = of_char c - of_char d"
proof -
  assume le: "of_char d \<le> (of_char c :: nat)"
  have "of_char c + (256 - of_char d) = (of_char c - of_char d) + (256::nat)"
    using le nat_of_char_less_256 [of d] by linarith
  then have "byte_sub c d = (of_char c - of_char d) mod 256"
    by (simp only: byte_sub_def mod_add_self2)
  then show ?thesis
    using nat_of_char_less_256 [of c] by simp
qed

subsection \<open>Reads that may panic\<close>

definition read_at :: "'a list \<Rightarrow> nat \<Rightarrow> 'a option" where
  "read_at xs i = (if i < length xs then Some (xs ! i) else None)"

lemma read_at_Some [panic_simps]: "i < length xs \<Longrightarrow> read_at xs i = Some (xs ! i)"
  by (simp add: read_at_def)

lemma read_at_None [panic_simps]: "length xs \<le> i \<Longrightarrow> read_at xs i = None"
  by (simp add: read_at_def)

lemma read_at_eq_Some_iff: "read_at xs i = Some x \<longleftrightarrow> i < length xs \<and> xs ! i = x"
  by (auto simp: read_at_def)

subsection \<open>Lists of equal chunks\<close>

lemma nth_concat_chunks:
  assumes "\<And>x. x \<in> set xs \<Longrightarrow> length (f x) = m" "k < length xs" "j < m"
  shows "concat (map f xs) ! (k * m + j) = f (xs ! k) ! j"
  using assms
proof (induction xs arbitrary: k)
  case (Cons x xs)
  show ?case
  proof (cases k)
    case 0
    then show ?thesis using Cons.prems by (simp add: nth_append)
  next
    case (Suc k')
    have "length (f x) = m" using Cons.prems(1) by simp
    then have "concat (map f (x # xs)) ! (k * m + j) = concat (map f xs) ! (k' * m + j)"
      by (simp add: nth_append Suc)
    also have "\<dots> = f (xs ! k') ! j" using Cons.prems Suc by (intro Cons.IH) auto
    finally show ?thesis by (simp add: Suc)
  qed
qed simp

lemma length_concat_chunks: "(\<And>x. x \<in> set xs \<Longrightarrow> length (f x) = m) \<Longrightarrow> length (concat (map f xs)) = length xs * m"
  by (induction xs) auto

end
