(* ===== verification/Timex.thy ===== *)
theory Timex
  imports Prelude
begin

text \<open>
  Package \<open>timex\<close> (\<open>internal/timex/timex.go\<close>): the timestamp parser and the calendar
  arithmetic behind the time features of a transaction. \<open>timex_Parse\<close> reads fixed
  columns and never fails; \<open>DayOfWeek\<close> indexes a table with \<open>month-1\<close> and so may
  panic. The reference calendar of the last section counts days year by year and month by
  month, and the lemmas show that the closed formulas of the code agree with it.
\<close>

section \<open>The code\<close>

record Stamp =
  Year :: int
  Month :: nat
  Day :: nat
  Hour :: nat
  Minute :: nat
  Second :: nat

definition Stamp0 :: Stamp where
  "Stamp0 = \<lparr>Year = 0, Month = 0, Day = 0, Hour = 0, Minute = 0, Second = 0\<rparr>"

definition dig :: "bytes \<Rightarrow> nat \<Rightarrow> nat" where
  "dig s i = byte_sub (s ! i) (CHR ''0'')"

definition timex_Parse :: "bytes \<Rightarrow> Stamp" where
  "timex_Parse s =
     (if length s < 19 then Stamp0
      else \<lparr>Year = int (dig s 0) * 1000 + int (dig s 1) * 100 + int (dig s 2) * 10 + int (dig s 3),
            Month = dig s 5 * 10 + dig s 6,
            Day = dig s 8 * 10 + dig s 9,
            Hour = dig s 11 * 10 + dig s 12,
            Minute = dig s 14 * 10 + dig s 15,
            Second = dig s 17 * 10 + dig s 18\<rparr>)"

definition floorDiv :: "int \<Rightarrow> int \<Rightarrow> int option" where
  "floorDiv a b =
     (if b = 0 then None
      else let q = wrap32 (a sdiv b)
           in Some (if a smod b \<noteq> 0 \<and> (a < 0) \<noteq> (b < 0) then wrap32 (q - 1) else q))"

definition month_table :: "int list" where
  "month_table = [0, 3, 2, 5, 0, 3, 5, 1, 4, 6, 2, 4]"

definition DayOfWeek :: "int \<Rightarrow> nat \<Rightarrow> nat \<Rightarrow> nat option" where
  "DayOfWeek year month day =
     (let y = (if month < 3 then wrap32 (year - 1) else year) in
      do {
        y4 \<leftarrow> floorDiv y 4;
        y100 \<leftarrow> floorDiv y 100;
        y400 \<leftarrow> floorDiv y 400;
        t \<leftarrow> read_at month_table (u32_sub month 1);
        let raw = wrap32 (y + y4 - y100 + y400 + t + wrap32 (int day)) smod 7;
        let s = nat (((raw smod 7) + 7) smod 7);
        Some ((s + 6) mod 7)
      })"

definition DaysSinceEpoch :: "int \<Rightarrow> nat \<Rightarrow> nat \<Rightarrow> int" where
  "DaysSinceEpoch year month day =
     (let m = int month;
          y = (if m \<le> 2 then year - 1 else year);
          era = (if y \<ge> 0 then y sdiv 400 else (y - 399) sdiv 400);
          yoe = y - era * 400;
          mShift = (if m > 2 then m - 3 else m + 9);
          doy = (153 * mShift + 2) sdiv 5 + int day - 1;
          doe = yoe * 365 + yoe sdiv 4 - yoe sdiv 100 + doy
      in era * 146097 + doe - 719468)"

definition EpochSeconds :: "Stamp \<Rightarrow> int" where
  "EpochSeconds s =
     DaysSinceEpoch (Year s) (Month s) (Day s) * 86400 +
     int (Hour s) * 3600 + int (Minute s) * 60 + int (Second s)"

section \<open>A reference calendar\<close>

definition leap :: "int \<Rightarrow> bool" where
  "leap y \<longleftrightarrow> 4 dvd y \<and> (\<not> 100 dvd y \<or> 400 dvd y)"

definition month_len :: "int \<Rightarrow> nat \<Rightarrow> nat" where
  "month_len y m =
     (if m = 2 then (if leap y then 29 else 28)
      else if m \<in> {4, 6, 9, 11} then 30 else 31)"

definition valid_date :: "int \<Rightarrow> nat \<Rightarrow> nat \<Rightarrow> bool" where
  "valid_date y m d \<longleftrightarrow> 1 \<le> m \<and> m \<le> 12 \<and> 1 \<le> d \<and> d \<le> month_len y m"

text \<open>Days before January 1st of year \<open>y\<close>, and days of year \<open>y\<close> before month \<open>m\<close>.\<close>

definition leap_count :: "int \<Rightarrow> int" where
  "leap_count y = y div 4 - y div 100 + y div 400"

definition days_before_year :: "int \<Rightarrow> int" where
  "days_before_year y = 365 * y + leap_count (y - 1)"

definition days_before_month :: "int \<Rightarrow> nat \<Rightarrow> int" where
  "days_before_month y m = (\<Sum>k\<leftarrow>[1..<m]. int (month_len y k))"

definition cal_days :: "int \<Rightarrow> nat \<Rightarrow> nat \<Rightarrow> int" where
  "cal_days y m d = days_before_year y + days_before_month y m + int d - 1 - days_before_year 1970"

lemma div_pred: "0 < n \<Longrightarrow> (y - 1) div n = y div n - (if n dvd y then 1 else (0::int))"
proof -
  assume n: "0 < n"
  have "y = n * (y div n) + y mod n" by simp
  then have "(y - 1) div n = (n * (y div n) + (y mod n - 1)) div n" by (simp add: algebra_simps)
  also have "\<dots> = y div n + (y mod n - 1) div n" using n by simp
  also have "(y mod n - 1) div n = (if n dvd y then - 1 else 0)"
  proof (cases "n dvd y")
    case True
    then show ?thesis using n by (simp add: div_eq_minus1 dvd_eq_mod_eq_0)
  next
    case False
    then have "0 < y mod n" using n by (simp add: dvd_eq_mod_eq_0 order_less_le)
    then show ?thesis using False n by (simp add: div_pos_pos_trivial order_less_imp_le less_trans [of "y mod n - 1" "y mod n"])
  qed
  finally show ?thesis by simp
qed

lemma leap_count_pred: "leap_count (y - 1) = leap_count y - (if leap y then 1 else 0)"
proof -
  have "100 dvd y \<Longrightarrow> 4 dvd y" "400 dvd y \<Longrightarrow> 100 dvd y"
    by (auto elim: dvd_trans [rotated])
  moreover have "(y - 1) div 4 = y div 4 - (if 4 dvd y then 1 else 0)"
    "(y - 1) div 100 = y div 100 - (if 100 dvd y then 1 else 0)"
    "(y - 1) div 400 = y div 400 - (if 400 dvd y then 1 else 0)"
    by (rule div_pred, simp)+
  ultimately show ?thesis
    by (auto simp only: leap_def leap_count_def split: if_splits)
qed

lemma days_before_year_Suc: "days_before_year (y + 1) = days_before_year y + (if leap y then 366 else 365)"
  by (simp add: days_before_year_def leap_count_pred [of y])

section \<open>The closed formulas\<close>

lemma sdiv_nonneg: "0 \<le> a \<Longrightarrow> 0 < b \<Longrightarrow> a sdiv b = a div (b::int)"
  by (simp add: signed_divide_int_def sgn_if)

lemma sdiv_neg: "a < 0 \<Longrightarrow> 0 < b \<Longrightarrow> a sdiv b = - ((- a) div (b::int))"
  by (simp add: signed_divide_int_def sgn_if)

lemma smod_nonneg: "0 \<le> a \<Longrightarrow> 0 < b \<Longrightarrow> a smod b = a mod (b::int)"
  by (cases "a = 0") (simp_all add: signed_modulo_int_def)

lemma smod_neg: "a < 0 \<Longrightarrow> 0 < b \<Longrightarrow> a smod b = - ((- a) mod (b::int))"
  by (simp add: signed_modulo_int_def)

lemma smod_eq_0_iff: "0 < b \<Longrightarrow> a smod b = 0 \<longleftrightarrow> b dvd (a::int)"
proof (cases "0 \<le> a")
  case True
  then show "0 < b \<Longrightarrow> a smod b = 0 \<longleftrightarrow> b dvd a"
    by (simp add: smod_nonneg dvd_eq_mod_eq_0)
next
  case False
  then have "0 < b \<Longrightarrow> a smod b = 0 \<longleftrightarrow> b dvd - a"
    by (simp only: smod_neg not_le neg_equal_0_iff_equal dvd_eq_mod_eq_0)
  then show "0 < b \<Longrightarrow> a smod b = 0 \<longleftrightarrow> b dvd a" by simp
qed

lemma floorDiv_eq_div:
  assumes "- 2147483648 \<le> a" "a < 2147483648" "0 < b" "b < 2147483648"
  shows "floorDiv a b = Some (a div b)"
proof -
  have bnd: "- 2147483648 \<le> a div b \<and> a div b < 2147483648"
  proof (cases "0 \<le> a")
    case True
    then have "0 \<le> a div b" "a div b \<le> a"
      using assms zdiv_mono2 [of a 1 b] by (auto simp: pos_imp_zdiv_nonneg_iff)
    then show ?thesis using assms by simp
  next
    case False
    then have "a \<le> a div b"
      using assms zdiv_mono2_neg [of a 1 b] by simp
    moreover have "a div b < 0" using False assms by (simp add: div_neg_pos_less0)
    ultimately show ?thesis using assms by simp
  qed
  show ?thesis
  proof (cases "0 \<le> a")
    case True
    then show ?thesis using assms bnd
      by (simp add: floorDiv_def sdiv_nonneg Let_def wrap32_id)
  next
    case False
    then have neg: "a < 0" by simp
    have q: "a sdiv b = (if b dvd a then a div b else a div b + 1)"
      using neg assms by (simp add: sdiv_neg zdiv_zminus1_eq_if dvd_eq_mod_eq_0)
    have "a div b < 0" using neg assms by (simp add: div_neg_pos_less0)
    then have "a div b + 1 \<le> 0" by linarith
    then show ?thesis using neg assms bnd
      by (auto simp: floorDiv_def Let_def smod_eq_0_iff q wrap32_id)
  qed
qed

lemma era_eq: "(if (y::int) \<ge> 0 then y sdiv 400 else (y - 399) sdiv 400) = y div 400"
proof (cases "y \<ge> 0")
  case True
  then show ?thesis by (simp add: sdiv_nonneg)
next
  case False
  define e r where "e = y div 400" and "r = y mod 400"
  have r: "0 \<le> 399 - r" "399 - r < 400" using pos_mod_bound [of 400 y] by (simp_all add: r_def)
  have "y = 400 * e + r" by (simp add: e_def r_def)
  then have "399 - y = (399 - r) + 400 * (- e)" by simp
  then have "(399 - y) div 400 = (399 - r) div 400 + - e"
    by (simp only: div_mult_self2 [of 400])
  then have "- ((399 - y) div 400) = y div 400"
    using r by (simp add: e_def)
  then show ?thesis using False by (simp add: sdiv_neg)
qed

lemma civil_year_days:
  "(y div 400) * 146097 + ((y mod 400) * 365 + y mod 400 div 4 - y mod 400 div 100)
     = 365 * y + leap_count y"
proof -
  define e r where "e = y div 400" and "r = y mod 400"
  have y: "y = 400 * e + r" by (simp add: e_def r_def)
  have r: "0 \<le> r" "r < 400" by (simp_all add: r_def)
  have "y div 4 = 100 * e + r div 4"
    using div_mult_self4 [of 4 "100 * e" r] by (simp add: y)
  moreover have "y div 100 = 4 * e + r div 100"
    using div_mult_self4 [of 100 "4 * e" r] by (simp add: y)
  ultimately show ?thesis
    by (simp add: leap_count_def flip: e_def r_def) (simp add: y)
qed

lemma DaysSinceEpoch_unfold:
  assumes "1 \<le> m" "m \<le> 12"
  shows "DaysSinceEpoch y m d =
    (let z = (if m \<le> 2 then y - 1 else y); ms = (if m > 2 then int m - 3 else int m + 9)
     in 365 * z + leap_count z + (153 * ms + 2) div 5 + int d - 1 - 719468)"
proof -
  define z where "z = (if m \<le> 2 then y - 1 else y)"
  define ms where "ms = (if m > 2 then int m - 3 else int m + 9)"
  have ms: "(153 * ms + 2) sdiv 5 = (153 * ms + 2) div 5"
    using assms by (auto simp: ms_def intro!: sdiv_nonneg)
  define era where "era = (if z \<ge> 0 then z sdiv 400 else (z - 399) sdiv 400)"
  have era: "era = z div 400" by (simp only: era_def era_eq)
  have yoe: "z - era * 400 = z mod 400" by (simp add: era minus_div_mult_eq_mod)
  have "DaysSinceEpoch y m d = era * 146097 + ((z - era * 400) * 365
      + (z - era * 400) sdiv 4 - (z - era * 400) sdiv 100 + ((153 * ms + 2) sdiv 5 + int d - 1)) - 719468"
    by (simp add: DaysSinceEpoch_def Let_def era_def z_def ms_def)
  then have "DaysSinceEpoch y m d = (z div 400) * 146097
      + ((z mod 400) * 365 + z mod 400 div 4 - z mod 400 div 100) + (153 * ms + 2) div 5 + int d - 1 - 719468"
    by (simp add: yoe sdiv_nonneg ms) (simp add: era)
  then show ?thesis by (simp add: civil_year_days Let_def flip: z_def ms_def)
qed

lemma month_cases:
  assumes "1 \<le> m" "m \<le> (12::nat)"
  obtains "m = 1" | "m = 2" | "m = 3" | "m = 4" | "m = 5" | "m = 6"
    | "m = 7" | "m = 8" | "m = 9" | "m = 10" | "m = 11" | "m = 12"
proof -
  have "m \<in> {1..12}" using assms by simp
  then have "m \<in> {1, 2, 3, 4, 5, 6, 7, 8, 9, 10, 11, 12}"
    by (simp add: atLeastAtMost_insertL [symmetric] numeral_eq_Suc atLeastAtMostSuc_conv) 
  then show thesis using that by blast
qed

lemma leap_count_1969: "leap_count 1969 = 477"
  by (simp add: leap_count_def)

lemma DaysSinceEpoch_cal_days:
  assumes m: "1 \<le> m" "m \<le> 12"
  shows "DaysSinceEpoch y m d = cal_days y m d"
  using m by (rule month_cases)
    (simp_all add: DaysSinceEpoch_unfold Let_def cal_days_def leap_count_1969
      days_before_year_def leap_count_pred [of y] days_before_month_def month_len_def upt_rec)

lemma smod_7: "((((a::int) smod 7) smod 7) + 7) smod 7 = a mod 7"
proof (cases "0 \<le> a")
  case True
  then show ?thesis by (simp add: smod_nonneg)
next
  case False
  have "- ((- a) mod 7) \<le> 0" "- 7 < - ((- a) mod 7)" by simp_all
  moreover have "(- ((- a) mod 7) + 7) mod 7 = a mod 7"
    by (simp add: mod_minus_eq)
  moreover have "- ((- a) mod 7) smod 7 = - ((- a) mod 7)"
    by (cases "(- a) mod 7 = 0") (simp_all add: smod_neg smod_nonneg)
  ultimately show ?thesis using False
    by (simp add: smod_neg smod_nonneg)
qed

lemma DayOfWeek_unfold:
  assumes m: "1 \<le> m" "m \<le> 12" and y: "- 1000000000 \<le> y" "y \<le> 1000000000" and d: "d \<le> 1000000"
  shows "DayOfWeek y m d =
    (let z = (if m \<le> 2 then y - 1 else y)
     in Some (nat ((z + leap_count z + month_table ! (m - 1) + int d + 6) mod 7)))"
proof -
  define z where "z = (if m \<le> 2 then y - 1 else y)"
  define t where "t = month_table ! (m - 1)"
  have z: "- 1000000001 \<le> z" "z \<le> 1000000000" using y by (auto simp: z_def)
  have t: "0 \<le> t" "t \<le> 6"
    using m by (auto simp: t_def month_table_def nth_Cons split: nat.splits)
  have i: "read_at month_table (u32_sub m 1) = Some t"
    using m by (simp add: t_def read_at_def u32_sub_id month_table_def)
  have zw: "(if m < 3 then wrap32 (y - 1) else y) = z"
    using y by (auto simp: z_def wrap32_id)
  have dw: "wrap32 (int d) = int d" using d by (simp add: wrap32_id)
  define A B C where "A = z div 4" and "B = z div 100" and "C = z div 400"
  have "A \<le> 1000000000 div 4" "- 1000000001 div 4 \<le> A" "B \<le> 1000000000 div 100"
       "- 1000000001 div 100 \<le> B" "C \<le> 1000000000 div 400" "- 1000000001 div 400 \<le> C"
    unfolding A_def B_def C_def using z by (simp_all only: zdiv_mono1 zero_less_numeral)
  then have abc: "A \<le> 250000000" "- 250000001 \<le> A" "B \<le> 10000000" "- 10000001 \<le> B" "C \<le> 2500000" "- 2500001 \<le> C"
    by simp_all
  have lc: "leap_count z = A - B + C" by (simp add: leap_count_def A_def B_def C_def)
  have r: "- 2147483648 \<le> z + leap_count z + t + int d" "z + leap_count z + t + int d < 2147483648"
    unfolding lc using z t d abc by linarith+
  have rw: "wrap32 (z + z div 4 - z div 100 + z div 400 + t + int d) = z + leap_count z + t + int d"
    using wrap32_id [OF r] by (simp add: leap_count_def algebra_simps)
  let ?a = "z + leap_count z + t + int d"
  have "DayOfWeek y m d = Some ((nat (?a mod 7) + 6) mod 7)"
    unfolding DayOfWeek_def zw Let_def i dw using z
    by (simp add: floorDiv_eq_div rw smod_7)
  also have "(nat (?a mod 7) + 6) mod 7 = nat ((?a + 6) mod 7)"
    by (simp add: nat_add_distrib [symmetric] nat_mod_distrib [symmetric] mod_add_left_eq flip: nat_numeral)
  finally show ?thesis by (simp add: z_def t_def Let_def)
qed

lemma DayOfWeek_DaysSinceEpoch:
  assumes m: "1 \<le> m" "m \<le> 12" and y: "- 1000000000 \<le> y" "y \<le> 1000000000" and d: "d \<le> 1000000"
  shows "DayOfWeek y m d = Some (nat ((DaysSinceEpoch y m d + 3) mod 7))"
proof -
  define z where "z = (if m \<le> 2 then y - 1 else y)"
  define ms where "ms = (if m > 2 then int m - 3 else int m + 9)"
  have t: "7 dvd (153 * ms + 2) div 5 - 719466 - (month_table ! (m - 1) + 6)"
    using m by (rule month_cases) (simp_all add: ms_def month_table_def nth_Cons)
  have "DaysSinceEpoch y m d + 3 = (z + leap_count z + month_table ! (m - 1) + int d + 6)
     + (7 * (52 * z) + ((153 * ms + 2) div 5 - 719466 - (month_table ! (m - 1) + 6)))"
    by (simp add: DaysSinceEpoch_unfold [OF m] Let_def z_def ms_def)
  moreover have "7 dvd 7 * (52 * z) + ((153 * ms + 2) div 5 - 719466 - (month_table ! (m - 1) + 6))"
    using t by (rule dvd_add [OF dvd_triv_left])
  ultimately have "(DaysSinceEpoch y m d + 3) mod 7
      = (z + leap_count z + month_table ! (m - 1) + int d + 6) mod 7"
    by (simp only: dvd_imp_mod_0 add_0_right mod_add_right_eq [of _ "7 * (52 * z) + _" 7, symmetric])
  then show ?thesis
    by (simp add: DayOfWeek_unfold [OF assms] Let_def z_def)
qed

lemma floorDiv_total: "b \<noteq> 0 \<Longrightarrow> \<exists>q. floorDiv a b = Some q"
  by (simp add: floorDiv_def Let_def)

lemma DayOfWeek_None_iff:
  assumes "month < 2 ^ 32"
  shows "DayOfWeek year month day = None \<longleftrightarrow> month = 0 \<or> 12 < month"
proof -
  define y where "y = (if month < 3 then wrap32 (year - 1) else year)"
  obtain a b c where "floorDiv y 4 = Some a" "floorDiv y 100 = Some b" "floorDiv y 400 = Some c"
    using floorDiv_total [of 4 y] floorDiv_total [of 100 y] floorDiv_total [of 400 y] by auto
  then have "DayOfWeek year month day = None \<longleftrightarrow> read_at month_table (u32_sub month 1) = None"
    by (cases "read_at month_table (u32_sub month 1)") (simp_all add: DayOfWeek_def Let_def flip: y_def)
  also have "\<dots> \<longleftrightarrow> 12 \<le> u32_sub month 1"
    by (simp add: read_at_def month_table_def)
  also have "\<dots> \<longleftrightarrow> month = 0 \<or> 12 < month"
    using assms by (cases "month = 0") (auto simp: u32_sub_underflow u32_sub_id)
  finally show ?thesis .
qed

section \<open>Order of timestamps\<close>

lemma days_before_month_step:
  assumes "1 \<le> m" "m < m'"
  shows "days_before_month y m + int (month_len y m) \<le> days_before_month y m'"
proof -
  have "[1..<m'] = [1..<m] @ m # [Suc m..<m']"
    using assms by (metis less_imp_add_positive upt_add_eq_append upt_conv_Cons less_imp_le)
  then show ?thesis
    by (auto simp: days_before_month_def intro!: sum_list_nonneg)
qed

lemma days_before_month_13: "days_before_month y 13 = (if leap y then 366 else 365)"
  by (simp add: days_before_month_def month_len_def upt_rec)

lemma days_before_year_mono: "y < y' \<Longrightarrow> days_before_year (y + 1) \<le> days_before_year y'"
proof (induction y' rule: int_gr_induct [of y])
  case (step i)
  then show ?case by (simp add: days_before_year_Suc)
qed simp_all

definition date_less :: "int \<times> nat \<times> nat \<Rightarrow> int \<times> nat \<times> nat \<Rightarrow> bool" where
  "date_less = (\<lambda>(y, m, d) (y', m', d'). y < y' \<or> y = y' \<and> (m < m' \<or> m = m' \<and> d < d'))"

lemma cal_days_mono:
  assumes v: "valid_date y m d" and v': "valid_date y' m' d'" and l: "date_less (y, m, d) (y', m', d')"
  shows "cal_days y m d < cal_days y' m' d'"
proof -
  have d: "int d \<le> int (month_len y m)" "1 \<le> m" "m < 13" and d': "1 \<le> int d'" "1 \<le> m'"
    using v v' by (auto simp: valid_date_def)
  consider "y < y'" | "y = y'" "m < m'" | "y = y'" "m = m'" "d < d'"
    using l by (auto simp: date_less_def)
  then show ?thesis
  proof cases
    case 1
    have "days_before_month y m + int d \<le> (if leap y then 366 else 365)"
      using days_before_month_step [OF d(2,3), of y] d(1) by (simp add: days_before_month_13)
    moreover have "days_before_year y + (if leap y then 366 else 365) \<le> days_before_year y'"
      using days_before_year_mono [OF 1] by (simp add: days_before_year_Suc)
    moreover have "0 \<le> days_before_month y' m'"
      by (auto simp: days_before_month_def intro!: sum_list_nonneg)
    ultimately show ?thesis using d' by (simp add: cal_days_def)
  next
    case 2
    then show ?thesis
      using days_before_month_step [OF d(2) 2(2), of y] d d' by (simp add: cal_days_def)
  qed (simp add: cal_days_def)
qed

definition valid_stamp :: "Stamp \<Rightarrow> bool" where
  "valid_stamp s \<longleftrightarrow> valid_date (Year s) (Month s) (Day s) \<and> Hour s < 24 \<and> Minute s < 60 \<and> Second s < 60"

definition day_second :: "Stamp \<Rightarrow> nat" where
  "day_second s = Hour s * 3600 + Minute s * 60 + Second s"

definition stamp_date :: "Stamp \<Rightarrow> int \<times> nat \<times> nat" where
  "stamp_date s = (Year s, Month s, Day s)"

definition stamp_less :: "Stamp \<Rightarrow> Stamp \<Rightarrow> bool" where
  "stamp_less s t \<longleftrightarrow> date_less (stamp_date s) (stamp_date t) \<or>
     stamp_date s = stamp_date t \<and>
       (Hour s < Hour t \<or> Hour s = Hour t \<and> (Minute s < Minute t \<or> Minute s = Minute t \<and> Second s < Second t))"

lemma stamp_less_EpochSeconds:
  assumes "valid_stamp s" "valid_stamp t" "stamp_less s t"
  shows "EpochSeconds s < EpochSeconds t"
proof -
  have e: "EpochSeconds u = cal_days (Year u) (Month u) (Day u) * 86400 + int (day_second u)"
      and b: "day_second u < 86400" if "valid_stamp u" for u
    using that by (auto simp: EpochSeconds_def day_second_def valid_stamp_def valid_date_def DaysSinceEpoch_cal_days)
  from assms(3) consider "date_less (stamp_date s) (stamp_date t)"
    | "stamp_date s = stamp_date t" "day_second s < day_second t"
    using assms(1,2) by (auto simp: stamp_less_def day_second_def valid_stamp_def)
  then show ?thesis
  proof cases
    case 1
    then have "cal_days (Year s) (Month s) (Day s) + 1 \<le> cal_days (Year t) (Month t) (Day t)"
      using assms cal_days_mono [of "Year s" "Month s" "Day s" "Year t" "Month t" "Day t"]
      by (simp add: stamp_date_def valid_stamp_def)
    then show ?thesis using e [OF assms(1)] e [OF assms(2)] b [OF assms(1)] by linarith
  next
    case 2
    then show ?thesis using e [OF assms(1)] e [OF assms(2)] by (simp add: stamp_date_def)
  qed
qed

lemma stamp_less_total:
  assumes "\<not> stamp_less s t" "\<not> stamp_less t s"
  shows "s = (t :: Stamp)"
proof -
  note defs = stamp_less_def date_less_def stamp_date_def
  have y: "Year s = Year t" using assms by (simp add: defs)
  then have mo: "Month s = Month t" using assms by (simp add: defs)
  then have d: "Day s = Day t" using y assms by (simp add: defs)
  then have h: "Hour s = Hour t" using y mo assms by (simp add: defs)
  then have mi: "Minute s = Minute t" using y mo d assms by (simp add: defs)
  then have "Second s = Second t" using y mo d h assms by (simp add: defs)
  with y mo d h mi show ?thesis by (intro Stamp.equality) simp_all
qed

text \<open>For well-formed timestamps the seconds computed by \<open>EpochSeconds\<close> are ordered
  exactly as the timestamps themselves: the difference that feeds the \<open>minutes since the last
  transaction\<close> feature is negative exactly when the stamps are out of order.\<close>

theorem EpochSeconds_order:
  assumes "valid_stamp s" "valid_stamp t"
  shows "EpochSeconds s < EpochSeconds t \<longleftrightarrow> stamp_less s t"
  using stamp_less_EpochSeconds [OF assms] stamp_less_EpochSeconds [OF assms(2,1)] stamp_less_total [of s t]
  by (cases "stamp_less s t"; cases "stamp_less t s") auto

definition stamp_a :: Stamp where
  "stamp_a = \<lparr>Year = 2024, Month = 2, Day = 29, Hour = 23, Minute = 59, Second = 59\<rparr>"

definition stamp_b :: Stamp where
  "stamp_b = \<lparr>Year = 2024, Month = 3, Day = 1, Hour = 0, Minute = 0, Second = 0\<rparr>"

lemma valid_stamp_a: "valid_stamp stamp_a"
  by (simp add: stamp_a_def valid_stamp_def valid_date_def month_len_def leap_def)

lemma valid_stamp_b: "valid_stamp stamp_b"
  by (simp add: stamp_b_def valid_stamp_def valid_date_def month_len_def leap_def)

theorem EpochSeconds_order_witness:
  "valid_stamp stamp_a \<and> valid_stamp stamp_b \<and> EpochSeconds stamp_a < EpochSeconds stamp_b"
  using EpochSeconds_order [OF valid_stamp_a valid_stamp_b] valid_stamp_a valid_stamp_b
  by (simp add: stamp_less_def date_less_def stamp_date_def stamp_a_def stamp_b_def)

section \<open>Parsing a rendered timestamp\<close>

definition digit_char :: "nat \<Rightarrow> char" where
  "digit_char n = char_of (48 + n mod 10)"

definition two_digits :: "nat \<Rightarrow> string" where
  "two_digits n = [digit_char (n div 10), digit_char n]"

text \<open>The ISO-8601 rendering the API's clients send: \<open>YYYY-MM-DDThh:mm:ss\<close>.\<close>

definition render_stamp :: "Stamp \<Rightarrow> string" where
  "render_stamp s =
     two_digits (nat (Year s) div 100) @ two_digits (nat (Year s)) @ ''-'' @ two_digits (Month s) @ ''-'' @
     two_digits (Day s) @ ''T'' @ two_digits (Hour s) @ '':'' @ two_digits (Minute s) @ '':'' @ two_digits (Second s)"

lemma byte_sub_digit_char: "byte_sub (digit_char n) (CHR ''0'') = n mod 10"
proof -
  have "of_char (digit_char n) = 48 + n mod 10"
    by (simp add: digit_char_def)
  then show ?thesis by (simp add: byte_sub_digit)
qed

lemma two_digits_value: "n < 100 \<Longrightarrow> n div 10 mod 10 * 10 + n mod 10 = (n::nat)"
  by simp

lemma div_mod_digits: "n mod 100 div 10 mod 10 = n div 10 mod (10::nat)"
  using mod_mult2_eq [of n 10 10] by simp

text \<open>Round trip: parsing the rendering \<open>YYYY-MM-DDThh:mm:ss\<close> of a well-formed stamp
  of the years 0 to 9999 gives the stamp back, whatever follows (a zone suffix, fractional
  seconds).\<close>

theorem timex_Parse_render:
  assumes "valid_stamp s" "0 \<le> Year s" "Year s \<le> 9999"
  shows "timex_Parse (render_stamp s @ rest) = s"
proof -
  have f: "Month s < 100" "Day s < 100" "Hour s < 100" "Minute s < 100" "Second s < 100"
    using assms(1) by (auto simp: valid_stamp_def valid_date_def month_len_def split: if_splits)
  define n where "n = nat (Year s)"
  have n: "n < 10000" "int n = Year s" using assms(2,3) by (auto simp: n_def)
  have "n div 100 div 10 mod 10 * 1000 + n div 100 mod 10 * 100 + n div 10 mod 10 * 10 + n mod 10
      = (n div 100 div 10 mod 10 * 10 + n div 100 mod 10) * 100 + (n mod 100 div 10 mod 10 * 10 + n mod 100 mod 10)"
    by (simp add: algebra_simps mod_mod_cancel div_mod_digits)
  also have "\<dots> = n"
    using n by (subst (1 2) two_digits_value) simp_all
  finally have "int (n div 100 div 10 mod 10 * 1000 + n div 100 mod 10 * 100 + n div 10 mod 10 * 10 + n mod 10) = Year s"
    using n(2) by simp
  then have y: "int (n div 100 div 10 mod 10) * 1000 + int (n div 100 mod 10) * 100 +
      int (n div 10 mod 10) * 10 + int (n mod 10) = Year s"
    by (simp only: of_nat_add of_nat_mult of_nat_numeral)
  define w where "w = render_stamp s @ rest"
  have w: "w = two_digits (n div 100) @ two_digits n @ ''-'' @ two_digits (Month s) @ ''-'' @
     two_digits (Day s) @ ''T'' @ two_digits (Hour s) @ '':'' @ two_digits (Minute s) @ '':'' @ two_digits (Second s) @ rest"
    by (simp add: w_def render_stamp_def n_def)
  have "19 \<le> length w" by (simp add: w two_digits_def)
  moreover have
    "dig w 0 = n div 100 div 10 mod 10" "dig w 1 = n div 100 mod 10" "dig w 2 = n div 10 mod 10" "dig w 3 = n mod 10"
    "dig w 5 = Month s div 10 mod 10" "dig w 6 = Month s mod 10" "dig w 8 = Day s div 10 mod 10" "dig w 9 = Day s mod 10"
    "dig w 11 = Hour s div 10 mod 10" "dig w 12 = Hour s mod 10" "dig w 14 = Minute s div 10 mod 10" "dig w 15 = Minute s mod 10"
    "dig w 17 = Second s div 10 mod 10" "dig w 18 = Second s mod 10"
    by (simp_all add: w two_digits_def dig_def byte_sub_digit_char)
  ultimately have "timex_Parse w = s"
    unfolding timex_Parse_def
    by (simp only: not_less [symmetric] if_False y two_digits_value [OF f(1)] two_digits_value [OF f(2)]
      two_digits_value [OF f(3)] two_digits_value [OF f(4)] two_digits_value [OF f(5)]) simp
  then show ?thesis by (simp add: w_def)
qed

theorem timex_Parse_render_witness:
  "timex_Parse ''2024-02-29T23:59:59Z'' = stamp_a"
proof -
  have "render_stamp stamp_a @ ''Z'' = ''2024-02-29T23:59:59Z''"
    by (simp add: render_stamp_def stamp_a_def two_digits_def digit_char_def char_of_def bit_0)
  then show ?thesis
    using timex_Parse_render [OF valid_stamp_a, of "''Z''"] by (simp add: stamp_a_def)
qed

section \<open>Calendar properties\<close>

text \<open>(C28) The day number of \<open>DaysSinceEpoch\<close> is the number of days from 1970-01-01 in the
  proleptic Gregorian calendar, counted year by year and month by month, for every year
  (negative ones included) and every month.\<close>

theorem DaysSinceEpoch_is_calendar:
  assumes "1 \<le> m" "m \<le> 12"
  shows "DaysSinceEpoch y m d = cal_days y m d"
  using assms by (rule DaysSinceEpoch_cal_days)

theorem DaysSinceEpoch_is_calendar_witness:
  "DaysSinceEpoch 2000 3 1 = cal_days 2000 3 1 \<and> cal_days 2000 3 1 = 11017"
  using DaysSinceEpoch_is_calendar [of 3 2000 1] by (simp add: DaysSinceEpoch_def sdiv_nonneg)

text \<open>\<open>DayOfWeek\<close> (Sakamoto's table) is the weekday of the day number of
  \<open>DaysSinceEpoch\<close>, Monday being 0: the two calendar routines of the package agree on every
  date whose year keeps the 32-bit sums in range.\<close>

theorem DayOfWeek_agrees:
  assumes "1 \<le> m" "m \<le> 12" "- 1000000000 \<le> y" "y \<le> 1000000000" "d \<le> 1000000"
  shows "DayOfWeek y m d = Some (nat ((DaysSinceEpoch y m d + 3) mod 7))"
  using assms by (rule DayOfWeek_DaysSinceEpoch)

theorem DayOfWeek_agrees_witness: "DayOfWeek 2024 2 29 = Some 3"
  using DayOfWeek_agrees [of 2 2024 29] by (simp add: DaysSinceEpoch_def sdiv_nonneg)

text \<open>\<open>DayOfWeek\<close> panics (its table index \<open>month-1\<close> is out of range) exactly when
  the month is not 1 to 12. A timestamp shorter than 19 bytes parses to month 0.\<close>

theorem DayOfWeek_panic_iff:
  assumes "month < 2 ^ 32"
  shows "DayOfWeek year month day = None \<longleftrightarrow> month = 0 \<or> 12 < month"
  using assms by (rule DayOfWeek_None_iff)

theorem DayOfWeek_panic_iff_witness:
  "DayOfWeek (Year (timex_Parse [])) (Month (timex_Parse [])) (Day (timex_Parse [])) = None"
  using DayOfWeek_panic_iff [of 0 0 0] by (simp add: timex_Parse_def Stamp0_def)

end
