(* ===== verification/Index.thy ===== *)
theory Index
  imports Prelude
begin

text \<open>
  Package \<open>index\<close> (\<open>internal/index/index.go\<close>): the on-disk layout of the IVF index and
  \<open>Open\<close>, which maps a file and cuts it into the slices the search reads.

  A file is its list of bytes (numbers below 256). The operating-system calls of \<open>Open\<close> are
  the fields of an \<open>os_file\<close>: whether each call succeeds, and the contents. A slice
  expression out of range panics, which is \<^const>\<open>None\<close>; an \<open>error\<close> result is
  \<^const>\<open>Inl\<close>.
\<close>

section \<open>Constants and data\<close>

abbreviation (input) "DIMS \<equiv> (14::nat)"
abbreviation (input) "PADDED_DIMS \<equiv> (16::nat)"
abbreviation (input) "LANES \<equiv> (8::nat)"
abbreviation (input) "BlockBytes \<equiv> (256::nat)"
abbreviation (input) "NPROBE \<equiv> (1::nat)"
abbreviation (input) "MaxProbes \<equiv> (33::nat)"
abbreviation (input) "SeenWords \<equiv> (64::nat)"
abbreviation (input) "TopK \<equiv> (5::nat)"
abbreviation (input) "RepairMin \<equiv> (1::nat)"
abbreviation (input) "RepairMax \<equiv> (4::nat)"
abbreviation (input) "HeaderSize \<equiv> (64::nat)"

definition Magic :: nat where
  "Magic = 0x52494E48"

definition Version :: nat where
  "Version = 4"

definition EarlyDist :: int where
  "EarlyDist = 1000 * 1000 * int DIMS"

record Header =
  hMagic :: nat
  hVersion :: nat
  hK :: nat
  hN :: nat
  hNBlocks :: nat
  hScale :: nat \<comment> \<open>the bits of the \<open>float32\<close>\<close>

record Index =
  mmap :: "nat list option" \<comment> \<open>the mapping, \<open>None\<close> for \<open>nil\<close>\<close>
  Hdr :: Header
  Centroids :: "int list"
  NCentroidBlk :: nat
  BBoxMin :: "int list"
  BBoxMax :: "int list"
  BlockOffsets :: "nat list"
  Counts :: "nat list"
  Vectors :: "int list"
  Labels :: "nat list"
  IxK :: nat
  IxN :: nat
  IxNBlocks :: nat

section \<open>Little-endian reads\<close>

definition le16 :: "nat list \<Rightarrow> nat \<Rightarrow> int" where
  "le16 buf i = wrap16 (int (buf ! i + 256 * buf ! (i + 1)))"

definition le32 :: "nat list \<Rightarrow> nat \<Rightarrow> nat" where
  "le32 buf i = buf ! i + 256 * buf ! (i + 1) + 65536 * buf ! (i + 2) + 16777216 * buf ! (i + 3)"

text \<open>\<open>i16Slice\<close> and \<open>u32Slice\<close> reinterpret the memory from the start of a slice. They do
  not look at its length; what they view past the end of the mapping is not specified, and
  \<open>Open\<close> panics before it returns such a slice (\<open>Open_slices\<close> below).\<close>

definition i16Slice :: "nat list \<Rightarrow> nat \<Rightarrow> int list" where
  "i16Slice buf n = map (\<lambda>i. le16 buf (2 * i)) [0..<n]"

definition u32Slice :: "nat list \<Rightarrow> nat \<Rightarrow> nat list" where
  "u32Slice buf n = map (\<lambda>i. le32 buf (4 * i)) [0..<n]"

definition slice_from :: "'a list \<Rightarrow> nat \<Rightarrow> 'a list option" where
  "slice_from xs lo = (if lo \<le> length xs then Some (drop lo xs) else None)"

definition slice :: "'a list \<Rightarrow> nat \<Rightarrow> nat \<Rightarrow> 'a list option" where
  "slice xs lo hi = (if lo \<le> hi \<and> hi \<le> length xs then Some (take (hi - lo) (drop lo xs)) else None)"

section \<open>Open and Close\<close>

record os_file =
  open_ok :: bool
  stat_ok :: bool
  mmap_ok :: bool \<comment> \<open>the first \<open>Mmap\<close>, with the optional \<open>MAP_POPULATE\<close>\<close>
  mmap_retry_ok :: bool \<comment> \<open>the fallback \<open>Mmap\<close>\<close>
  contents :: "nat list"

datatype OpenError = OsError | TooSmall | BadMagic nat | BadVersion nat

definition readHeader :: "nat list \<Rightarrow> Header" where
  "readHeader data =
     \<lparr>hMagic = le32 data 0, hVersion = le32 data 4, hK = le32 data 8, hN = le32 data 12,
      hNBlocks = le32 data 16, hScale = le32 data 20\<rparr>"

definition cutIndex :: "nat list \<Rightarrow> Header \<Rightarrow> Index option" where
  "cutIndex data hdr =
     (let k = hK hdr; n = hN hdr; nb = hNBlocks hdr;
          cur0 = HeaderSize;
          ncb = (k + LANES - 1) div LANES;
          cur1 = cur0 + ncb * BlockBytes;
          cur2 = cur1 + k * PADDED_DIMS * 2;
          cur3 = cur2 + k * PADDED_DIMS * 2;
          cur4 = cur3 + (k + 1) * 4;
          cur5 = cur4 + k * 4;
          cur6 = cur5 + nb * BlockBytes
      in do {
        s0 \<leftarrow> slice_from data cur0;
        s1 \<leftarrow> slice_from data cur1;
        s2 \<leftarrow> slice_from data cur2;
        s3 \<leftarrow> slice_from data cur3;
        s4 \<leftarrow> slice_from data cur4;
        s5 \<leftarrow> slice_from data cur5;
        labels \<leftarrow> slice data cur6 (cur6 + nb * LANES);
        Some \<lparr>mmap = Some data, Hdr = hdr,
              Centroids = i16Slice s0 (ncb * PADDED_DIMS * LANES), NCentroidBlk = ncb,
              BBoxMin = i16Slice s1 (k * PADDED_DIMS), BBoxMax = i16Slice s2 (k * PADDED_DIMS),
              BlockOffsets = u32Slice s3 (k + 1), Counts = u32Slice s4 k,
              Vectors = i16Slice s5 (nb * PADDED_DIMS * LANES), Labels = labels,
              IxK = k, IxN = n, IxNBlocks = nb\<rparr>
      })"

definition Open :: "os_file \<Rightarrow> (OpenError + Index) option" where
  "Open f =
     (if \<not> open_ok f then Some (Inl OsError)
      else if \<not> stat_ok f then Some (Inl OsError)
      else if length (contents f) < HeaderSize then Some (Inl TooSmall)
      else if \<not> mmap_ok f \<and> \<not> mmap_retry_ok f then Some (Inl OsError)
      else let data = contents f; hdr = readHeader data
           in if hMagic hdr \<noteq> Magic then Some (Inl (BadMagic (hMagic hdr)))
              else if hVersion hdr \<noteq> Version then Some (Inl (BadVersion (hVersion hdr)))
              else map_option Inr (cutIndex data hdr))"

text \<open>\<open>Close\<close> unmaps at most once: the second call finds \<open>nil\<close>. The argument
  \<open>munmap_ok\<close> is the result of the system call.\<close>

definition Close :: "bool \<Rightarrow> Index \<Rightarrow> bool \<times> Index" where
  "Close munmap_ok ix =
     (case mmap ix of
        Some _ \<Rightarrow> (munmap_ok, ix\<lparr>mmap := None\<rparr>)
      | None \<Rightarrow> (True, ix))"

section \<open>What a successful Open guarantees\<close>

definition layout_size :: "nat \<Rightarrow> nat \<Rightarrow> nat" where
  "layout_size k nb =
     HeaderSize + ((k + LANES - 1) div LANES) * BlockBytes + k * 64 + (k + 1) * 4 + k * 4
       + nb * BlockBytes + nb * LANES"

lemma length_i16Slice [simp]: "length (i16Slice buf n) = n"
  by (simp add: i16Slice_def)

lemma length_u32Slice [simp]: "length (u32Slice buf n) = n"
  by (simp add: u32Slice_def)

lemma cutIndex_None_iff:
  "cutIndex data hdr = None \<longleftrightarrow> length data < layout_size (hK hdr) (hNBlocks hdr)"
  by (auto simp: cutIndex_def slice_from_def slice_def layout_size_def Let_def split: if_splits)

lemma cutIndex_Some:
  assumes "cutIndex data hdr = Some ix"
  shows "mmap ix = Some data" "Hdr ix = hdr" "IxK ix = hK hdr" "IxN ix = hN hdr" "IxNBlocks ix = hNBlocks hdr"
    "NCentroidBlk ix = (hK hdr + 7) div 8"
    "length (Centroids ix) = NCentroidBlk ix * 128" "length (BBoxMin ix) = IxK ix * 16"
    "length (BBoxMax ix) = IxK ix * 16" "length (BlockOffsets ix) = IxK ix + 1"
    "length (Counts ix) = IxK ix" "length (Vectors ix) = IxNBlocks ix * 128"
    "length (Labels ix) = IxNBlocks ix * 8"
    "layout_size (hK hdr) (hNBlocks hdr) \<le> length data"
  using assms cutIndex_None_iff [of data hdr]
  by (auto simp: cutIndex_def slice_from_def slice_def Let_def split: if_splits)

lemma Close_once: "fst (Close ok (snd (Close ok' ix))) \<and> snd (Close ok (snd (Close ok' ix))) = snd (Close ok' ix)"
  by (simp add: Close_def split: option.splits)

lemma Open_Inr:
  "Open f = Some (Inr ix) \<longleftrightarrow>
     open_ok f \<and> stat_ok f \<and> 64 \<le> length (contents f) \<and> (mmap_ok f \<or> mmap_retry_ok f) \<and>
     hMagic (readHeader (contents f)) = Magic \<and> hVersion (readHeader (contents f)) = Version \<and>
     cutIndex (contents f) (readHeader (contents f)) = Some ix"
  by (auto simp: Open_def Let_def)

section \<open>Properties\<close>

text \<open>(C29) What a successful \<open>Open\<close> guarantees: magic and version are checked, the file is at
  least as long as the layout its header declares, and every slice has the length the search
  relies on (blocks of 128 values, 16 box corners per cluster, one more offset than clusters,
  one label per lane).\<close>

theorem Open_slices:
  assumes "Open f = Some (Inr ix)"
  shows "hMagic (Hdr ix) = Magic \<and> hVersion (Hdr ix) = Version \<and>
    layout_size (IxK ix) (IxNBlocks ix) \<le> length (contents f) \<and>
    NCentroidBlk ix = (IxK ix + 7) div 8 \<and> length (Centroids ix) = NCentroidBlk ix * 128 \<and>
    length (BBoxMin ix) = IxK ix * 16 \<and> length (BBoxMax ix) = IxK ix * 16 \<and>
    length (BlockOffsets ix) = IxK ix + 1 \<and> length (Counts ix) = IxK ix \<and>
    length (Vectors ix) = IxNBlocks ix * 128 \<and> length (Labels ix) = IxNBlocks ix * 8"
proof -
  have c: "cutIndex (contents f) (readHeader (contents f)) = Some ix"
    and h: "hMagic (readHeader (contents f)) = Magic" "hVersion (readHeader (contents f)) = Version"
    using assms by (simp_all add: Open_Inr)
  from cutIndex_Some [OF c] h show ?thesis by simp
qed

text \<open>(C30) \<open>Open\<close> panics, instead of returning an error, exactly for a file that can be mapped,
  carries the right magic and version, and is shorter than the layout its header declares.\<close>

theorem Open_panic_iff:
  "Open f = None \<longleftrightarrow>
     open_ok f \<and> stat_ok f \<and> (mmap_ok f \<or> mmap_retry_ok f) \<and> HeaderSize \<le> length (contents f) \<and>
     hMagic (readHeader (contents f)) = Magic \<and> hVersion (readHeader (contents f)) = Version \<and>
     length (contents f) < layout_size (hK (readHeader (contents f))) (hNBlocks (readHeader (contents f)))"
  by (auto simp: Open_def Let_def cutIndex_None_iff)

definition file_ex :: os_file where
  "file_ex = \<lparr>open_ok = True, stat_ok = True, mmap_ok = True, mmap_retry_ok = True,
     contents = [0x48, 0x4E, 0x49, 0x52, 4, 0, 0, 0] @ replicate 60 0\<rparr>"

theorem Open_slices_witness:
  "\<exists>ix. Open file_ex = Some (Inr ix) \<and> length (BlockOffsets ix) = IxK ix + 1"
proof -
  have h: "readHeader (contents file_ex) =
      \<lparr>hMagic = Magic, hVersion = Version, hK = 0, hN = 0, hNBlocks = 0, hScale = 0\<rparr>"
    by (simp add: readHeader_def le32_def file_ex_def Magic_def Version_def nth_append)
  have "cutIndex (contents file_ex) (readHeader (contents file_ex)) \<noteq> None"
    unfolding cutIndex_None_iff h by (simp add: layout_size_def file_ex_def)
  then obtain ix where "cutIndex (contents file_ex) (readHeader (contents file_ex)) = Some ix" by blast
  then have "Open file_ex = Some (Inr ix)"
    unfolding Open_Inr using h by (simp add: file_ex_def)
  then show ?thesis using Open_slices [of file_ex ix] by blast
qed

end
