(* ===== verification/Kernel.thy ===== *)
theory Kernel
  imports Index
begin

text \<open>
  The distance kernels of package \<open>knn\<close>: the portable ones (\<open>internal/knn/knn_other.go\<close>),
  the AVX2 ones (\<open>internal/knn/knn_amd64.s\<close> with its wrappers in \<open>knn_amd64.go\<close>), and the
  scalar \<open>bboxLowerBound\<close> of \<open>knn.go\<close>.

  A block holds eight vectors, pair-packed: for each pair $p$ of dimensions, the two values of
  lane 0, then of lane 1, and so on. The build tag chooses which implementation \<open>ScoreQ\<close>
  is linked with, so the search takes a record \<open>kernel\<close> of the three operations; the
  contract they all meet is the locale \<open>kernel_spec\<close>, interpreted for both builds.
\<close>

section \<open>The portable kernels\<close>

definition pairTerm :: "int list \<Rightarrow> nat \<Rightarrow> int list \<Rightarrow> nat \<Rightarrow> nat \<Rightarrow> int option" where
  "pairTerm vectors blockBase q p lane =
     do {
       q0 \<leftarrow> read_at q (p * 2);
       q1 \<leftarrow> read_at q (p * 2 + 1);
       let off = blockBase + p * LANES * 2 + lane * 2;
       a \<leftarrow> read_at vectors off;
       b \<leftarrow> read_at vectors (off + 1);
       let d0 = wrap32 (q0 - a);
       let d1 = wrap32 (q1 - b);
       Some (wrap64 (wrap32 (d0 * d0) + wrap32 (d1 * d1)))
     }"

definition addLanes :: "int list \<Rightarrow> int list \<Rightarrow> int list" where
  "addLanes xs ys = map2 (\<lambda>x y. wrap64 (x + y)) xs ys"

definition pairStep ::
  "int list \<Rightarrow> nat \<Rightarrow> int list \<Rightarrow> nat \<Rightarrow> int list \<times> int list \<Rightarrow> (int list \<times> int list) option" where
  "pairStep vectors blockBase q p acc =
     do {
       s \<leftarrow> those (map (pairTerm vectors blockBase q p) [0..<LANES]);
       Some (if even p then (addLanes (fst acc) s, snd acc) else (fst acc, addLanes (snd acc) s))
     }"

fun pairLoop ::
  "int list \<Rightarrow> nat \<Rightarrow> int list \<Rightarrow> nat list \<Rightarrow> int list \<times> int list \<Rightarrow> (int list \<times> int list) option" where
  "pairLoop vectors blockBase q [] acc = Some acc"
| "pairLoop vectors blockBase q (p # ps) acc =
     do { acc' \<leftarrow> pairStep vectors blockBase q p acc; pairLoop vectors blockBase q ps acc' }"

definition zeroLanes :: "int list" where
  "zeroLanes = replicate LANES 0"

definition blkDist_go :: "int list \<Rightarrow> nat \<Rightarrow> int list \<Rightarrow> int list option" where
  "blkDist_go vectors blockIdx q =
     do {
       acc \<leftarrow> pairLoop vectors (blockIdx * PADDED_DIMS * LANES) q [0..<8] (zeroLanes, zeroLanes);
       Some (addLanes (fst acc) (snd acc))
     }"

definition allOver :: "int list \<times> int list \<Rightarrow> int \<Rightarrow> bool" where
  "allOver acc threshold \<longleftrightarrow> (\<forall>x \<in> set (addLanes (fst acc) (snd acc)). \<not> x < threshold)"

text \<open>The pruning loop: \<open>Inl\<close> when a checkpoint prunes the block.\<close>

fun pruneLoop ::
  "int list \<Rightarrow> nat \<Rightarrow> int list \<Rightarrow> int \<Rightarrow> nat list \<Rightarrow> int list \<times> int list
     \<Rightarrow> (unit + (int list \<times> int list)) option" where
  "pruneLoop vectors blockBase q threshold [] acc = Some (Inr acc)"
| "pruneLoop vectors blockBase q threshold (p # ps) acc =
     do {
       acc' \<leftarrow> pairStep vectors blockBase q p acc;
       if (p = 2 \<or> p = 4) \<and> allOver acc' threshold then Some (Inl ())
       else pruneLoop vectors blockBase q threshold ps acc'
     }"

definition blkDistPrune_go :: "int list \<Rightarrow> nat \<Rightarrow> int list \<Rightarrow> int \<Rightarrow> (int list \<times> bool) option" where
  "blkDistPrune_go vectors blockIdx q threshold =
     do {
       r \<leftarrow> pruneLoop vectors (blockIdx * PADDED_DIMS * LANES) q threshold [0..<8] (zeroLanes, zeroLanes);
       Some (case r of Inl _ \<Rightarrow> (zeroLanes, True) | Inr acc \<Rightarrow> (addLanes (fst acc) (snd acc), False))
     }"

definition gap :: "int \<Rightarrow> int \<Rightarrow> int \<Rightarrow> int" where
  "gap qv mnv mxv =
     (if qv < mnv then wrap32 (mnv - qv) else if qv > mxv then wrap32 (qv - mxv) else 0)"

fun bboxSum :: "int list \<Rightarrow> int list \<Rightarrow> int list \<Rightarrow> nat list \<Rightarrow> int \<Rightarrow> int option" where
  "bboxSum q mn mx [] sm = Some sm"
| "bboxSum q mn mx (i # is) sm =
     do {
       qv \<leftarrow> read_at q i; mnv \<leftarrow> read_at mn i; mxv \<leftarrow> read_at mx i;
       bboxSum q mn mx is (wrap64 (sm + wrap64 (gap qv mnv mxv * gap qv mnv mxv)))
     }"

definition bboxLowerBound :: "int list \<Rightarrow> Index \<Rightarrow> nat \<Rightarrow> int option" where
  "bboxLowerBound q ix cluster =
     do {
       let mnBase = cluster * PADDED_DIMS;
       mn \<leftarrow> slice (BBoxMin ix) mnBase (mnBase + PADDED_DIMS);
       mx \<leftarrow> slice (BBoxMax ix) mnBase (mnBase + PADDED_DIMS);
       bboxSum q mn mx [0..<PADDED_DIMS] 0
     }"

section \<open>The AVX2 kernels\<close>

text \<open>A YMM register is the list of its lanes, at the width the instruction uses. Loads read the
  memory behind the slice; a load past its end is \<^const>\<open>None\<close>.\<close>

definition vmovdqu :: "int list \<Rightarrow> nat \<Rightarrow> int list option" where
  "vmovdqu mem i = (if i + 16 \<le> length mem then Some (take 16 (drop i mem)) else None)"

definition vpbroadcastd :: "int list \<Rightarrow> nat \<Rightarrow> int list option" where
  "vpbroadcastd mem i =
     (if i + 2 \<le> length mem then Some (concat (replicate 8 [mem ! i, mem ! (i + 1)])) else None)"

definition vpsubw :: "int list \<Rightarrow> int list \<Rightarrow> int list" where
  "vpsubw xs ys = map2 (\<lambda>x y. wrap16 (x - y)) xs ys"

definition vpmaxsw :: "int list \<Rightarrow> int list \<Rightarrow> int list" where
  "vpmaxsw xs ys = map2 max xs ys"

fun vpmaddwd :: "int list \<Rightarrow> int list \<Rightarrow> int list" where
  "vpmaddwd (x0 # x1 # xs) (y0 # y1 # ys) = wrap32 (x0 * y0 + x1 * y1) # vpmaddwd xs ys"
| "vpmaddwd _ _ = []"

definition vpaddq :: "int list \<Rightarrow> int list \<Rightarrow> int list" where
  "vpaddq xs ys = map2 (\<lambda>x y. wrap64 (x + y)) xs ys"

definition vpcmpgtq :: "int list \<Rightarrow> int list \<Rightarrow> int list" where
  "vpcmpgtq xs ys = map2 (\<lambda>x y. if x > y then - 1 else 0) xs ys"

definition vptest_nz :: "int list \<Rightarrow> bool" where
  "vptest_nz xs \<longleftrightarrow> (\<exists>x \<in> set xs. x \<noteq> 0)"

record ymm =
  Y8 :: "int list"
  Y9 :: "int list"
  Y10 :: "int list"
  Y11 :: "int list"

definition ymm0 :: ymm where
  "ymm0 = \<lparr>Y8 = replicate 4 0, Y9 = replicate 4 0, Y10 = replicate 4 0, Y11 = replicate 4 0\<rparr>"

text \<open>One \<open>pair\<close> section: \<open>VPMOVSXDQ\<close> of the low half and \<open>VEXTRACTI128\<close>
  with \<open>VPMOVSXDQ\<close> of the high half keep the values and split the eight lanes.\<close>

definition avxPair :: "int list \<Rightarrow> nat \<Rightarrow> int list \<Rightarrow> nat \<Rightarrow> ymm \<Rightarrow> ymm option" where
  "avxPair vectors si q p st =
     do {
       y0 \<leftarrow> vpbroadcastd q (2 * p);
       y1 \<leftarrow> vmovdqu vectors (si + 16 * p);
       let y2 = vpsubw y0 y1;
       let y3 = vpmaddwd y2 y2;
       let y4 = take 4 y3;
       let y5 = drop 4 y3;
       Some (if even p then st\<lparr>Y8 := vpaddq (Y8 st) y4, Y9 := vpaddq (Y9 st) y5\<rparr>
             else st\<lparr>Y10 := vpaddq (Y10 st) y4, Y11 := vpaddq (Y11 st) y5\<rparr>)
     }"

fun avxLoop :: "int list \<Rightarrow> nat \<Rightarrow> int list \<Rightarrow> nat list \<Rightarrow> ymm \<Rightarrow> ymm option" where
  "avxLoop vectors si q [] st = Some st"
| "avxLoop vectors si q (p # ps) st =
     do { st' \<leftarrow> avxPair vectors si q p st; avxLoop vectors si q ps st' }"

definition avxMerge :: "ymm \<Rightarrow> int list" where
  "avxMerge st = vpaddq (Y8 st) (Y10 st) @ vpaddq (Y9 st) (Y11 st)"

definition blkDistAVX2 :: "int list \<Rightarrow> nat \<Rightarrow> int list \<Rightarrow> int list option" where
  "blkDistAVX2 vectors blockIdx q =
     do {
       st \<leftarrow> avxLoop vectors (blockIdx * 128) q [0, 1, 2, 3, 4, 5, 6, 7] ymm0;
       Some (avxMerge st)
     }"

definition avxOver :: "ymm \<Rightarrow> int \<Rightarrow> bool" where
  "avxOver st threshold \<longleftrightarrow>
     (let y12 = replicate 4 threshold;
          y6 = vpaddq (Y8 st) (Y10 st);
          y7 = vpaddq (Y9 st) (Y11 st);
          y13 = vpcmpgtq y12 y6;
          y14 = vpcmpgtq y12 y7
      in \<not> (vptest_nz y13 \<or> vptest_nz y14))"

definition blkDistPruneAVX2 :: "int list \<Rightarrow> nat \<Rightarrow> int list \<Rightarrow> int \<Rightarrow> (int list \<times> bool) option" where
  "blkDistPruneAVX2 vectors blockIdx q threshold =
     do {
       let si = blockIdx * 128;
       st2 \<leftarrow> avxLoop vectors si q [0, 1, 2] ymm0;
       if avxOver st2 threshold then Some (zeroLanes, True)
       else do {
         st4 \<leftarrow> avxLoop vectors si q [3, 4] st2;
         if avxOver st4 threshold then Some (zeroLanes, True)
         else do {
           st \<leftarrow> avxLoop vectors si q [5, 6, 7] st4;
           Some (avxMerge st, False)
         }
       }
     }"

definition bboxLowerBoundAVX2 :: "int list \<Rightarrow> int list \<Rightarrow> int list \<Rightarrow> int" where
  "bboxLowerBoundAVX2 mn mx q =
     (let y3 = vpsubw mn q;
          y4 = vpsubw q mx;
          y5 = replicate 16 0;
          y3' = vpmaxsw (vpmaxsw y3 y5) (vpmaxsw y4 y5);
          y = vpmaddwd y3' y3';
          y6 = vpaddq (take 4 y) (drop 4 y);
          x6 = vpaddq (take 2 y6) (drop 2 y6)
      in wrap64 (x6 ! 0 + x6 ! 1))"

definition bboxLowerBoundFast_amd64 :: "int list \<Rightarrow> Index \<Rightarrow> nat \<Rightarrow> int option" where
  "bboxLowerBoundFast_amd64 q ix cluster =
     do {
       let base = cluster * PADDED_DIMS;
       mn \<leftarrow> vmovdqu (BBoxMin ix) base;
       mx \<leftarrow> vmovdqu (BBoxMax ix) base;
       qv \<leftarrow> vmovdqu q 0;
       Some (bboxLowerBoundAVX2 mn mx qv)
     }"

section \<open>The kernel interface\<close>

record kernel =
  blkDist :: "int list \<Rightarrow> nat \<Rightarrow> int list \<Rightarrow> int list option"
  blkDistPrune :: "int list \<Rightarrow> nat \<Rightarrow> int list \<Rightarrow> int \<Rightarrow> (int list \<times> bool) option"
  bboxLowerBoundFast :: "int list \<Rightarrow> Index \<Rightarrow> nat \<Rightarrow> int option"

definition portable :: kernel where
  "portable = \<lparr>blkDist = blkDist_go, blkDistPrune = blkDistPrune_go, bboxLowerBoundFast = bboxLowerBound\<rparr>"

definition amd64 :: kernel where
  "amd64 = \<lparr>blkDist = blkDistAVX2, blkDistPrune = blkDistPruneAVX2,
            bboxLowerBoundFast = bboxLowerBoundFast_amd64\<rparr>"

section \<open>The squared distance the kernels compute\<close>

definition in_range :: "int list \<Rightarrow> bool" where
  "in_range xs \<longleftrightarrow> (\<forall>x \<in> set xs. - 10000 \<le> x \<and> x \<le> 10000)"

definition vecOf :: "int list \<Rightarrow> nat \<Rightarrow> nat \<Rightarrow> int list" where
  "vecOf v b l = map (\<lambda>j. v ! (b * 128 + j div 2 * 16 + l * 2 + j mod 2)) [0..<16]"

definition sqdist :: "int list \<Rightarrow> int list \<Rightarrow> int" where
  "sqdist q x = (\<Sum>i<16. (q ! i - x ! i) ^ 2)"

definition blockDists :: "int list \<Rightarrow> nat \<Rightarrow> int list \<Rightarrow> int list" where
  "blockDists v b q = map (\<lambda>l. sqdist q (vecOf v b l)) [0..<8]"

definition block_ok :: "int list \<Rightarrow> nat \<Rightarrow> bool" where
  "block_ok v b \<longleftrightarrow> b * 128 + 128 \<le> length v \<and> in_range v"

definition query_ok :: "int list \<Rightarrow> bool" where
  "query_ok q \<longleftrightarrow> length q = 16 \<and> in_range q"

definition bbox_gap :: "int \<Rightarrow> int \<Rightarrow> int \<Rightarrow> int" where
  "bbox_gap a lo hi = max (max (lo - a) 0) (max (a - hi) 0)"

definition bboxDist :: "int list \<Rightarrow> Index \<Rightarrow> nat \<Rightarrow> int" where
  "bboxDist q ix c = (\<Sum>i<16. (bbox_gap (q ! i) (BBoxMin ix ! (c * 16 + i)) (BBoxMax ix ! (c * 16 + i))) ^ 2)"

definition bbox_ok :: "Index \<Rightarrow> nat \<Rightarrow> bool" where
  "bbox_ok ix c \<longleftrightarrow> c * 16 + 16 \<le> length (BBoxMin ix) \<and> c * 16 + 16 \<le> length (BBoxMax ix) \<and>
     (\<forall>i<16. - 10000 \<le> BBoxMin ix ! (c * 16 + i) \<and> BBoxMin ix ! (c * 16 + i) \<le> BBoxMax ix ! (c * 16 + i)
       \<and> BBoxMax ix ! (c * 16 + i) \<le> 10000)"

definition pterm :: "int list \<Rightarrow> nat \<Rightarrow> int list \<Rightarrow> nat \<Rightarrow> nat \<Rightarrow> int" where
  "pterm v base q l p = (q ! (p * 2) - v ! (base + p * 16 + l * 2)) ^ 2
     + (q ! (p * 2 + 1) - v ! (base + p * 16 + l * 2 + 1)) ^ 2"

definition psum :: "int list \<Rightarrow> nat \<Rightarrow> int list \<Rightarrow> nat \<Rightarrow> nat \<Rightarrow> int" where
  "psum v base q l n = (\<Sum>p<n. pterm v base q l p)"

lemma in_rangeD: "in_range xs \<Longrightarrow> i < length xs \<Longrightarrow> - 10000 \<le> xs ! i \<and> xs ! i \<le> 10000"
  by (simp add: in_range_def)

lemma sq_bound: "\<bar>x\<bar> \<le> 20000 \<Longrightarrow> 0 \<le> x ^ 2 \<and> x ^ 2 \<le> (400000000::int)"
  using power_mono [of "\<bar>x\<bar>" 20000 2] by simp

lemma wrap_sq: "\<bar>x\<bar> \<le> 20000 \<Longrightarrow> wrap32 x = x \<and> wrap32 (x * x) = x ^ 2"
proof -
  assume x: "\<bar>x\<bar> \<le> 20000"
  have "wrap32 (x ^ 2) = x ^ 2" by (rule wrap32_id) (use sq_bound [OF x] in linarith)+
  then show ?thesis using x by (simp add: wrap32_id power2_eq_square)
qed

lemma wrap_sq2: "\<bar>x\<bar> \<le> 20000 \<Longrightarrow> \<bar>y\<bar> \<le> 20000 \<Longrightarrow> wrap64 (x ^ 2 + y ^ 2) = x ^ 2 + y ^ 2"
  by (rule wrap64_id) (use sq_bound [of x] sq_bound [of y] in linarith)+

lemma sub_bound: "- 10000 \<le> x \<and> x \<le> 10000 \<Longrightarrow> - 10000 \<le> y \<and> y \<le> 10000 \<Longrightarrow> \<bar>x - y\<bar> \<le> (20000::int)"
  by auto

lemma pterm_bound:
  assumes "query_ok q" "block_ok v b" "l < 8" "p < 8"
  shows "0 \<le> pterm v (b * 128) q l p" "pterm v (b * 128) q l p \<le> 800000000"
proof -
  have q: "length q = 16" "in_range q" using assms(1) by (auto simp: query_ok_def)
  have v: "b * 128 + 128 \<le> length v" "in_range v" using assms(2) by (auto simp: block_ok_def)
  have "\<bar>q ! (p * 2) - v ! (b * 128 + p * 16 + l * 2)\<bar> \<le> 20000"
    by (rule sub_bound; rule in_rangeD) (use q v assms in auto)
  moreover have "\<bar>q ! (p * 2 + 1) - v ! (b * 128 + p * 16 + l * 2 + 1)\<bar> \<le> 20000"
    by (rule sub_bound; rule in_rangeD) (use q v assms in auto)
  ultimately show "0 \<le> pterm v (b * 128) q l p" "pterm v (b * 128) q l p \<le> 800000000"
    using sq_bound unfolding pterm_def by (simp, fastforce dest: sq_bound)
qed

lemma psum_Suc [simp]: "psum v base q l (Suc n) = psum v base q l n + pterm v base q l n"
  by (simp add: psum_def)

lemma psum_0 [simp]: "psum v base q l 0 = 0"
  by (simp add: psum_def)

lemma psum_bound:
  assumes "query_ok q" "block_ok v b" "l < 8" "n \<le> 8"
  shows "0 \<le> psum v (b * 128) q l n \<and> psum v (b * 128) q l n \<le> 800000000 * int n"
  using assms(4)
proof (induction n)
  case (Suc n)
  then show ?case using pterm_bound [OF assms(1-3), of n] by (simp add: algebra_simps)
qed simp

lemma psum_mono:
  assumes "query_ok q" "block_ok v b" "l < 8" "n \<le> m" "m \<le> 8"
  shows "psum v (b * 128) q l n \<le> psum v (b * 128) q l m"
  using assms(4,5)
proof (induction m rule: dec_induct)
  case (step k)
  then show ?case using pterm_bound(1) [OF assms(1-3), of k] by simp
qed simp

lemma sum_pairs: "(\<Sum>i<2 * n. f i) = (\<Sum>p<n. f (2 * p) + f (2 * p + 1))" for f :: "nat \<Rightarrow> int"
  by (induction n) (simp_all add: algebra_simps)

lemma nth_vecOf: "j < 16 \<Longrightarrow> vecOf v b l ! j = v ! (b * 128 + j div 2 * 16 + l * 2 + j mod 2)"
  by (simp add: vecOf_def)

lemma nth_vecOf_pair:
  assumes "p < 8"
  shows "vecOf v b l ! (2 * p) = v ! (b * 128 + p * 16 + l * 2)"
    "vecOf v b l ! (2 * p + 1) = v ! (b * 128 + p * 16 + l * 2 + 1)"
proof -
  have "(2 * p + 1) div 2 = p" "(2 * p + 1) mod 2 = 1" "2 * p + 1 < 16" using assms by simp_all
  then show "vecOf v b l ! (2 * p + 1) = v ! (b * 128 + p * 16 + l * 2 + 1)"
    by (simp only: nth_vecOf)
qed (use assms in \<open>simp add: nth_vecOf\<close>)

lemma psum_8: "psum v (b * 128) q l 8 = sqdist q (vecOf v b l)"
proof -
  have "sqdist q (vecOf v b l) = (\<Sum>p<8. (q ! (2 * p) - vecOf v b l ! (2 * p)) ^ 2
      + (q ! (2 * p + 1) - vecOf v b l ! (2 * p + 1)) ^ 2)"
    using sum_pairs [of "\<lambda>i. (q ! i - vecOf v b l ! i) ^ 2" 8] by (simp add: sqdist_def)
  also have "\<dots> = psum v (b * 128) q l 8"
    unfolding psum_def by (rule sum.cong) (simp_all only: pterm_def nth_vecOf_pair lessThan_iff mult.commute [of _ 2])
  finally show ?thesis by simp
qed

lemma pairTerm_eq:
  assumes "query_ok q" "block_ok v b" "l < 8" "p < 8"
  shows "pairTerm v (b * 128) q p l = Some (pterm v (b * 128) q l p)"
proof -
  have q: "length q = 16" "in_range q" using assms(1) by (auto simp: query_ok_def)
  have v: "b * 128 + 128 \<le> length v" "in_range v" using assms(2) by (auto simp: block_ok_def)
  let ?d0 = "q ! (p * 2) - v ! (b * 128 + p * 16 + l * 2)"
  let ?d1 = "q ! (p * 2 + 1) - v ! (b * 128 + p * 16 + l * 2 + 1)"
  have d0: "\<bar>?d0\<bar> \<le> 20000"
    by (rule sub_bound; rule in_rangeD) (use q v assms in auto)
  have d1: "\<bar>?d1\<bar> \<le> 20000"
    by (rule sub_bound; rule in_rangeD) (use q v assms in auto)
  have r: "read_at q (p * 2) = Some (q ! (p * 2))" "read_at q (p * 2 + 1) = Some (q ! (p * 2 + 1))"
    "read_at v (b * 128 + p * 8 * 2 + l * 2) = Some (v ! (b * 128 + p * 16 + l * 2))"
    "read_at v (b * 128 + p * 8 * 2 + l * 2 + 1) = Some (v ! (b * 128 + p * 16 + l * 2 + 1))"
    using q v assms by (auto simp: read_at_def mult.commute)
  have w: "wrap32 ?d0 = ?d0" "wrap32 ?d1 = ?d1" "wrap32 (?d0 * ?d0) = ?d0\<^sup>2" "wrap32 (?d1 * ?d1) = ?d1\<^sup>2"
    "wrap64 (?d0\<^sup>2 + ?d1\<^sup>2) = ?d0\<^sup>2 + ?d1\<^sup>2"
    using wrap_sq [OF d0] wrap_sq [OF d1] wrap_sq2 [OF d0 d1] by simp_all
  show ?thesis
    unfolding pairTerm_def Let_def r pterm_def by (simp only: bind.bind_lunit r w)
qed

lemma those_map_Some: "(\<And>x. x \<in> set xs \<Longrightarrow> f x = Some (g x)) \<Longrightarrow> those (map f xs) = Some (map g xs)"
  by (induction xs) auto


section \<open>The portable kernels meet the contract\<close>

text \<open>What the two accumulators of the pair loop hold after \<open>n\<close> pairs.\<close>

definition acc_inv :: "int list \<Rightarrow> nat \<Rightarrow> int list \<Rightarrow> nat \<Rightarrow> int list \<times> int list \<Rightarrow> bool" where
  "acc_inv v b q n acc \<longleftrightarrow> length (fst acc) = 8 \<and> length (snd acc) = 8 \<and>
     (\<forall>l<8. 0 \<le> fst acc ! l \<and> 0 \<le> snd acc ! l \<and> fst acc ! l + snd acc ! l = psum v (b * 128) q l n)"

lemma nth_addLanes: "l < length xs \<Longrightarrow> l < length ys \<Longrightarrow> addLanes xs ys ! l = wrap64 (xs ! l + ys ! l)"
  by (simp add: addLanes_def)

lemma length_addLanes [simp]: "length (addLanes xs ys) = min (length xs) (length ys)"
  by (simp add: addLanes_def)

lemma acc_inv_0: "acc_inv v b q 0 (zeroLanes, zeroLanes)"
  by (simp add: acc_inv_def zeroLanes_def)

lemma pairStep_inv:
  assumes "query_ok q" "block_ok v b" "n < 8" "acc_inv v b q n acc"
  shows "\<exists>acc'. pairStep v (b * 128) q n acc = Some acc' \<and> acc_inv v b q (Suc n) acc'"
proof -
  let ?s = "map (\<lambda>l. pterm v (b * 128) q l n) [0..<8]"
  have s: "those (map (pairTerm v (b * 128) q n) [0..<8]) = Some ?s"
    by (rule those_map_Some) (use assms in \<open>simp add: pairTerm_eq\<close>)
  have w: "wrap64 (x + pterm v (b * 128) q l n) = x + pterm v (b * 128) q l n"
    if "l < 8" "0 \<le> x" "x \<le> psum v (b * 128) q l n" for x l
    by (rule wrap64_id) (use that pterm_bound [OF assms(1,2) that(1) assms(3)]
      psum_bound [OF assms(1,2) that(1), of n] assms(3) in linarith)+
  show ?thesis
  proof (cases "even n")
    case True
    have "acc_inv v b q (Suc n) (addLanes (fst acc) ?s, snd acc)"
      using assms(4) pterm_bound(1) [OF assms(1,2) _ assms(3)]
      by (auto simp: acc_inv_def nth_addLanes w)
    then show ?thesis using True by (simp add: pairStep_def s)
  next
    case False
    have "acc_inv v b q (Suc n) (fst acc, addLanes (snd acc) ?s)"
      using assms(4) pterm_bound(1) [OF assms(1,2) _ assms(3)]
      by (auto simp: acc_inv_def nth_addLanes w)
    then show ?thesis using False by (simp add: pairStep_def s)
  qed
qed

lemma merged_lanes:
  assumes "query_ok q" "block_ok v b" "n \<le> 8" "acc_inv v b q n acc"
  shows "addLanes (fst acc) (snd acc) = map (\<lambda>l. psum v (b * 128) q l n) [0..<8]"
proof (rule nth_equalityI)
  fix l assume "l < length (addLanes (fst acc) (snd acc))"
  then have l: "l < 8" using assms(4) by (simp add: acc_inv_def)
  have "wrap64 (psum v (b * 128) q l n) = psum v (b * 128) q l n"
    by (rule wrap64_id) (use psum_bound [OF assms(1,2) l assms(3)] assms(3) in linarith)+
  then show "addLanes (fst acc) (snd acc) ! l = map (\<lambda>l. psum v (b * 128) q l n) [0..<8] ! l"
    using l assms(4) by (simp add: acc_inv_def nth_addLanes)
qed (use assms(4) in \<open>simp add: acc_inv_def\<close>)

lemma Cons_eq_upt: "p # ps = [n..<m] \<Longrightarrow> p = n \<and> ps = [Suc n..<m] \<and> n < m"
  by (cases "n < m") (auto simp: upt_conv_Cons)

lemma pairLoop_inv:
  assumes "query_ok q" "block_ok v b" "n + length ps \<le> 8" "ps = [n..<n + length ps]" "acc_inv v b q n acc"
  shows "\<exists>acc'. pairLoop v (b * 128) q ps acc = Some acc' \<and> acc_inv v b q (n + length ps) acc'"
  using assms(3-5)
proof (induction ps arbitrary: n acc)
  case (Cons p ps)
  have p: "p = n" "ps = [Suc n..<Suc n + length ps]"
    using Cons_eq_upt [OF Cons.prems(2)] by simp_all
  obtain acc' where a: "pairStep v (b * 128) q n acc = Some acc'" "acc_inv v b q (Suc n) acc'"
    using pairStep_inv [OF assms(1,2) _ Cons.prems(3)] Cons.prems(1) by auto
  then show ?case using Cons.IH [OF _ p(2) a(2)] Cons.prems(1) p(1) by simp
qed simp

lemma blkDist_go_spec:
  assumes "query_ok q" "block_ok v b"
  shows "blkDist_go v b q = Some (blockDists v b q)"
proof -
  obtain acc where a: "pairLoop v (b * 128) q [0..<8] (zeroLanes, zeroLanes) = Some acc" "acc_inv v b q 8 acc"
    using pairLoop_inv [OF assms, of 0 "[0..<8]", OF _ _ acc_inv_0] by auto
  then show ?thesis
    using merged_lanes [OF assms _ a(2)] by (simp add: blkDist_go_def blockDists_def psum_8 mult.assoc)
qed

definition prune_result :: "int list \<Rightarrow> int \<Rightarrow> int list \<times> bool \<Rightarrow> bool" where
  "prune_result dists threshold r \<longleftrightarrow>
     (if snd r then (\<forall>d \<in> set dists. threshold \<le> d) else fst r = dists)"

lemma pruneLoop_inv:
  assumes "query_ok q" "block_ok v b" "n + length ps = 8" "ps = [n..<8]" "acc_inv v b q n acc"
  shows "\<exists>r. pruneLoop v (b * 128) q thr ps acc = Some r \<and>
    (case r of Inl _ \<Rightarrow> (\<forall>d \<in> set (blockDists v b q). thr \<le> d) | Inr acc' \<Rightarrow> acc_inv v b q 8 acc')"
  using assms(3-5)
proof (induction ps arbitrary: n acc)
  case (Cons p ps)
  have p: "p = n" "ps = [Suc n..<8]"
    using Cons_eq_upt [OF Cons.prems(2)] by simp_all
  obtain acc' where a: "pairStep v (b * 128) q n acc = Some acc'" "acc_inv v b q (Suc n) acc'"
    using pairStep_inv [OF assms(1,2) _ Cons.prems(3)] Cons.prems(1) by auto
  show ?case
  proof (cases "(p = 2 \<or> p = 4) \<and> allOver acc' thr")
    case True
    have n8: "Suc n \<le> 8" using Cons.prems(1) by simp
    have "thr \<le> psum v (b * 128) q l 8" if "l < 8" for l
    proof -
      have "thr \<le> psum v (b * 128) q l (Suc n)"
        using True that merged_lanes [OF assms(1,2) n8 a(2)] by (auto simp: allOver_def not_less)
      also have "\<dots> \<le> psum v (b * 128) q l 8"
        using psum_mono [OF assms(1,2) that n8] by simp
      finally show ?thesis .
    qed
    then have "\<forall>d \<in> set (blockDists v b q). thr \<le> d" by (auto simp: blockDists_def psum_8)
    then show ?thesis using True a p by simp
  next
    case False
    then have "pruneLoop v (b * 128) q thr (p # ps) acc = pruneLoop v (b * 128) q thr ps acc'"
      using a p by auto
    then show ?thesis using Cons.IH [OF _ p(2) a(2)] Cons.prems(1) by simp
  qed
qed simp

lemma blkDistPrune_go_spec:
  assumes "query_ok q" "block_ok v b"
  shows "\<exists>r. blkDistPrune_go v b q thr = Some r \<and> prune_result (blockDists v b q) thr r"
proof -
  obtain r where r: "pruneLoop v (b * 128) q thr [0..<8] (zeroLanes, zeroLanes) = Some r"
    "case r of Inl _ \<Rightarrow> (\<forall>d \<in> set (blockDists v b q). thr \<le> d) | Inr acc' \<Rightarrow> acc_inv v b q 8 acc'"
    using pruneLoop_inv [OF assms, of 0 "[0..<8]", OF _ _ acc_inv_0] by auto
  then show ?thesis
    using merged_lanes [OF assms, of 8]
    by (auto simp: blkDistPrune_go_def prune_result_def blockDists_def psum_8 mult.assoc split: sum.splits)
qed


lemma gap_eq:
  assumes "- 10000 \<le> a \<and> a \<le> 10000" "- 10000 \<le> lo" "lo \<le> hi" "hi \<le> 10000"
  shows "gap a lo hi = bbox_gap a lo hi" "0 \<le> bbox_gap a lo hi" "bbox_gap a lo hi \<le> 20000"
  using assms by (auto simp: gap_def bbox_gap_def wrap32_id)

lemma gap_sq:
  assumes "- 10000 \<le> a \<and> a \<le> 10000" "- 10000 \<le> lo" "lo \<le> hi" "hi \<le> 10000"
  shows "0 \<le> (bbox_gap a lo hi) ^ 2 \<and> (bbox_gap a lo hi) ^ 2 \<le> 400000000"
  by (rule sq_bound) (use gap_eq(2,3) [OF assms] in simp)

lemma slice_16:
  assumes "c * 16 + 16 \<le> length xs"
  shows "slice xs (c * 16) (c * 16 + 16) = Some (map (\<lambda>i. xs ! (c * 16 + i)) [0..<16])"
proof -
  have "take 16 (drop (c * 16) xs) = map (\<lambda>i. xs ! (c * 16 + i)) [0..<16]"
    by (rule nth_equalityI) (use assms in auto)
  then show ?thesis using assms by (simp add: slice_def)
qed

lemma bboxSum_eq:
  assumes "query_ok q" "bbox_ok ix c" "is = [n..<16]"
    and "sm = (\<Sum>i<n. (bbox_gap (q ! i) (BBoxMin ix ! (c * 16 + i)) (BBoxMax ix ! (c * 16 + i))) ^ 2)"
    and "n \<le> 16" "0 \<le> sm" "sm \<le> 400000000 * int n"
  shows "bboxSum q (map (\<lambda>i. BBoxMin ix ! (c * 16 + i)) [0..<16]) (map (\<lambda>i. BBoxMax ix ! (c * 16 + i)) [0..<16])
     is sm = Some (bboxDist q ix c)"
  using assms(3-)
proof (induction "is" arbitrary: n sm)
  case Nil
  then have "[n..<16] = []" by simp
  with Nil.prems have "n = 16" by (simp add: upt_eq_Nil_conv)
  then show ?case using Nil by (simp add: bboxDist_def)
next
  case (Cons i is')
  have i: "i = n" "is' = [Suc n..<16]" "n < 16"
    using Cons_eq_upt [OF Cons.prems(1)] by simp_all
  let ?lo = "BBoxMin ix ! (c * 16 + n)" and ?hi = "BBoxMax ix ! (c * 16 + n)"
  have q: "- 10000 \<le> q ! n \<and> q ! n \<le> 10000"
    using in_rangeD [of q n] assms(1) i by (simp add: query_ok_def)
  have b: "- 10000 \<le> ?lo" "?lo \<le> ?hi" "?hi \<le> 10000"
    using assms(2) i by (auto simp: bbox_ok_def)
  note g = gap_eq(1) [OF q b]
  note s = gap_sq [OF q b]
  have w1: "wrap64 (gap (q ! n) ?lo ?hi * gap (q ! n) ?lo ?hi) = (bbox_gap (q ! n) ?lo ?hi) ^ 2"
    unfolding g power2_eq_square [symmetric] by (rule wrap64_id) (use s in linarith)+
  have w2: "wrap64 (sm + (bbox_gap (q ! n) ?lo ?hi) ^ 2) = sm + (bbox_gap (q ! n) ?lo ?hi) ^ 2"
    by (rule wrap64_id) (use s Cons.prems i in linarith)+
  have r: "read_at q n = Some (q ! n)" using assms(1) i by (simp add: query_ok_def read_at_def)
  have "bboxSum q (map (\<lambda>i. BBoxMin ix ! (c * 16 + i)) [0..<16]) (map (\<lambda>i. BBoxMax ix ! (c * 16 + i)) [0..<16])
     is' (sm + (bbox_gap (q ! n) ?lo ?hi) ^ 2) = Some (bboxDist q ix c)"
    by (rule Cons.IH [OF i(2)]) (use Cons.prems i s in auto)
  then show ?case
    using i by (simp add: r read_at_Some w1 w2)
qed

lemma bboxLowerBound_spec:
  assumes "query_ok q" "bbox_ok ix c"
  shows "bboxLowerBound q ix c = Some (bboxDist q ix c)"
  using assms(2) bboxSum_eq [OF assms, of "[0..<16]" 0 0]
  by (simp add: bboxLowerBound_def bbox_ok_def slice_16)

section \<open>The AVX2 kernels compute the same values\<close>

definition ymm_abs :: "ymm \<Rightarrow> int list \<times> int list" where
  "ymm_abs st = (Y8 st @ Y9 st, Y10 st @ Y11 st)"

definition ymm_ok :: "ymm \<Rightarrow> bool" where
  "ymm_ok st \<longleftrightarrow> length (Y8 st) = 4 \<and> length (Y9 st) = 4 \<and> length (Y10 st) = 4 \<and> length (Y11 st) = 4"

lemma ymm0_abs: "ymm_ok ymm0" "ymm_abs ymm0 = (zeroLanes, zeroLanes)"
  by (simp_all add: ymm_ok_def ymm_abs_def ymm0_def zeroLanes_def eval_nat_numeral)

lemma upt_8: "[0..<8] = [0, 1, 2, 3, 4, 5, 6, 7]"
  by (simp add: upt_rec)

lemma upt_16: "[0..<16] = [0, 1, 2, 3, 4, 5, 6, 7, 8, 9, 10, 11, 12, 13, 14, 15]"
  by (simp add: upt_rec)

lemma wrap_pair: "\<bar>x\<bar> \<le> 20000 \<Longrightarrow> \<bar>y\<bar> \<le> 20000 \<Longrightarrow>
   wrap32 (wrap16 x * wrap16 x + wrap16 y * wrap16 y) = x ^ 2 + y ^ 2"
proof -
  assume x: "\<bar>x\<bar> \<le> 20000" and y: "\<bar>y\<bar> \<le> 20000"
  have "wrap32 (x ^ 2 + y ^ 2) = x ^ 2 + y ^ 2"
    by (rule wrap32_id) (use sq_bound [OF x] sq_bound [OF y] in linarith)+
  then show ?thesis using x y by (simp add: wrap16_id power2_eq_square)
qed

lemma take_drop_map: "i + n \<le> length xs \<Longrightarrow> take n (drop i xs) = map (\<lambda>j. xs ! (i + j)) [0..<n]"
  by (rule nth_equalityI) auto

lemma replicate_8: "replicate 8 x = [x, x, x, x, x, x, x, x]"
  by (simp add: eval_nat_numeral)

lemma vpmaddwd_diff:
  assumes "query_ok q" "block_ok v b" "p < 8"
  shows "\<exists>y0 y1. vpbroadcastd q (2 * p) = Some y0 \<and> vmovdqu v (b * 128 + 16 * p) = Some y1 \<and>
    vpmaddwd (vpsubw y0 y1) (vpsubw y0 y1) = map (\<lambda>l. pterm v (b * 128) q l p) [0..<8]"
proof -
  have q: "length q = 16" "in_range q" using assms(1) by (auto simp: query_ok_def)
  have v: "b * 128 + 128 \<le> length v" "in_range v" using assms(2) by (auto simp: block_ok_def)
  define off where "off = b * 128 + 16 * p"
  define f where "f = (\<lambda>j. v ! (off + j))"
  have off: "off + 16 \<le> length v" using v assms(3) by (simp add: off_def)
  define a0 a1 where "a0 = q ! (2 * p)" and "a1 = q ! (2 * p + 1)"
  have bd: "\<bar>a0 - f j\<bar> \<le> 20000" "\<bar>a1 - f j\<bar> \<le> 20000" if "j < 16" for j
    unfolding f_def a0_def a1_def by (rule sub_bound; rule in_rangeD; use q v off assms that in simp)+
  have wp: "wrap32 (wrap16 (a0 - f i) * wrap16 (a0 - f i) + wrap16 (a1 - f j) * wrap16 (a1 - f j))
      = (a0 - f i) ^ 2 + (a1 - f j) ^ 2" if "i < 16" "j < 16" for i j
    by (rule wrap_pair [OF bd(1) [OF that(1)] bd(2) [OF that(2)]])
  define y0 where "y0 = concat (replicate 8 [a0, a1])"
  define y1 where "y1 = map f [0..<16]"
  have "vpbroadcastd q (2 * p) = Some y0"
    using q assms(3) by (simp add: vpbroadcastd_def y0_def a0_def a1_def)
  moreover have "vmovdqu v off = Some y1"
    using off by (simp add: vmovdqu_def y1_def take_drop_map f_def)
  moreover have "vpmaddwd (vpsubw y0 y1) (vpsubw y0 y1) =
      map (\<lambda>l. (a0 - f (2 * l)) ^ 2 + (a1 - f (2 * l + 1)) ^ 2) [0..<8]"
    unfolding y0_def y1_def upt_16 upt_8 replicate_8
    by (simp add: vpsubw_def wp)
  moreover have "(a0 - f (2 * l)) ^ 2 + (a1 - f (2 * l + 1)) ^ 2 = pterm v (b * 128) q l p" for l
    by (simp add: pterm_def f_def off_def a0_def a1_def mult.commute add.assoc)
  ultimately show ?thesis unfolding off_def by auto
qed


lemma addLanes_append:
  "length xs = length ys \<Longrightarrow> addLanes (xs @ xs') (ys @ ys') = vpaddq xs ys @ vpaddq xs' ys'"
  by (simp add: addLanes_def vpaddq_def)

lemma avxPair_pairStep:
  assumes "query_ok q" "block_ok v b" "p < 8" "ymm_ok st"
  shows "\<exists>st'. avxPair v (b * 128) q p st = Some st' \<and> ymm_ok st' \<and>
    pairStep v (b * 128) q p (ymm_abs st) = Some (ymm_abs st')"
proof -
  let ?s = "map (\<lambda>l. pterm v (b * 128) q l p) [0..<8]"
  obtain y0 y1 where y: "vpbroadcastd q (2 * p) = Some y0" "vmovdqu v (b * 128 + 16 * p) = Some y1"
    "vpmaddwd (vpsubw y0 y1) (vpsubw y0 y1) = ?s"
    using vpmaddwd_diff [OF assms(1-3)] by blast
  have s: "those (map (pairTerm v (b * 128) q p) [0..<8]) = Some ?s"
    by (rule those_map_Some) (use assms in \<open>simp add: pairTerm_eq\<close>)
  have add: "addLanes (xs @ ys) ?s = vpaddq xs (take 4 ?s) @ vpaddq ys (drop 4 ?s)"
    if "length xs = 4" for xs ys
    using that addLanes_append [of xs "take 4 ?s" ys "drop 4 ?s"] by (simp only: append_take_drop_id length_take length_map length_upt)
  have len: "length (vpaddq xs (take 4 ?s)) = 4" "length (vpaddq xs (drop 4 ?s)) = 4"
    if "length xs = 4" for xs
    using that by (simp_all add: vpaddq_def)
  show ?thesis
    using assms(4) by (simp add: avxPair_def y s Let_def pairStep_def ymm_abs_def ymm_ok_def add len del: upt_rec_numeral)
qed

lemma avxLoop_pairLoop:
  assumes "query_ok q" "block_ok v b" "\<forall>p \<in> set ps. p < 8" "ymm_ok st"
  shows "\<exists>st'. avxLoop v (b * 128) q ps st = Some st' \<and> ymm_ok st' \<and>
    pairLoop v (b * 128) q ps (ymm_abs st) = Some (ymm_abs st')"
  using assms(3,4)
proof (induction ps arbitrary: st)
  case (Cons p ps)
  obtain st1 where "avxPair v (b * 128) q p st = Some st1" "ymm_ok st1"
    "pairStep v (b * 128) q p (ymm_abs st) = Some (ymm_abs st1)"
    using avxPair_pairStep [OF assms(1,2) _ Cons.prems(2)] Cons.prems(1) by auto
  then show ?case using Cons.IH [of st1] Cons.prems(1) by simp
qed simp

lemma avxMerge_eq: "ymm_ok st \<Longrightarrow> avxMerge st = addLanes (fst (ymm_abs st)) (snd (ymm_abs st))"
  by (simp add: avxMerge_def ymm_abs_def ymm_ok_def addLanes_append)

lemma avxOver_eq: "ymm_ok st \<Longrightarrow> avxOver st thr = allOver (ymm_abs st) thr"
proof -
  assume ok: "ymm_ok st"
  have test: "vptest_nz (vpcmpgtq (replicate 4 thr) xs) \<longleftrightarrow> (\<exists>x \<in> set xs. x < thr)" if "length xs = 4" for xs
  proof -
    have "vpcmpgtq (replicate 4 thr) xs = map (\<lambda>x. if thr > x then - 1 else 0) xs"
      by (rule nth_equalityI) (use that in \<open>simp_all add: vpcmpgtq_def\<close>)
    then have "vptest_nz (vpcmpgtq (replicate 4 thr) xs) \<longleftrightarrow> (\<exists>x \<in> set xs. (if thr > x then - 1 else 0) \<noteq> (0::int))"
      by (simp only: vptest_nz_def set_map bex_simps(7))
    then show ?thesis by simp
  qed
  have "addLanes (fst (ymm_abs st)) (snd (ymm_abs st)) = vpaddq (Y8 st) (Y10 st) @ vpaddq (Y9 st) (Y11 st)"
    using avxMerge_eq [OF ok] by (simp add: avxMerge_def)
  moreover have "length (vpaddq (Y8 st) (Y10 st)) = 4" "length (vpaddq (Y9 st) (Y11 st)) = 4"
    using ok by (simp_all add: vpaddq_def ymm_ok_def)
  ultimately show ?thesis
    by (auto simp: avxOver_def allOver_def Let_def test)
qed

lemma blkDistAVX2_eq:
  assumes "query_ok q" "block_ok v b"
  shows "blkDistAVX2 v b q = blkDist_go v b q"
  using avxLoop_pairLoop [OF assms, of "[0, 1, 2, 3, 4, 5, 6, 7]" ymm0] ymm0_abs
  by (auto simp: blkDistAVX2_def blkDist_go_def upt_8 mult.assoc avxMerge_eq simp del: avxLoop.simps pairLoop.simps)

lemma pruneLoop_split:
  "pruneLoop v base q thr [0..<8] acc =
     do { acc2 \<leftarrow> pairLoop v base q [0, 1, 2] acc;
          if allOver acc2 thr then Some (Inl ())
          else do { acc4 \<leftarrow> pairLoop v base q [3, 4] acc2;
                    if allOver acc4 thr then Some (Inl ())
                    else map_option Inr (pairLoop v base q [5, 6, 7] acc4) } }"
  by (simp add: upt_8 bind_assoc)  (auto simp: bind_eq_Some_conv split: Option.bind_split)

lemma blkDistPruneAVX2_eq:
  assumes "query_ok q" "block_ok v b"
  shows "blkDistPruneAVX2 v b q thr = blkDistPrune_go v b q thr"
proof -
  obtain st2 where 2: "avxLoop v (b * 128) q [0, 1, 2] ymm0 = Some st2" "ymm_ok st2"
      "pairLoop v (b * 128) q [0, 1, 2] (zeroLanes, zeroLanes) = Some (ymm_abs st2)"
    using avxLoop_pairLoop [OF assms, of "[0, 1, 2]" ymm0] ymm0_abs by auto
  obtain st4 where 4: "avxLoop v (b * 128) q [3, 4] st2 = Some st4" "ymm_ok st4"
      "pairLoop v (b * 128) q [3, 4] (ymm_abs st2) = Some (ymm_abs st4)"
    using avxLoop_pairLoop [OF assms, of "[3, 4]" st2] 2(2) by auto
  obtain st where 7: "avxLoop v (b * 128) q [5, 6, 7] st4 = Some st" "ymm_ok st"
      "pairLoop v (b * 128) q [5, 6, 7] (ymm_abs st4) = Some (ymm_abs st)"
    using avxLoop_pairLoop [OF assms, of "[5, 6, 7]" st4] 4(2) by auto
  show ?thesis
    unfolding blkDistPruneAVX2_def blkDistPrune_go_def pruneLoop_split
    using 2 4 7 by (simp add: mult.assoc avxMerge_eq avxOver_eq del: avxLoop.simps pairLoop.simps)
qed


lemma bbox_lanes:
  assumes "\<And>i. i < 16 \<Longrightarrow> - 10000 \<le> fq i \<and> fq i \<le> 10000"
    and "\<And>i. i < 16 \<Longrightarrow> - 10000 \<le> lo i \<and> lo i \<le> hi i \<and> hi i \<le> 10000"
  shows "bboxLowerBoundAVX2 (map lo [0..<16]) (map hi [0..<16]) (map fq [0..<16])
    = (\<Sum>i<16. (bbox_gap (fq i) (lo i) (hi i)) ^ 2)"
proof -
  define g where "g i = bbox_gap (fq i) (lo i) (hi i)" for i
  define t where "t p = (g (2 * p)) ^ 2 + (g (2 * p + 1)) ^ 2" for p
  have gb: "\<bar>g i\<bar> \<le> 20000" if "i < 16" for i
    using assms(1,2) [OF that] gap_eq(2,3) [of "fq i" "lo i" "hi i"] by (simp add: g_def)
  have tb: "0 \<le> t p \<and> t p \<le> 800000000" if "p < 8" for p
    using sq_bound [OF gb [of "2 * p"]] sq_bound [OF gb [of "2 * p + 1"]] that by (simp add: t_def)
  have lanes: "vpmaxsw (vpmaxsw (vpsubw (map lo [0..<16]) (map fq [0..<16])) (replicate 16 0))
       (vpmaxsw (vpsubw (map fq [0..<16]) (map hi [0..<16])) (replicate 16 0)) = map g [0..<16]"
  proof (rule nth_equalityI)
    fix i assume "i < length (vpmaxsw (vpmaxsw (vpsubw (map lo [0..<16]) (map fq [0..<16])) (replicate 16 0))
       (vpmaxsw (vpsubw (map fq [0..<16]) (map hi [0..<16])) (replicate 16 0)))"
    then have i: "i < 16" by (simp add: vpmaxsw_def vpsubw_def)
    have "wrap16 (lo i - fq i) = lo i - fq i" "wrap16 (fq i - hi i) = fq i - hi i"
      using assms(1,2) [OF i] by (auto intro!: wrap16_id)
    then show "vpmaxsw (vpmaxsw (vpsubw (map lo [0..<16]) (map fq [0..<16])) (replicate 16 0))
       (vpmaxsw (vpsubw (map fq [0..<16]) (map hi [0..<16])) (replicate 16 0)) ! i = map g [0..<16] ! i"
      using i by (simp add: vpmaxsw_def vpsubw_def g_def bbox_gap_def)
  qed (simp add: vpmaxsw_def vpsubw_def)
  have w: "wrap32 (g i * g i + g j * g j) = (g i) ^ 2 + (g j) ^ 2" if "i < 16" "j < 16" for i j
    using wrap_pair [OF gb [OF that(1)] gb [OF that(2)]] gb [OF that(1)] gb [OF that(2)] by (simp add: wrap16_id)
  have madd: "vpmaddwd (map g [0..<16]) (map g [0..<16]) = [t 0, t 1, t 2, t 3, t 4, t 5, t 6, t 7]"
    unfolding upt_16 by (simp add: w t_def)
  have b: "wrap64 x = x" if "0 \<le> x" "x \<le> 6400000000" for x
    by (rule wrap64_id) (use that in linarith)+
  have "bboxLowerBoundAVX2 (map lo [0..<16]) (map hi [0..<16]) (map fq [0..<16])
      = t 0 + t 4 + (t 2 + t 6) + (t 1 + t 5 + (t 3 + t 7))"
    unfolding bboxLowerBoundAVX2_def Let_def lanes madd
    using tb [of 0] tb [of 1] tb [of 2] tb [of 3] tb [of 4] tb [of 5] tb [of 6] tb [of 7]
    by (simp add: vpaddq_def b)
  also have "\<dots> = (\<Sum>p<8. t p)" by (simp add: eval_nat_numeral)
  also have "\<dots> = (\<Sum>i<16. (g i) ^ 2)"
    using sum_pairs [of "\<lambda>i. (g i) ^ 2" 8] by (simp add: t_def)
  finally show ?thesis by (simp add: g_def)
qed

lemma vmovdqu_16: "i + 16 \<le> length mem \<Longrightarrow> vmovdqu mem i = Some (map (\<lambda>j. mem ! (i + j)) [0..<16])"
  by (simp add: vmovdqu_def take_drop_map)

lemma bboxLowerBoundFast_amd64_spec:
  assumes "query_ok q" "bbox_ok ix c"
  shows "bboxLowerBoundFast_amd64 q ix c = Some (bboxDist q ix c)"
proof -
  have q: "length q = 16" "\<And>i. i < 16 \<Longrightarrow> - 10000 \<le> q ! i \<and> q ! i \<le> 10000"
    using assms(1) in_rangeD [of q] by (auto simp: query_ok_def)
  show ?thesis
    using assms(2) q bbox_lanes [of "\<lambda>j. q ! j" "\<lambda>j. BBoxMin ix ! (c * 16 + j)" "\<lambda>j. BBoxMax ix ! (c * 16 + j)"]
    by (simp add: bboxLowerBoundFast_amd64_def vmovdqu_16 bbox_ok_def bboxDist_def Let_def)
qed

section \<open>The contract\<close>

text \<open>What the search relies on: exact squared distances on quantized data, pruning only when every
  lane is at or above the threshold, and the squared distance to the bounding box.\<close>

locale kernel_spec =
  fixes kern :: kernel
  assumes blkDist_exact: "query_ok q \<Longrightarrow> block_ok v b \<Longrightarrow> blkDist kern v b q = Some (blockDists v b q)"
    and prune_sound: "query_ok q \<Longrightarrow> block_ok v b \<Longrightarrow>
      \<exists>r. blkDistPrune kern v b q threshold = Some r \<and> prune_result (blockDists v b q) threshold r"
    and bbox_exact: "query_ok q \<Longrightarrow> bbox_ok ix c \<Longrightarrow> bboxLowerBoundFast kern q ix c = Some (bboxDist q ix c)"

interpretation portable: kernel_spec portable
  by unfold_locales
    (simp_all add: portable_def blkDist_go_spec blkDistPrune_go_spec bboxLowerBound_spec del: split_paired_Ex)

interpretation avx2: kernel_spec amd64
  by unfold_locales
    (simp_all add: amd64_def blkDistAVX2_eq blkDistPruneAVX2_eq blkDist_go_spec blkDistPrune_go_spec
      bboxLowerBoundFast_amd64_spec del: split_paired_Ex)

lemma bbox_gap_le: "lo \<le> x \<Longrightarrow> x \<le> hi \<Longrightarrow> bbox_gap a lo hi ^ 2 \<le> (a - x) ^ 2"
proof -
  assume "lo \<le> x" "x \<le> hi"
  then have "\<bar>bbox_gap a lo hi\<bar> \<le> \<bar>a - x\<bar>" by (auto simp: bbox_gap_def)
  then show ?thesis by (simp only: abs_le_square_iff)
qed

text \<open>The bounding box is a lower bound of the distance to every vector inside it.\<close>

lemma bboxDist_le_sqdist:
  assumes "\<And>i. i < 16 \<Longrightarrow> BBoxMin ix ! (c * 16 + i) \<le> x ! i \<and> x ! i \<le> BBoxMax ix ! (c * 16 + i)"
  shows "bboxDist q ix c \<le> sqdist q x"
  unfolding bboxDist_def sqdist_def by (rule sum_mono) (use assms in \<open>auto intro!: bbox_gap_le\<close>)

section \<open>Packed blocks\<close>

text \<open>The block format: eight rows of sixteen values, pair by pair.\<close>

definition pack_rows :: "int list list \<Rightarrow> int list" where
  "pack_rows vs = concat (map (\<lambda>p. concat (map (\<lambda>v. [v ! (2 * p), v ! (2 * p + 1)]) vs)) [0..<8])"

definition pack_blocks :: "int list list list \<Rightarrow> int list" where
  "pack_blocks blks = concat (map pack_rows blks)"

definition rows_ok :: "int list list \<Rightarrow> bool" where
  "rows_ok vs \<longleftrightarrow> length vs = 8 \<and> (\<forall>v \<in> set vs. length v = 16 \<and> in_range v)"

lemma length_pair_chunk: "length (concat (map (\<lambda>v. [f v, g v]) vs)) = length vs * 2"
  by (rule length_concat_chunks) simp

lemma length_pack_rows [simp]: "length vs = 8 \<Longrightarrow> length (pack_rows vs) = 128"
  unfolding pack_rows_def by (subst length_concat_chunks [where m = 16]) (simp_all add: length_pair_chunk)

lemma nth_pack_rows:
  assumes "length vs = 8" "p < 8" "l < 8" "j < 2"
  shows "pack_rows vs ! (p * 16 + (l * 2 + j)) = vs ! l ! (2 * p + j)"
proof -
  let ?f = "\<lambda>p. concat (map (\<lambda>v. [v ! (2 * p), v ! (2 * p + 1)]) vs)"
  have "pack_rows vs ! (p * 16 + (l * 2 + j)) = ?f ([0..<8] ! p) ! (l * 2 + j)"
    unfolding pack_rows_def using assms by (intro nth_concat_chunks) (simp_all add: length_pair_chunk)
  also have "\<dots> = [vs ! l ! (2 * p), vs ! l ! (2 * p + 1)] ! j"
    using assms nth_concat_chunks [of vs "\<lambda>v. [v ! (2 * p), v ! (2 * p + 1)]" 2 l j] by simp
  also have "\<dots> = vs ! l ! (2 * p + j)"
    using assms(4) by (cases j) (simp_all add: less_Suc_eq numeral_2_eq_2)
  finally show ?thesis .
qed

lemma vecOf_pack:
  assumes "\<And>vs. vs \<in> set blks \<Longrightarrow> rows_ok vs" "b < length blks" "l < 8"
  shows "vecOf (pack_blocks blks) b l = blks ! b ! l"
proof (rule nth_equalityI)
  have ok: "rows_ok (blks ! b)" using assms(1,2) by simp
  then have len: "length (blks ! b) = 8" "length (blks ! b ! l) = 16" using assms(3) by (auto simp: rows_ok_def)
  then show "length (vecOf (pack_blocks blks) b l) = length (blks ! b ! l)" by (simp add: vecOf_def)
  fix i assume "i < length (vecOf (pack_blocks blks) b l)"
  then have i: "i < 16" by (simp add: vecOf_def)
  let ?k = "i div 2 * 16 + (l * 2 + i mod 2)"
  have "i div 2 < 8" "i mod 2 < 2" using i by simp_all
  then have "?k < 128" using assms(3) by linarith
  then have "pack_blocks blks ! (b * 128 + ?k) = pack_rows (blks ! b) ! ?k"
    unfolding pack_blocks_def using assms(1,2) by (intro nth_concat_chunks) (auto simp: rows_ok_def)
  also have "\<dots> = blks ! b ! l ! i" using len(1) i assms(3) by (subst nth_pack_rows) auto
  finally show "vecOf (pack_blocks blks) b l ! i = blks ! b ! l ! i"
    using i by (simp add: nth_vecOf add.assoc)
qed

lemma pack_blocks_ok:
  assumes "\<And>vs. vs \<in> set blks \<Longrightarrow> rows_ok vs"
  shows "length (pack_blocks blks) = length blks * 128" "in_range (pack_blocks blks)"
proof -
  show "length (pack_blocks blks) = length blks * 128"
    unfolding pack_blocks_def by (rule length_concat_chunks) (use assms in \<open>simp add: rows_ok_def\<close>)
  have "- 10000 \<le> v ! i \<and> v ! i \<le> 10000" if "vs \<in> set blks" "v \<in> set vs" "i < 16" for vs v i
    using assms [OF that(1)] that(2,3) by (auto simp: rows_ok_def intro!: in_rangeD)
  then show "in_range (pack_blocks blks)"
    by (auto simp: in_range_def pack_blocks_def pack_rows_def)
qed

section \<open>Properties\<close>

text \<open>(C11) On quantized data (every value within \<open>QuantMax\<close>) the AVX2 routines and the portable
  Go routines return the same values: the 16-bit differences, 32-bit pair sums and 64-bit
  accumulators of the vector code never wrap. In particular both prune the same blocks.\<close>

theorem kernels_agree:
  assumes "query_ok q" "block_ok v b" "bbox_ok ix c"
  shows "blkDistAVX2 v b q = blkDist_go v b q \<and>
    blkDistPruneAVX2 v b q threshold = blkDistPrune_go v b q threshold \<and>
    bboxLowerBoundFast_amd64 q ix c = bboxLowerBound q ix c"
  using assms
  by (simp_all add: blkDistAVX2_eq blkDistPruneAVX2_eq bboxLowerBoundFast_amd64_spec bboxLowerBound_spec)

text \<open>The distance kernel is exact: for each of the eight lanes of a block it returns the
  Euclidean squared distance between the query and the vector stored in that lane, in both
  builds.\<close>

theorem blkDist_is_distance:
  assumes "query_ok q" "block_ok v b"
  shows "blkDist portable v b q = Some (map (\<lambda>l. sqdist q (vecOf v b l)) [0..<8]) \<and>
    blkDist amd64 v b q = Some (map (\<lambda>l. sqdist q (vecOf v b l)) [0..<8])"
  using portable.blkDist_exact [OF assms] avx2.blkDist_exact [OF assms] by (simp add: blockDists_def)

text \<open>Pruning is sound: when \<open>blkDistPrune\<close> reports a block as pruned, every lane of the
  block is at a distance of at least the threshold; when it does not, it returns the exact
  distances.\<close>

theorem blkDistPrune_sound:
  assumes "query_ok q" "block_ok v b"
  shows "\<exists>ds pruned. blkDistPrune amd64 v b q threshold = Some (ds, pruned) \<and>
    (if pruned then \<forall>l<8. threshold \<le> sqdist q (vecOf v b l)
     else ds = map (\<lambda>l. sqdist q (vecOf v b l)) [0..<8])"
proof -
  obtain ds pruned where "blkDistPrune amd64 v b q threshold = Some (ds, pruned)"
    "prune_result (blockDists v b q) threshold (ds, pruned)"
    using avx2.prune_sound [OF assms, of threshold] by auto
  then show ?thesis
    by (intro exI [of _ ds] exI [of _ pruned]) (cases pruned, simp_all add: prune_result_def blockDists_def)
qed

definition q_ex :: "int list" where
  "q_ex = [10, 20, 30, 40, 50, 60, 70, 80, 90, 100, 110, 120, 130, 140, 0, 0]"

definition v_ex :: "int list" where
  "v_ex = replicate 128 10"

lemma query_ok_ex: "query_ok q_ex"
  by (simp add: query_ok_def q_ex_def in_range_def)

lemma block_ok_ex: "block_ok v_ex 0"
  by (simp add: block_ok_def v_ex_def in_range_def)

definition ix_box :: Index where
  "ix_box = \<lparr>mmap = None, Hdr = \<lparr>hMagic = 0, hVersion = 0, hK = 1, hN = 8, hNBlocks = 1, hScale = 0\<rparr>,
     Centroids = v_ex, NCentroidBlk = 1, BBoxMin = replicate 16 5, BBoxMax = replicate 16 15,
     BlockOffsets = [0, 1], Counts = [8], Vectors = v_ex, Labels = replicate 8 0,
     IxK = 1, IxN = 8, IxNBlocks = 1\<rparr>"

lemma bbox_ok_ex: "bbox_ok ix_box 0"
  by (simp add: bbox_ok_def ix_box_def)

theorem kernels_agree_witness:
  "blkDistAVX2 v_ex 0 q_ex = blkDist_go v_ex 0 q_ex \<and>
   bboxLowerBoundFast_amd64 q_ex ix_box 0 = bboxLowerBound q_ex ix_box 0"
  using kernels_agree [OF query_ok_ex block_ok_ex bbox_ok_ex] by simp

theorem blkDist_is_distance_witness:
  "blkDist amd64 v_ex 0 q_ex = Some (map (\<lambda>l. sqdist q_ex (vecOf v_ex 0 l)) [0..<8])"
  using blkDist_is_distance [OF query_ok_ex block_ok_ex] by simp

theorem blkDistPrune_sound_witness:
  "\<exists>ds pruned. blkDistPrune amd64 v_ex 0 q_ex 7 = Some (ds, pruned) \<and>
    (if pruned then \<forall>l<8. 7 \<le> sqdist q_ex (vecOf v_ex 0 l)
     else ds = map (\<lambda>l. sqdist q_ex (vecOf v_ex 0 l)) [0..<8])"
  using blkDistPrune_sound [OF query_ok_ex block_ok_ex] by simp

end
