(* ===== verification/Best.thy ===== *)
theory Best
  imports Index
begin

text \<open>
  The five best candidates kept by the search (\<open>bestD\<close>, \<open>bestL\<close> and \<open>insertBest\<close> in
  \<open>internal/knn/knn.go\<close>), and what they are: the first five entries of the stable sort of all
  candidates offered so far. The specification \<open>topk\<close> inserts every candidate; that a
  candidate at or above the current fifth distance changes nothing is what makes the pruning of
  the search exact.
\<close>

section \<open>The code\<close>

definition maxI64 :: int where
  "maxI64 = 9223372036854775807"

record best =
  bestD :: "int list"
  bestL :: "nat list"

definition best0 :: best where
  "best0 = \<lparr>bestD = replicate TopK maxI64, bestL = replicate TopK 0\<rparr>"

primrec shiftInsert :: "nat \<Rightarrow> int \<Rightarrow> nat \<Rightarrow> best \<Rightarrow> best" where
  "shiftInsert 0 d label b = b\<lparr>bestD := (bestD b)[0 := d], bestL := (bestL b)[0 := label]\<rparr>"
| "shiftInsert (Suc p) d label b =
     (if d < bestD b ! p
      then shiftInsert p d label
             (b\<lparr>bestD := (bestD b)[Suc p := bestD b ! p], bestL := (bestL b)[Suc p := bestL b ! p]\<rparr>)
      else b\<lparr>bestD := (bestD b)[Suc p := d], bestL := (bestL b)[Suc p := label]\<rparr>)"

definition insertBest :: "int \<Rightarrow> nat \<Rightarrow> best \<Rightarrow> best" where
  "insertBest d label b =
     (if d \<ge> bestD b ! (TopK - 1) then b else shiftInsert (TopK - 1) d label b)"

definition countFrauds :: "best \<Rightarrow> nat" where
  "countFrauds b = foldl (\<lambda>f l. u32 (f + l)) 0 (bestL b)"

section \<open>Stable insertion\<close>

type_synonym cand = "int \<times> nat"

fun ins :: "cand \<Rightarrow> cand list \<Rightarrow> cand list" where
  "ins x [] = [x]"
| "ins x (y # ys) = (if fst x < fst y then x # y # ys else y # ins x ys)"

abbreviation (input) sorted_cands :: "cand list \<Rightarrow> bool" where
  "sorted_cands P \<equiv> sorted (map fst P)"

lemma length_ins [simp]: "length (ins x P) = Suc (length P)"
  by (induction P) auto

lemma mset_ins [simp]: "mset (ins x P) = add_mset x (mset P)"
  by (induction P) auto

lemma set_ins [simp]: "set (ins x P) = insert x (set P)"
  by (metis mset_ins set_mset_add_mset_insert set_mset_mset)

lemma sorted_ins: "sorted_cands P \<Longrightarrow> sorted_cands (ins x P)"
  by (induction P) fastforce+

lemma ins_last: "(\<And>y. y \<in> set P \<Longrightarrow> fst y \<le> fst x) \<Longrightarrow> ins x P = P @ [x]"
  by (induction P) (auto simp: leD)

lemma ins_append_greater: "fst x < fst y \<Longrightarrow> ins x (P @ [y]) = ins x P @ [y]"
  by (induction P) auto

lemma take_ins: "take n (ins x (take n P)) = take n (ins x P)"
proof (induction P arbitrary: n)
  case (Cons y P)
  then show ?case by (cases n) (auto simp: take_Cons split: nat.split)
qed simp

lemma filter_ins:
  "sorted_cands P \<Longrightarrow> filter (\<lambda>z. k = fst z) (ins x P) = filter (\<lambda>z. k = fst z) P @ (if k = fst x then [x] else [])"
proof (induction P)
  case (Cons y P)
  show ?case
  proof (cases "fst x < fst y")
    case True
    then have "k = fst x \<Longrightarrow> filter (\<lambda>z. k = fst z) (y # P) = []"
      using Cons.prems by (auto simp: filter_empty_conv)
    then show ?thesis using True by auto
  qed (use Cons in auto)
qed simp

lemma sort_key_stable_eq: "filter (\<lambda>z. k = fst z) (sort_key fst xs) = filter (\<lambda>z. k = fst z) xs"
  using sort_key_stable [of fst k xs] by (simp add: eq_commute [of k])

lemma ins_sort_key: "ins x (sort_key fst xs) = sort_key fst (xs @ [x])"
proof (rule properties_for_sort_key [symmetric])
  fix k assume "k \<in> set (ins x (sort_key fst xs))"
  show "filter (\<lambda>z. fst k = fst z) (ins x (sort_key fst xs)) = filter (\<lambda>z. fst k = fst z) (xs @ [x])"
    by (simp add: filter_ins sort_key_stable_eq)
qed (simp_all add: sorted_ins)

section \<open>The specification of the best five\<close>

definition topk :: "cand list \<Rightarrow> cand list \<Rightarrow> cand list" where
  "topk P xs = foldl (\<lambda>P x. take TopK (ins x P)) P xs"

definition sentinels :: "cand list" where
  "sentinels = replicate TopK (maxI64, 0)"

definition best_five :: "cand list \<Rightarrow> cand list" where
  "best_five xs = take TopK (sort_key fst (sentinels @ xs))"

lemma topk_Nil [simp]: "topk P [] = P"
  by (simp add: topk_def)

lemma topk_Cons [simp]: "topk P (x # xs) = topk (take TopK (ins x P)) xs"
  by (simp add: topk_def)

lemma topk_append: "topk P (xs @ ys) = topk (topk P xs) ys"
  by (simp add: topk_def)

lemma best_five_Nil: "best_five [] = sentinels"
  by (simp add: best_five_def sentinels_def eval_nat_numeral)

lemma topk_best_five: "topk (best_five xs) ys = best_five (xs @ ys)"
proof (induction ys arbitrary: xs)
  case (Cons y ys)
  have "take 5 (ins y (best_five xs)) = best_five (xs @ [y])"
    unfolding best_five_def take_ins ins_sort_key by simp
  then show ?case using Cons.IH [of "xs @ [y]"] by simp
qed simp


lemma sorted_best_five: "sorted_cands (best_five xs)"
  by (simp add: best_five_def sorted_wrt_take flip: take_map)

lemma length_best_five [simp]: "length (best_five xs) = 5"
  by (simp add: best_five_def sentinels_def)

text \<open>Candidates at or above the fifth distance change nothing: pruning is exact.\<close>

lemma take_ins_skip:
  assumes "sorted_cands P" "length P = 5" "fst (P ! 4) \<le> fst x"
  shows "take 5 (ins x P) = P"
proof -
  have "fst y \<le> fst x" if "y \<in> set P" for y
  proof -
    from that obtain i where i: "i < 5" "P ! i = y" using assms(2) by (auto simp: in_set_conv_nth)
    then have "map fst P ! i \<le> map fst P ! 4"
      using assms(1,2) by (intro sorted_nth_mono) auto
    then show ?thesis using i assms(2,3) by simp
  qed
  then show ?thesis using assms(2) by (simp add: ins_last)
qed

lemma topk_skip:
  assumes "sorted_cands P" "length P = 5" "\<forall>x \<in> set xs. fst (P ! 4) \<le> fst x"
  shows "topk P xs = P"
  using assms(3) by (induction xs) (simp_all add: take_ins_skip [OF assms(1,2)])

section \<open>The code implements the specification\<close>

definition pairs :: "best \<Rightarrow> cand list" where
  "pairs b = zip (bestD b) (bestL b)"

definition best_ok :: "best \<Rightarrow> bool" where
  "best_ok b \<longleftrightarrow> length (bestD b) = 5 \<and> length (bestL b) = 5 \<and> sorted (bestD b)"

lemma best_ok_pairs: "best_ok b \<Longrightarrow> length (pairs b) = 5 \<and> map fst (pairs b) = bestD b \<and> map snd (pairs b) = bestL b"
  by (simp add: best_ok_def pairs_def)

lemma best_ok_fifth: "best_ok b \<Longrightarrow> fst (pairs b ! 4) = bestD b ! 4"
  by (simp add: best_ok_def pairs_def)

lemma length_shiftInsert [simp]:
  "length (bestD (shiftInsert p d l b)) = length (bestD b)" "length (bestL (shiftInsert p d l b)) = length (bestL b)"
  by (induction p arbitrary: b) simp_all

lemma pairs_update:
  "pairs (b\<lparr>bestD := (bestD b)[i := d], bestL := (bestL b)[i := l]\<rparr>) = (pairs b)[i := (d, l)]"
  by (simp add: pairs_def update_zip)

lemma nth_pairs: "i < length (bestD b) \<Longrightarrow> length (bestL b) = length (bestD b) \<Longrightarrow> pairs b ! i = (bestD b ! i, bestL b ! i)"
  by (simp add: pairs_def)

lemma pairs_shiftInsert:
  assumes "length (bestL b) = length (bestD b)" "p < length (bestD b)" "sorted (take (Suc p) (bestD b))"
  shows "pairs (shiftInsert p d l b) = ins (d, l) (take p (pairs b)) @ drop (Suc p) (pairs b)"
  using assms
proof (induction p arbitrary: b)
  case 0
  then have "pairs b \<noteq> []" by (auto simp: pairs_def zip_eq_Nil_iff)
  then show ?case by (cases "pairs b") (simp_all add: pairs_update)
next
  case (Suc p)
  have len: "Suc p < length (pairs b)" using Suc.prems by (simp add: pairs_def)
  have nth: "pairs b ! p = (bestD b ! p, bestL b ! p)" using Suc.prems by (simp add: nth_pairs)
  have tk: "take (Suc p) (pairs b) = take p (pairs b) @ [pairs b ! p]" using len by (simp add: take_Suc_conv_app_nth)
  show ?case
  proof (cases "d < bestD b ! p")
    case True
    let ?b = "b\<lparr>bestD := (bestD b)[Suc p := bestD b ! p], bestL := (bestL b)[Suc p := bestL b ! p]\<rparr>"
    have b: "pairs ?b = (pairs b)[Suc p := pairs b ! p]" by (simp add: pairs_update nth)
    have "pairs (shiftInsert p d l ?b) = ins (d, l) (take p (pairs ?b)) @ drop (Suc p) (pairs ?b)"
      using Suc.prems sorted_wrt_take [OF Suc.prems(3), of "Suc p"] by (intro Suc.IH) (simp_all add: min_def)
    also have "\<dots> = ins (d, l) (take p (pairs b)) @ pairs b ! p # drop (Suc (Suc p)) (pairs b)"
      unfolding b using len by (simp add: drop_update_swap Cons_nth_drop_Suc [symmetric])
    also have "\<dots> = ins (d, l) (take (Suc p) (pairs b)) @ drop (Suc (Suc p)) (pairs b)"
      using True by (simp add: tk ins_append_greater nth)
    finally show ?thesis using True by simp
  next
    case False
    have "fst y \<le> d" if y: "y \<in> set (take (Suc p) (pairs b))" for y
    proof -
      from y obtain i where i: "i \<le> p" "y = pairs b ! i"
        using len by (auto simp: in_set_conv_nth less_Suc_eq_le)
      have "bestD b ! i \<le> bestD b ! p"
        using sorted_nth_mono [OF Suc.prems(3), of i p] i Suc.prems by simp
      then show ?thesis using False i Suc.prems by (simp add: nth_pairs)
    qed
    then have "ins (d, l) (take (Suc p) (pairs b)) = take (Suc p) (pairs b) @ [(d, l)]"
      by (intro ins_last) simp
    then show ?thesis using False len by (simp add: pairs_update upd_conv_take_nth_drop)
  qed
qed

lemma insertBest_refines:
  assumes "best_ok b"
  shows "pairs (insertBest d l b) = take 5 (ins (d, l) (pairs b))"
proof (cases "d \<ge> bestD b ! 4")
  case True
  then show ?thesis
    using assms take_ins_skip [of "pairs b" "(d, l)"] best_ok_pairs [OF assms] best_ok_fifth [OF assms]
    by (simp add: insertBest_def best_ok_def)
next
  case False
  have P: "length (pairs b) = 5" "pairs b = take 4 (pairs b) @ [pairs b ! 4]"
    using best_ok_pairs [OF assms] take_Suc_conv_app_nth [of 4 "pairs b"] by simp_all
  have "pairs (insertBest d l b) = ins (d, l) (take 4 (pairs b))"
    using False assms pairs_shiftInsert [of b 4 d l] P(1) by (simp add: insertBest_def best_ok_def)
  moreover have "ins (d, l) (pairs b) = ins (d, l) (take 4 (pairs b)) @ [pairs b ! 4]"
    using False best_ok_fifth [OF assms] by (subst P(2)) (simp add: ins_append_greater)
  ultimately show ?thesis using P(1) by simp
qed

lemma best_ok_iff: "best_ok b \<longleftrightarrow> length (bestD b) = 5 \<and> length (bestL b) = 5 \<and> sorted_cands (pairs b)"
  by (auto simp: best_ok_def pairs_def)

lemma best_ok_insertBest: "best_ok b \<Longrightarrow> best_ok (insertBest d l b)"
  unfolding best_ok_iff [of "insertBest d l b"]
  by (simp add: insertBest_refines sorted_ins best_ok_iff sorted_wrt_take flip: take_map)
     (simp add: insertBest_def best_ok_iff)

lemma best_ok_best0: "best_ok best0" "pairs best0 = best_five []"
  by (simp_all add: best_ok_def best0_def pairs_def best_five_Nil sentinels_def)


section \<open>The vote does not depend on the order of the candidates\<close>

definition fifth :: "cand list \<Rightarrow> int" where
  "fifth xs = sort (map fst (sentinels @ xs)) ! 4"

text \<open>The candidates within the fifth smallest distance; at most five of them when there is no tie
  at the boundary.\<close>

definition within_fifth :: "cand list \<Rightarrow> cand list" where
  "within_fifth xs = filter (\<lambda>x. fst x \<le> fifth xs) xs"

definition vote :: "cand list \<Rightarrow> nat" where
  "vote xs = sum_list (map snd (within_fifth xs))"

lemma map_sort_key: "map f (sort_key f xs) = sort (map f xs)"
  by (rule properties_for_sort [symmetric]) simp_all

lemma fst_best_five: "map fst (best_five xs) = take 5 (sort (map fst (sentinels @ xs)))"
  unfolding best_five_def take_map [symmetric] map_sort_key by simp

lemma fifth_best_five: "fst (best_five xs ! 4) = fifth xs"
proof -
  have "fst (best_five xs ! 4) = map fst (best_five xs) ! 4" by simp
  then show ?thesis unfolding fst_best_five fifth_def by simp
qed

lemma fifth_perm: "mset xs = mset ys \<Longrightarrow> fifth xs = fifth ys"
proof -
  assume "mset xs = mset ys"
  then have "mset (map fst (sentinels @ xs)) = mset (map fst (sentinels @ ys))" by simp
  then have "sort (map fst (sentinels @ xs)) = sort (map fst (sentinels @ ys))"
    by (metis mset_sort properties_for_sort sorted_sort)
  then show ?thesis by (simp add: fifth_def)
qed

lemma vote_perm: "mset xs = mset ys \<Longrightarrow> vote xs = vote ys"
proof -
  assume p: "mset xs = mset ys"
  then have "mset (within_fifth xs) = mset (within_fifth ys)"
    by (simp add: within_fifth_def fifth_perm [OF p])
  then have "mset (map snd (within_fifth xs)) = mset (map snd (within_fifth ys))" by simp
  then show ?thesis unfolding vote_def by (metis sum_mset_sum_list)
qed

lemma sort_key_sentinels:
  assumes "\<forall>x \<in> set xs. fst x < maxI64"
  shows "sort_key fst (sentinels @ xs) = sort_key fst xs @ sentinels"
proof (rule properties_for_sort_key)
  fix k assume "k \<in> set (sort_key fst xs @ sentinels)"
  have "fst k = maxI64 \<Longrightarrow> filter (\<lambda>z. fst k = fst z) xs = []"
    using assms by (fastforce simp: filter_empty_conv)
  then show "filter (\<lambda>z. fst k = fst z) (sort_key fst xs @ sentinels) = filter (\<lambda>z. fst k = fst z) (sentinels @ xs)"
    by (cases "fst k = maxI64") (auto simp: sort_key_stable_eq sentinels_def)
qed (use assms in \<open>auto simp: sorted_append sentinels_def\<close>)

lemma sorted_take_filter:
  assumes "sorted_cands L" "n < length L" "length (filter (\<lambda>x. fst x \<le> fst (L ! n)) L) \<le> Suc n"
  shows "take (Suc n) L = filter (\<lambda>x. fst x \<le> fst (L ! n)) L"
proof -
  let ?P = "\<lambda>x. fst x \<le> fst (L ! n)"
  have all: "?P y" if "y \<in> set (take (Suc n) L)" for y
  proof -
    from that obtain i where i: "i \<le> n" "y = L ! i"
      using assms(2) by (auto simp: in_set_conv_nth less_Suc_eq_le)
    then show ?thesis
      using sorted_nth_mono [OF assms(1), of i n] assms(2) by simp
  qed
  have "filter ?P L = filter ?P (take (Suc n) L) @ filter ?P (drop (Suc n) L)"
    by (metis append_take_drop_id filter_append)
  also have "filter ?P (take (Suc n) L) = take (Suc n) L" using all by simp
  finally have f: "filter ?P L = take (Suc n) L @ filter ?P (drop (Suc n) L)" .
  then have "length (take (Suc n) L) + length (filter ?P (drop (Suc n) L)) \<le> Suc n"
    using assms(3) by (metis length_append)
  then have "filter ?P (drop (Suc n) L) = []" using assms(2) by simp
  then show ?thesis using f by simp
qed

lemma best_five_vote:
  assumes lt: "\<forall>x \<in> set xs. fst x < maxI64" and tie: "length (within_fifth xs) \<le> 5"
  shows "sum_list (map snd (best_five xs)) = vote xs"
proof (cases "fifth xs = maxI64")
  case True
  then have w: "within_fifth xs = xs" using lt by (simp add: within_fifth_def less_imp_le filter_id_conv)
  have "best_five xs = sort_key fst xs @ take (5 - length xs) sentinels"
    using tie w by (simp add: best_five_def sort_key_sentinels [OF lt])
  moreover have "sum_list (map snd (take n sentinels)) = 0" for n
    by (simp add: sentinels_def)
  moreover have "sum_list (map snd (sort_key fst xs)) = sum_list (map snd xs)"
    by (metis mset_map mset_sort sum_mset_sum_list)
  ultimately show ?thesis by (simp add: vote_def w)
next
  case False
  let ?L = "sort_key fst (sentinels @ xs)"
  have len: "length ?L = 5 + length xs" by (simp add: sentinels_def)
  have L4: "fst (?L ! 4) = fifth xs"
    using len unfolding fifth_def map_sort_key [symmetric] by simp
  have "fifth xs \<le> maxI64"
  proof -
    have "fifth xs \<in> set (map fst (sentinels @ xs))"
      unfolding fifth_def
      using nth_mem [of 4 "sort (map fst (sentinels @ xs))"] by (simp add: sentinels_def)
    then show ?thesis using lt by (auto simp: sentinels_def less_imp_le)
  qed
  with False have lt5: "fifth xs < maxI64" by simp
  have "mset (filter (\<lambda>x. fst x \<le> fifth xs) ?L) = mset (filter (\<lambda>x. fst x \<le> fifth xs) (sentinels @ xs))"
    by simp
  also have "filter (\<lambda>x. fst x \<le> fifth xs) (sentinels @ xs) = within_fifth xs"
    using lt5 by (simp add: within_fifth_def sentinels_def)
  finally have m: "mset (filter (\<lambda>x. fst x \<le> fifth xs) ?L) = mset (within_fifth xs)" .
  then have "length (filter (\<lambda>x. fst x \<le> fifth xs) ?L) \<le> 5"
    using tie by (metis size_mset)
  then have "best_five xs = filter (\<lambda>x. fst x \<le> fifth xs) ?L"
    using sorted_take_filter [of ?L 4] len by (simp add: best_five_def L4)
  then show ?thesis unfolding vote_def by (metis m mset_map sum_mset_sum_list)
qed

section \<open>Properties\<close>

lemma foldl_insertBest:
  "best_ok b \<Longrightarrow> best_ok (foldl (\<lambda>b (d, l). insertBest d l b) b xs) \<and>
     pairs (foldl (\<lambda>b (d, l). insertBest d l b) b xs) = topk (pairs b) xs"
proof (induction xs arbitrary: b)
  case (Cons x xs)
  obtain d l where x: "x = (d, l)" by force
  show ?case
    using Cons.IH [OF best_ok_insertBest [OF Cons.prems, of d l]] insertBest_refines [OF Cons.prems, of d l]
    by (simp add: x)
qed simp

text \<open>(C26) Refinement of the candidate buffer: offering a sequence of (distance, label) pairs to
  \<open>insertBest\<close> leaves in \<open>bestD\<close>/\<open>bestL\<close> exactly the first five entries of the
  stable sort by distance of the five initial sentinels followed by the sequence.\<close>

theorem insertBest_is_stable_sort:
  "pairs (foldl (\<lambda>b (d, l). insertBest d l b) best0 xs)
     = take 5 (sort_key fst (replicate 5 (maxI64, 0) @ xs))"
  using foldl_insertBest [OF best_ok_best0(1), of xs] topk_best_five [of "[]" xs] best_ok_best0(2)
  by (simp add: best_five_def sentinels_def)

end
