(* ===== verification/Probes.thy ===== *)
theory Probes
  imports Index
begin

text \<open>
  The probe list of the search (\<open>insertProbe\<close>, \<open>heapSiftUp\<close>, \<open>heapSiftDown\<close>,
  \<open>heapToSorted\<close> in \<open>internal/knn/knn.go\<close>): a max-heap in a fixed array that keeps the
  \<open>MaxProbes\<close> clusters whose centroids are nearest to the query, sorted in place at the end.
  The contract of such a bounded queue is the locale \<open>bounded_queue\<close>; the array heap
  interprets it.
\<close>

section \<open>The code\<close>

record Probe =
  Cluster :: nat
  Dist :: int

definition maxU32 :: nat where
  "maxU32 = 0xFFFFFFFF"

definition swap :: "'a list \<Rightarrow> nat \<Rightarrow> nat \<Rightarrow> 'a list" where
  "swap xs i j = xs[i := xs ! j, j := xs ! i]"

fun heapSiftUp :: "Probe list \<Rightarrow> nat \<Rightarrow> Probe list" where
  "heapSiftUp heap i =
     (if i > 0 then
        let parent = (i - 1) div 2
        in if Dist (heap ! i) > Dist (heap ! parent) then heapSiftUp (swap heap i parent) parent else heap
      else heap)"

declare heapSiftUp.simps [simp del]

definition largestChild :: "Probe list \<Rightarrow> nat \<Rightarrow> nat \<Rightarrow> nat" where
  "largestChild heap i sz =
     (let left = 2 * i + 1; right = 2 * i + 2;
          l1 = (if left < sz \<and> Dist (heap ! left) > Dist (heap ! i) then left else i)
      in if right < sz \<and> Dist (heap ! right) > Dist (heap ! l1) then right else l1)"

function heapSiftDown :: "Probe list \<Rightarrow> nat \<Rightarrow> nat \<Rightarrow> Probe list" where
  "heapSiftDown heap i sz =
     (let largest = largestChild heap i sz
      in if largest = i then heap else heapSiftDown (swap heap i largest) largest sz)"
  by pat_completeness auto
termination
  by (relation "measure (\<lambda>(heap, i, sz). sz - i)") (auto simp: largestChild_def Let_def split: if_splits)

declare heapSiftDown.simps [simp del]

fun heapToSorted :: "Probe list \<Rightarrow> nat \<Rightarrow> Probe list" where
  "heapToSorted probes n =
     (if n > 1 then heapToSorted (heapSiftDown (swap probes 0 (n - 1)) 0 (n - 1)) (n - 1) else probes)"

declare heapToSorted.simps [simp del]

definition insertProbe :: "Probe list \<times> nat \<Rightarrow> nat \<Rightarrow> int \<Rightarrow> Probe list \<times> nat" where
  "insertProbe st cluster d =
     (let probes = fst st; count = snd st; p = \<lparr>Cluster = cluster, Dist = d\<rparr>
      in if count < MaxProbes then (heapSiftUp (probes[count := p]) count, count + 1)
         else if d \<ge> Dist (probes ! 0) then st
         else (heapSiftDown (probes[0 := p]) 0 MaxProbes, count))"

definition probes0 :: "Probe list \<times> nat" where
  "probes0 = (replicate MaxProbes \<lparr>Cluster = maxU32, Dist = 9223372036854775807\<rparr>, 0)"

section \<open>Sifting\<close>

abbreviation (input) par :: "nat \<Rightarrow> nat" where
  "par i \<equiv> (i - 1) div 2"

definition is_heap :: "Probe list \<Rightarrow> nat \<Rightarrow> bool" where
  "is_heap h n \<longleftrightarrow> (\<forall>j<n. 0 < j \<longrightarrow> Dist (h ! j) \<le> Dist (h ! par j))"

definition up_inv :: "Probe list \<Rightarrow> nat \<Rightarrow> nat \<Rightarrow> bool" where
  "up_inv h n i \<longleftrightarrow> (\<forall>j<n. 0 < j \<longrightarrow> j \<noteq> i \<longrightarrow> Dist (h ! j) \<le> Dist (h ! par j)) \<and>
     (\<forall>j<n. 0 < j \<longrightarrow> par j = i \<longrightarrow> 0 < i \<longrightarrow> Dist (h ! j) \<le> Dist (h ! par i))"

definition down_inv :: "Probe list \<Rightarrow> nat \<Rightarrow> nat \<Rightarrow> bool" where
  "down_inv h n i \<longleftrightarrow> (\<forall>j<n. 0 < j \<longrightarrow> par j \<noteq> i \<longrightarrow> Dist (h ! j) \<le> Dist (h ! par j)) \<and>
     (\<forall>j<n. 0 < j \<longrightarrow> par j = i \<longrightarrow> 0 < i \<longrightarrow> Dist (h ! j) \<le> Dist (h ! par i))"

lemma length_swap [simp]: "length (swap xs i j) = length xs"
  by (simp add: swap_def)

lemma nth_swap:
  "i < length xs \<Longrightarrow> j < length xs \<Longrightarrow> k < length xs \<Longrightarrow>
     swap xs i j ! k = (if k = i then xs ! j else if k = j then xs ! i else xs ! k)"
  by (auto simp: swap_def nth_list_update)

lemma par_less: "0 < i \<Longrightarrow> par i < i"
  by simp

lemma up_inv_step:
  assumes "up_inv h n i" "0 < i" "i < n" "n \<le> length h" "p = par i" "Dist (h ! i) > Dist (h ! p)"
  shows "up_inv (swap h i p) n p"
proof -
  have p: "p < i" "p < n" using assms(2,3,5) by auto
  have nth: "swap h i p ! k = (if k = i then h ! p else if k = p then h ! i else h ! k)" if "k < n" for k
    using that assms(3,4) p by (intro nth_swap) auto
  have A: "Dist (h ! j) \<le> Dist (h ! par j)" if "j < n" "0 < j" "j \<noteq> i" for j
    using assms(1) that by (simp add: up_inv_def)
  have B: "Dist (h ! j) \<le> Dist (h ! p)" if "j < n" "0 < j" "par j = i" for j
    using assms(1,2,5) that by (simp add: up_inv_def)
  have pj: "par j < n" if "j < n" for j using that by auto
  have 1: "Dist (swap h i p ! j) \<le> Dist (swap h i p ! k)" if j: "j < n" "0 < j" "j \<noteq> p" and k: "k = par j" for j k
  proof -
    have kn: "k < n" using pj [OF j(1)] k by simp
    note n1 = nth [OF j(1)] and n2 = nth [OF kn]
    consider "j = i" | "j \<noteq> i" "k = i" | "j \<noteq> i" "k = p" | "j \<noteq> i" "k \<noteq> i" "k \<noteq> p" by blast
    then show ?thesis
    proof cases
      case 1
      then show ?thesis using n1 n2 assms(5,6) k p by simp
    next
      case 2
      then show ?thesis using n1 n2 B [OF j(1,2)] j(3) k by simp
    next
      case 3
      then show ?thesis using n1 n2 A [OF j(1,2)] j(3) k assms(6) p by (simp flip: k)
    next
      case 4
      then show ?thesis using n1 n2 A [OF j(1,2)] j(3) k by (simp flip: k)
    qed
  qed
  have 2: "Dist (swap h i p ! j) \<le> Dist (swap h i p ! q)" if j: "j < n" "0 < j" "par j = p" "0 < p" and q: "q = par p" for j q
  proof -
    have qp: "q < p" using j(4) q by auto
    have pq: "Dist (h ! p) \<le> Dist (h ! q)" using A [of p] p j(4) q by simp
    have jp: "j \<noteq> p" using j(2,3) by auto
    have "swap h i p ! q = h ! q" using nth [of q] qp p by simp
    moreover have "swap h i p ! j = (if j = i then h ! p else h ! j)" using nth [OF j(1)] jp by simp
    moreover have "Dist (h ! j) \<le> Dist (h ! p)" if "j \<noteq> i"
      using A [OF j(1,2) that] by (simp only: j(3))
    ultimately show ?thesis using pq by auto
  qed
  show ?thesis unfolding up_inv_def using 1 2 by blast
qed

lemma up_inv_done: "up_inv h n i \<Longrightarrow> i = 0 \<or> Dist (h ! i) \<le> Dist (h ! par i) \<Longrightarrow> is_heap h n"
  by (auto simp: up_inv_def is_heap_def)

lemma mset_take_swap:
  assumes "i < n" "j < n" "n \<le> length xs"
  shows "mset (take n (swap xs i j)) = mset (take n xs)" "drop n (swap xs i j) = drop n xs"
proof -
  have "take n (swap xs i j) = (take n xs)[i := take n xs ! j, j := take n xs ! i]"
    using assms by (simp add: swap_def take_update_swap)
  then show "mset (take n (swap xs i j)) = mset (take n xs)"
    using assms mset_swap [of j "take n xs" i] by simp
  show "drop n (swap xs i j) = drop n xs" using assms by (simp add: swap_def)
qed

lemma heapSiftUp_correct:
  assumes "up_inv h n i" "i < n" "n \<le> length h"
  shows "is_heap (heapSiftUp h i) n \<and> length (heapSiftUp h i) = length h \<and>
    mset (take n (heapSiftUp h i)) = mset (take n h) \<and> drop n (heapSiftUp h i) = drop n h"
  using assms
proof (induction h i rule: heapSiftUp.induct)
  case (1 h i)
  show ?case
  proof (cases "0 < i \<and> Dist (h ! i) > Dist (h ! par i)")
    case True
    have p: "par i < n" using "1.prems" by auto
    have "is_heap (heapSiftUp (swap h i (par i)) (par i)) n \<and>
        length (heapSiftUp (swap h i (par i)) (par i)) = length (swap h i (par i)) \<and>
        mset (take n (heapSiftUp (swap h i (par i)) (par i))) = mset (take n (swap h i (par i))) \<and>
        drop n (heapSiftUp (swap h i (par i)) (par i)) = drop n (swap h i (par i))"
      using True "1.prems" p up_inv_step [of h n i "par i"] by (intro "1.IH") simp_all
    then show ?thesis
      using True mset_take_swap [OF "1.prems"(2) p "1.prems"(3)] by (simp add: heapSiftUp.simps [of h i] Let_def)
  next
    case False
    then have "heapSiftUp h i = h" by (auto simp: heapSiftUp.simps [of h i] Let_def)
    then show ?thesis using False up_inv_done [OF "1.prems"(1)] by auto
  qed
qed

lemma largestChild_cases:
  assumes "i < sz"
  obtains (none) "largestChild h i sz = i" "\<And>j. j < sz \<Longrightarrow> 0 < j \<Longrightarrow> par j = i \<Longrightarrow> Dist (h ! j) \<le> Dist (h ! i)"
  | (child) c where "largestChild h i sz = c" "i < c" "c < sz" "par c = i" "Dist (h ! i) < Dist (h ! c)"
      "\<And>j. j < sz \<Longrightarrow> 0 < j \<Longrightarrow> par j = i \<Longrightarrow> Dist (h ! j) \<le> Dist (h ! c)"
proof -
  have ch: "j = 2 * i + 1 \<or> j = 2 * i + 2" if "0 < j" "par j = i" for j
    using that by presburger
  let ?c = "largestChild h i sz"
  have l: "2 * i + 1 < sz \<Longrightarrow> Dist (h ! (2 * i + 1)) \<le> Dist (h ! ?c)"
    by (auto simp: largestChild_def Let_def)
  have r: "2 * i + 2 < sz \<Longrightarrow> Dist (h ! (2 * i + 2)) \<le> Dist (h ! ?c)"
    by (auto simp: largestChild_def Let_def)
  have le: "Dist (h ! j) \<le> Dist (h ! ?c)" if "j < sz" "0 < j" "par j = i" for j
    using ch [OF that(2,3)] l r that(1) by auto
  show thesis
  proof (cases "?c = i")
    case True
    show ?thesis
    proof (rule none [OF True])
      fix j assume "j < sz" "0 < j" "par j = i"
      then have "Dist (h ! j) \<le> Dist (h ! ?c)" by (rule le)
      then show "Dist (h ! j) \<le> Dist (h ! i)" by (simp only: True)
    qed
  next
    case False
    then have "i < ?c" "?c < sz" "par ?c = i" "Dist (h ! i) < Dist (h ! ?c)"
      by (auto simp: largestChild_def Let_def split: if_splits)
    then show ?thesis using le by (rule child [OF refl])
  qed
qed

lemma down_inv_step:
  assumes "down_inv h n i" "n \<le> length h" "i < c" "c < n" "par c = i" "Dist (h ! i) < Dist (h ! c)"
    "\<And>j. j < n \<Longrightarrow> 0 < j \<Longrightarrow> par j = i \<Longrightarrow> Dist (h ! j) \<le> Dist (h ! c)"
  shows "down_inv (swap h i c) n c"
proof -
  have nth: "swap h i c ! k = (if k = i then h ! c else if k = c then h ! i else h ! k)" if "k < n" for k
    using that assms(2-4) by (intro nth_swap) auto
  have A: "Dist (h ! j) \<le> Dist (h ! par j)" if "j < n" "0 < j" "par j \<noteq> i" for j
    using assms(1) that by (simp add: down_inv_def)
  have B: "Dist (h ! c) \<le> Dist (h ! par i)" if "0 < i"
    using assms that by (simp add: down_inv_def)
  have pj: "par j < n" if "j < n" for j using that by auto
  show ?thesis
    unfolding down_inv_def
  proof (intro conjI allI impI)
    fix j assume j: "j < n" "0 < j" "par j \<noteq> c"
    note n1 = nth [OF j(1)] and n2 = nth [OF pj [OF j(1)]]
    consider "j = c" | "j = i" "j \<noteq> c" | "j \<noteq> c" "j \<noteq> i" "par j = i" | "j \<noteq> c" "j \<noteq> i" "par j \<noteq> i" by blast
    then show "Dist (swap h i c ! j) \<le> Dist (swap h i c ! par j)"
    proof cases
      case 1
      then show ?thesis using n1 n2 assms(3,5,6) by simp
    next
      case 2
      then have "par i < i" using j(2) by simp
      then show ?thesis using 2 j(2,3) n1 n2 B by simp
    next
      case 3
      then show ?thesis using n1 n2 assms(7) [OF j(1,2)] by simp
    next
      case 4
      then show ?thesis using n1 n2 A [OF j(1,2)] j(3) by simp
    qed
  next
    fix j assume j: "j < n" "0 < j" "par j = c" "0 < c"
    then have "c < j" by auto
    then show "Dist (swap h i c ! j) \<le> Dist (swap h i c ! par c)"
      using j A [of j] assms(3-5) nth [OF j(1)] nth [of i] by auto
  qed
qed

lemma heapSiftDown_correct:
  assumes "down_inv h n i" "i < n" "n \<le> length h"
  shows "is_heap (heapSiftDown h i n) n \<and> length (heapSiftDown h i n) = length h \<and>
    mset (take n (heapSiftDown h i n)) = mset (take n h) \<and> drop n (heapSiftDown h i n) = drop n h"
  using assms
proof (induction h i n rule: heapSiftDown.induct)
  case (1 h i n)
  from "1.prems"(2) show ?case
  proof (cases rule: largestChild_cases [where h = h])
    case none
    then have "heapSiftDown h i n = h" by (simp add: heapSiftDown.simps [of h i n])
    moreover have "is_heap h n"
      using none(2) "1.prems"(1) by (auto simp: is_heap_def down_inv_def)
    ultimately show ?thesis by simp
  next
    case (child c)
    have "is_heap (heapSiftDown (swap h i c) c n) n \<and>
        length (heapSiftDown (swap h i c) c n) = length (swap h i c) \<and>
        mset (take n (heapSiftDown (swap h i c) c n)) = mset (take n (swap h i c)) \<and>
        drop n (heapSiftDown (swap h i c) c n) = drop n (swap h i c)"
      using child "1.prems" down_inv_step [OF "1.prems"(1,3) child(2-5) child(6)]
      by (intro "1.IH" [of c]) auto
    then show ?thesis
      using child mset_take_swap [OF "1.prems"(2) child(3) "1.prems"(3)]
      by (simp add: heapSiftDown.simps [of h i n] Let_def)
  qed
qed


section \<open>Heapsort\<close>

lemma heap_root_max:
  assumes "is_heap h n" "j < n"
  shows "Dist (h ! j) \<le> Dist (h ! 0)"
  using assms(2)
proof (induction j rule: less_induct)
  case (less j)
  show ?case
  proof (cases "j = 0")
    case False
    then have "Dist (h ! j) \<le> Dist (h ! par j)" using assms(1) less.prems by (simp add: is_heap_def)
    also have "\<dots> \<le> Dist (h ! 0)" using less.IH [of "par j"] less.prems False by simp
    finally show ?thesis .
  qed simp
qed

lemma is_heap_down_inv: "is_heap h n \<Longrightarrow> n \<le> length h \<Longrightarrow> down_inv (h[0 := p]) n 0"
  by (auto simp: is_heap_def down_inv_def nth_list_update)

definition sorted_tail :: "Probe list \<Rightarrow> nat \<Rightarrow> nat \<Rightarrow> bool" where
  "sorted_tail h n m \<longleftrightarrow> sorted (map Dist (drop n (take m h))) \<and>
     (\<forall>x \<in> set (take n h). \<forall>y \<in> set (drop n (take m h)). Dist x \<le> Dist y)"

lemma swap_tail:
  assumes "1 < n" "n \<le> m" "m \<le> length h"
  shows "drop (n - 1) (take m (swap h 0 (n - 1))) = h ! 0 # drop n (take m h)"
proof -
  let ?s = "swap h 0 (n - 1)"
  have "drop (n - 1) (take m ?s) = take m ?s ! (n - 1) # drop n (take m ?s)"
    using assms by (subst Cons_nth_drop_Suc [symmetric]) simp_all
  moreover have "take m ?s ! (n - 1) = h ! 0" using assms by (simp add: swap_def)
  moreover have "drop n ?s = drop n h" using mset_take_swap(2) [of 0 n "n - 1" h] assms by simp
  then have "drop n (take m ?s) = drop n (take m h)" by (simp only: drop_take)
  ultimately show ?thesis by simp
qed

text \<open>Taking the root out and sifting: the first part is a heap again, with the same entries, and what lies
  behind it is untouched.\<close>

lemma pop_root:
  assumes "is_heap h n" "1 < n" "n \<le> length h" and h': "h' = heapSiftDown (swap h 0 (n - 1)) 0 (n - 1)"
  shows "is_heap h' (n - 1)" "length h' = length h" "mset (take (n - 1) h') = mset (take (n - 1) (swap h 0 (n - 1)))"
    "drop (n - 1) h' = drop (n - 1) (swap h 0 (n - 1))" "set (take (n - 1) h') \<subseteq> set (take n h)"
proof -
  let ?s = "swap h 0 (n - 1)"
  have "is_heap h (n - 1)" using assms(1) by (simp add: is_heap_def)
  then have "down_inv (h[0 := h ! (n - 1)]) (n - 1) 0" using assms(3) by (intro is_heap_down_inv) simp_all
  then have dn: "down_inv ?s (n - 1) 0" by (auto simp: swap_def down_inv_def nth_list_update)
  show c: "is_heap h' (n - 1)" "length h' = length h" "mset (take (n - 1) h') = mset (take (n - 1) ?s)"
    "drop (n - 1) h' = drop (n - 1) ?s"
    using heapSiftDown_correct [OF dn] assms(2,3) unfolding h' by simp_all
  have "set (take (n - 1) h') = set (take (n - 1) ?s)" using c(3) by (metis set_mset_mset)
  also have "\<dots> \<subseteq> set (take n ?s)" by (simp add: set_take_subset_set_take)
  also have "\<dots> = set (take n h)"
    using mset_take_swap(1) [of 0 n "n - 1" h] assms(2,3) by (metis diff_less less_trans set_mset_mset zero_less_one gr_implies_not0 not_gr_zero)
  finally show "set (take (n - 1) h') \<subseteq> set (take n h)" .
qed

lemma sorted_tail_step:
  assumes "is_heap h n" "1 < n" "n \<le> m" "m \<le> length h" "sorted_tail h n m"
    and h': "h' = heapSiftDown (swap h 0 (n - 1)) 0 (n - 1)"
  shows "is_heap h' (n - 1) \<and> length h' = length h \<and> mset (take m h') = mset (take m h) \<and>
    drop m h' = drop m h \<and> sorted_tail h' (n - 1) m"
proof -
  let ?s = "swap h 0 (n - 1)"
  have len: "n \<le> length h" using assms(3,4) by simp
  note c = pop_root [OF assms(1,2) len h']
  have ms: "mset (take m ?s) = mset (take m h)" "drop m ?s = drop m h"
    using mset_take_swap [of 0 m "n - 1" h] assms by simp_all
  have split: "take m xs = take (n - 1) xs @ drop (n - 1) (take m xs)" for xs :: "Probe list"
    by (metis append_take_drop_id assms(3) diff_le_self le_trans min.absorb1 take_take)
  have tail: "drop (n - 1) (take m h') = drop (n - 1) (take m ?s)" by (simp only: drop_take c(4))
  have m: "mset (take m h') = mset (take m h)"
    using split [of h'] split [of ?s] c(3) tail ms(1) by (metis mset_append)
  have d: "drop m h' = drop m h"
    using c(4) ms(2) assms(3) by (metis drop_drop le_add_diff_inverse2 le_trans diff_le_self)
  have root: "Dist x \<le> Dist (h ! 0)" if "x \<in> set (take n h)" for x
    using that heap_root_max [OF assms(1)] len by (auto simp: in_set_conv_nth)
  have "h ! 0 \<in> set (take n h)" using assms(2) len by (auto simp: in_set_conv_nth intro!: exI [of _ 0])
  then have "sorted_tail h' (n - 1) m"
    using assms(5) c(5) root unfolding sorted_tail_def tail swap_tail [OF assms(2-4)] by auto
  then show ?thesis using c m d by simp
qed

lemma heapToSorted_correct:
  assumes "is_heap h n" "n \<le> m" "m \<le> length h" "sorted_tail h n m"
  shows "length (heapToSorted h n) = length h \<and> mset (take m (heapToSorted h n)) = mset (take m h) \<and>
    drop m (heapToSorted h n) = drop m h \<and> sorted (map Dist (take m (heapToSorted h n)))"
  using assms
proof (induction h n rule: heapToSorted.induct)
  case (1 h n)
  show ?case
  proof (cases "1 < n")
    case True
    define h' where "h' = heapSiftDown (swap h 0 (n - 1)) 0 (n - 1)"
    have s: "is_heap h' (n - 1)" "length h' = length h" "mset (take m h') = mset (take m h)"
      "drop m h' = drop m h" "sorted_tail h' (n - 1) m"
      using sorted_tail_step [OF "1.prems"(1) True "1.prems"(2-4) h'_def] by simp_all
    have "length (heapToSorted h' (n - 1)) = length h' \<and> mset (take m (heapToSorted h' (n - 1))) = mset (take m h') \<and>
      drop m (heapToSorted h' (n - 1)) = drop m h' \<and> sorted (map Dist (take m (heapToSorted h' (n - 1))))"
      unfolding h'_def by (rule "1.IH" [OF True]) (use s "1.prems" in \<open>simp_all add: h'_def\<close>)
    moreover have "heapToSorted h n = heapToSorted h' (n - 1)"
      unfolding h'_def using True by (subst heapToSorted.simps) simp
    ultimately show ?thesis using s by simp
  next
    case False
    have "take m h = take n h @ drop n (take m h)"
      using "1.prems"(2) by (metis append_take_drop_id min.absorb1 take_take)
    moreover have "sorted (map Dist (take n h))"
      using False by (intro sorted01) simp
    then have "sorted (map Dist (take n h @ drop n (take m h)))"
      using "1.prems"(4) by (auto simp: sorted_tail_def sorted_append)
    ultimately show ?thesis using False by (simp add: heapToSorted.simps [of h n])
  qed
qed


section \<open>The bounded queue\<close>

text \<open>The contract of a queue that keeps the \<open>cap\<close> nearest entries: \<open>nearest xs H\<close>
  says that \<open>H\<close> are such entries of \<open>xs\<close>, ties at the boundary broken either way.\<close>

definition nearest :: "nat \<Rightarrow> Probe multiset \<Rightarrow> Probe multiset \<Rightarrow> bool" where
  "nearest cap xs H \<longleftrightarrow> H \<subseteq># xs \<and> size H = min cap (size xs) \<and>
     (\<forall>h \<in># H. \<forall>x \<in># xs - H. Dist h \<le> Dist x)"

locale bounded_queue =
  fixes cap :: nat
    and empty :: 'q
    and insert :: "'q \<Rightarrow> nat \<Rightarrow> int \<Rightarrow> 'q"
    and contents :: "'q \<Rightarrow> Probe multiset"
    and invar :: "'q \<Rightarrow> bool"
  assumes cap_pos: "0 < cap"
    and invar_empty: "invar empty"
    and contents_empty: "contents empty = {#}"
    and invar_insert: "invar q \<Longrightarrow> invar (insert q c d)"
    and insert_room: "invar q \<Longrightarrow> size (contents q) < cap \<Longrightarrow>
      contents (insert q c d) = add_mset \<lparr>Cluster = c, Dist = d\<rparr> (contents q)"
    and insert_full: "invar q \<Longrightarrow> size (contents q) = cap \<Longrightarrow>
      \<exists>r \<in># contents q. (\<forall>x \<in># contents q. Dist x \<le> Dist r) \<and>
        contents (insert q c d) =
          (if d \<ge> Dist r then contents q else add_mset \<lparr>Cluster = c, Dist = d\<rparr> (contents q - {#r#}))"
begin

definition insert_all :: "'q \<Rightarrow> (nat \<times> int) list \<Rightarrow> 'q" where
  "insert_all q xs = foldl (\<lambda>q (c, d). insert q c d) q xs"

lemma nearest_insert:
  assumes "invar q" "nearest cap xs (contents q)"
  shows "nearest cap (add_mset \<lparr>Cluster = c, Dist = d\<rparr> xs) (contents (insert q c d))"
proof -
  let ?p = "\<lparr>Cluster = c, Dist = d\<rparr>" and ?H = "contents q"
  have sub: "?H \<subseteq># xs" and sz: "size ?H = min cap (size xs)"
    and le: "\<And>h x. h \<in># ?H \<Longrightarrow> x \<in># xs - ?H \<Longrightarrow> Dist h \<le> Dist x"
    using assms(2) by (auto simp: nearest_def)
  show ?thesis
  proof (cases "size ?H < cap")
    case True
    then have "size xs \<le> size ?H" using sz by auto
    then have eq: "?H = xs" using sub by (metis mset_subset_size leD subset_mset.le_imp_less_or_eq)
    then show ?thesis using insert_room [OF assms(1) True] True
      by (auto simp: nearest_def)
  next
    case False
    then have full: "size ?H = cap" using sz by auto
    obtain r where r: "r \<in># ?H" "\<forall>x \<in># ?H. Dist x \<le> Dist r"
      "contents (insert q c d) = (if d \<ge> Dist r then ?H else add_mset ?p (?H - {#r#}))"
      using insert_full [OF assms(1) full] by blast
    obtain R where R: "xs = ?H + R" using sub by (metis mset_subset_eq_exists_conv)
    show ?thesis
    proof (cases "d \<ge> Dist r")
      case True
      have "add_mset ?p xs - ?H = add_mset ?p R" unfolding R by simp
      moreover have "?H \<subseteq># add_mset ?p xs" unfolding R by simp
      moreover have "\<forall>h \<in># ?H. Dist h \<le> d" using r True by fastforce
      moreover have "\<forall>h \<in># ?H. \<forall>x \<in># R. Dist h \<le> Dist x" using le R by simp
      ultimately show ?thesis using True r(3) sz full by (auto simp: nearest_def)
    next
      case False
      obtain H' where H: "?H = add_mset r H'" using r(1) by (metis mset_add)
      have N: "contents (insert q c d) = add_mset ?p H'" using False r(3) by (simp add: H)
      have xs: "add_mset ?p xs = add_mset ?p H' + add_mset r R" unfolding R H by simp
      have "Dist h \<le> Dist x" if "h \<in># add_mset ?p H'" "x \<in># add_mset r R" for h x
      proof -
        have "Dist h \<le> Dist r" using that(1) False r(2) H by auto
        moreover have "Dist r \<le> Dist x" using that(2) le [of r x] R r(1) by auto
        ultimately show ?thesis by simp
      qed
      then show ?thesis
        unfolding nearest_def N xs using full sz H R by (auto simp: min_def)
    qed
  qed
qed

lemma insert_all_nearest:
  assumes "invar q" "nearest cap ys (contents q)"
  shows "invar (insert_all q xs) \<and>
    nearest cap (mset (map (\<lambda>(c, d). \<lparr>Cluster = c, Dist = d\<rparr>) xs) + ys) (contents (insert_all q xs))"
  using assms
proof (induction xs arbitrary: q ys)
  case (Cons x xs)
  obtain c d where x: "x = (c, d)" by force
  show ?case
    using Cons.IH [OF invar_insert [OF Cons.prems(1)] nearest_insert [OF Cons.prems], of c d]
    by (simp add: x insert_all_def)
qed (simp add: insert_all_def)

lemma insert_all_empty:
  "invar (insert_all empty xs) \<and>
    nearest cap (mset (map (\<lambda>(c, d). \<lparr>Cluster = c, Dist = d\<rparr>) xs)) (contents (insert_all empty xs))"
  using insert_all_nearest [OF invar_empty, of "{#}" xs] by (simp add: contents_empty nearest_def)

end

section \<open>The array heap is a bounded queue\<close>

definition heap_invar :: "Probe list \<times> nat \<Rightarrow> bool" where
  "heap_invar st \<longleftrightarrow> length (fst st) = MaxProbes \<and> snd st \<le> MaxProbes \<and> is_heap (fst st) (snd st)"

definition heap_contents :: "Probe list \<times> nat \<Rightarrow> Probe multiset" where
  "heap_contents st = mset (take (snd st) (fst st))"

lemma insertProbe_room:
  assumes "heap_invar st" "snd st < 33"
  shows "heap_invar (insertProbe st c d) \<and>
    heap_contents (insertProbe st c d) = add_mset \<lparr>Cluster = c, Dist = d\<rparr> (heap_contents st) \<and>
    snd (insertProbe st c d) = snd st + 1"
proof -
  obtain h n where st: "st = (h, n)" by force
  let ?p = "\<lparr>Cluster = c, Dist = d\<rparr>" and ?h = "h[n := \<lparr>Cluster = c, Dist = d\<rparr>]"
  have h: "length h = 33" "n < 33" "is_heap h n" using assms by (auto simp: heap_invar_def st)
  have "Dist (?h ! j) \<le> Dist (?h ! par j)" if "j < Suc n" "0 < j" "j \<noteq> n" for j
  proof -
    have "par j \<noteq> n" using that by simp
    then show ?thesis using h that by (simp add: is_heap_def)
  qed
  moreover have "par j \<noteq> n" if "j < Suc n" "0 < j" for j using that by simp
  ultimately have "up_inv ?h (Suc n) n" unfolding up_inv_def by blast
  then have c: "is_heap (heapSiftUp ?h n) (Suc n)" "length (heapSiftUp ?h n) = 33"
    "mset (take (Suc n) (heapSiftUp ?h n)) = mset (take (Suc n) ?h)"
    using heapSiftUp_correct [of ?h "Suc n" n] h by simp_all
  have "take (Suc n) ?h = take n h @ [?p]" using h by (simp add: take_Suc_conv_app_nth)
  then show ?thesis using c h
    by (simp add: insertProbe_def st Let_def heap_invar_def heap_contents_def)
qed

lemma insertProbe_full:
  assumes "heap_invar st" "snd st = 33"
  shows "heap_invar (insertProbe st c d) \<and>
    (\<exists>r \<in># heap_contents st. (\<forall>x \<in># heap_contents st. Dist x \<le> Dist r) \<and>
      heap_contents (insertProbe st c d) =
        (if d \<ge> Dist r then heap_contents st else add_mset \<lparr>Cluster = c, Dist = d\<rparr> (heap_contents st - {#r#}))) \<and>
    snd (insertProbe st c d) = 33"
proof -
  obtain h n where st: "st = (h, n)" by force
  let ?p = "\<lparr>Cluster = c, Dist = d\<rparr>" and ?h = "h[0 := \<lparr>Cluster = c, Dist = d\<rparr>]"
  have h: "length h = 33" "n = 33" "is_heap h 33" using assms by (auto simp: heap_invar_def st)
  have tk: "take 33 h = h" "h ! 0 \<in># mset h" using h by auto
  have root: "\<forall>x \<in># mset h. Dist x \<le> Dist (h ! 0)"
    using heap_root_max [OF h(3)] h(1) by (auto simp: in_set_conv_nth)
  have "down_inv ?h 33 0" using is_heap_down_inv [OF h(3)] h(1) by simp
  then have c: "is_heap (heapSiftDown ?h 0 33) 33" "length (heapSiftDown ?h 0 33) = 33"
    "mset (take 33 (heapSiftDown ?h 0 33)) = mset ?h"
    using heapSiftDown_correct [of ?h 33 0] h by auto
  then have m: "mset (heapSiftDown ?h 0 33) = mset ?h" by simp
  have "mset ?h = add_mset ?p (mset h - {#h ! 0#})"
    using h(1) by (simp add: mset_update)
  then show ?thesis
    using c(1,2) m h tk root
    by (intro conjI bexI [of _ "h ! 0"]) (auto simp: insertProbe_def st Let_def heap_invar_def heap_contents_def)
qed

lemma size_heap_contents: "heap_invar st \<Longrightarrow> size (heap_contents st) = snd st"
  by (simp add: heap_invar_def heap_contents_def)

interpretation probes: bounded_queue MaxProbes probes0 insertProbe heap_contents heap_invar
proof unfold_locales
  fix st c d assume inv: "heap_invar st"
  show "heap_invar (insertProbe st c d)"
  proof (cases "snd st < 33")
    case True
    then show ?thesis using insertProbe_room [OF inv, of c d] by blast
  next
    case False
    then have "snd st = 33" using inv by (simp add: heap_invar_def)
    then show ?thesis using insertProbe_full [OF inv, of c d] by blast
  qed
next
  fix st c d assume inv: "heap_invar st"
  note sz = size_heap_contents [OF inv]
  show "size (heap_contents st) < 33 \<Longrightarrow>
      heap_contents (insertProbe st c d) = add_mset \<lparr>Cluster = c, Dist = d\<rparr> (heap_contents st)"
    using insertProbe_room [OF inv, of c d] sz by simp
  show "size (heap_contents st) = 33 \<Longrightarrow>
      \<exists>r \<in># heap_contents st. (\<forall>x \<in># heap_contents st. Dist x \<le> Dist r) \<and>
        heap_contents (insertProbe st c d) =
          (if d \<ge> Dist r then heap_contents st else add_mset \<lparr>Cluster = c, Dist = d\<rparr> (heap_contents st - {#r#}))"
    using insertProbe_full [OF inv, of c d] sz by simp
qed (simp_all add: heap_invar_def probes0_def heap_contents_def is_heap_def)

section \<open>Properties\<close>

text \<open>Correctness of the in-place heapsort: from a max-heap in the first \<open>n\<close> entries,
  \<open>heapToSorted\<close> leaves the same entries in ascending order of distance and touches nothing
  beyond them.\<close>

theorem heapToSorted_sorts:
  assumes "is_heap probes n" "n \<le> length probes"
  shows "sorted (map Dist (take n (heapToSorted probes n))) \<and>
    mset (take n (heapToSorted probes n)) = mset (take n probes) \<and>
    drop n (heapToSorted probes n) = drop n probes"
  using heapToSorted_correct [OF assms(1) order_refl assms(2)] by (simp add: sorted_tail_def)

definition sample_heap :: "Probe list" where
  "sample_heap = [\<lparr>Cluster = 2, Dist = 9\<rparr>, \<lparr>Cluster = 0, Dist = 5\<rparr>, \<lparr>Cluster = 7, Dist = 6\<rparr>, \<lparr>Cluster = 1, Dist = 40\<rparr>]"

theorem heapToSorted_sorts_witness:
  "sorted (map Dist (take 3 (heapToSorted sample_heap 3)))"
proof -
  have "is_heap sample_heap 3"
    by (auto simp: is_heap_def sample_heap_def nth_Cons split: nat.splits)
  then show ?thesis using heapToSorted_sorts [of sample_heap 3] by (simp add: sample_heap_def)
qed

lemma insert_all_eq: "probes.insert_all st xs = foldl (\<lambda>st (c, d). insertProbe st c d) st xs"
  by (simp add: probes.insert_all_def)

text \<open>(C25) The probe list is a selection of the nearest clusters: after offering any sequence of
  (cluster, distance) pairs to \<open>insertProbe\<close>, the array holds as many of them as fit in 33
  entries, and none that was left out is nearer than one that was kept.\<close>

theorem insertProbe_keeps_nearest:
  "nearest 33 (mset (map (\<lambda>(c, d). \<lparr>Cluster = c, Dist = d\<rparr>) xs))
     (let st = foldl (\<lambda>st (c, d). insertProbe st c d) probes0 xs in mset (take (snd st) (fst st)))"
  using probes.insert_all_empty [of xs] by (simp add: insert_all_eq heap_contents_def Let_def)

end
