(* ===== verification/Knn.thy ===== *)
theory Knn
  imports Kernel Best Probes
begin

text \<open>
  The search of package \<open>knn\<close> (\<open>ScoreQ\<close>, \<open>scanCluster\<close>, \<open>repairFast\<close>,
  \<open>repairFull\<close> in \<open>internal/knn/knn.go\<close>). A read outside a slice is
  \<^const>\<open>None\<close>. The kernels are a parameter; the lemmas on the search are proved once in the
  locale \<open>kernel_spec\<close> and hold for both builds. Prefetches have no effect on the result and
  are left out.

  The specification is a search that offers every vector of every cluster it looks at to the
  candidate buffer; \<open>search_spec\<close> has no block pruning and does not skip a cluster by the
  candidate buffer's threshold. What decides which clusters are looked at stays as in the code: the probe list, the
  radius \<open>EarlyDist\<close>, and the bounding-box test that ends \<open>repairFast\<close>. The code computes the same votes.
\<close>

section \<open>Scanning one cluster\<close>

fun scanLanes :: "Index \<Rightarrow> int list \<Rightarrow> nat \<Rightarrow> nat list \<Rightarrow> best \<Rightarrow> best option" where
  "scanLanes ix dists labBase [] b = Some b"
| "scanLanes ix dists labBase (lane # lanes) b =
     do {
       d \<leftarrow> read_at dists lane;
       if d < bestD b ! (TopK - 1)
       then do {
         label \<leftarrow> read_at (Labels ix) (labBase + lane);
         scanLanes ix dists labBase lanes (insertBest d label b)
       }
       else scanLanes ix dists labBase lanes b
     }"

function scanBlocks ::
  "kernel \<Rightarrow> Index \<Rightarrow> int list \<Rightarrow> nat \<Rightarrow> nat \<Rightarrow> nat \<Rightarrow> nat \<Rightarrow> best \<Rightarrow> best option" where
  "scanBlocks kern ix q cnt endBlock blk processed b =
     (if blk < endBlock then
        do {
          r \<leftarrow> blkDistPrune kern (Vectors ix) blk q (bestD b ! (TopK - 1));
          let laneN = min LANES (u32_sub cnt processed);
          let processed' = u32 (processed + laneN);
          if snd r then scanBlocks kern ix q cnt endBlock (blk + 1) processed' b
          else do {
            b' \<leftarrow> scanLanes ix (fst r) (blk * LANES) [0..<laneN] b;
            scanBlocks kern ix q cnt endBlock (blk + 1) processed' b'
          }
        }
      else Some b)"
  by pat_completeness auto
termination
  by (relation "measure (\<lambda>(kern, ix, q, cnt, endBlock, blk, processed, b). endBlock - blk)") auto

declare scanBlocks.simps [simp del]

definition scanCluster :: "kernel \<Rightarrow> Index \<Rightarrow> int list \<Rightarrow> nat \<Rightarrow> best \<Rightarrow> best option" where
  "scanCluster kern ix q cluster b =
     do {
       startBlock \<leftarrow> read_at (BlockOffsets ix) cluster;
       endBlock \<leftarrow> read_at (BlockOffsets ix) (u32 (cluster + 1));
       cnt \<leftarrow> read_at (Counts ix) cluster;
       if cnt = 0 then Some b
       else scanBlocks kern ix q cnt endBlock startBlock 0 b
     }"

section \<open>The repair passes\<close>

text \<open>The vote inside \<open>repairFast\<close> is counted in a \<open>uint8\<close>.\<close>

definition countFrauds8 :: "best \<Rightarrow> nat" where
  "countFrauds8 b = foldl (\<lambda>f l. (f + l) mod 256) 0 (bestL b)"

fun repairFast :: "kernel \<Rightarrow> Index \<Rightarrow> int list \<Rightarrow> Probe list \<Rightarrow> best \<Rightarrow> best option" where
  "repairFast kern ix q [] b = Some b"
| "repairFast kern ix q (p # ps) b =
     (if Cluster p = maxU32 then Some b
      else do {
        lb \<leftarrow> bboxLowerBoundFast kern q ix (Cluster p);
        if lb \<ge> bestD b ! (TopK - 1) then repairFast kern ix q ps b
        else do {
          b' \<leftarrow> scanCluster kern ix q (Cluster p) b;
          if (countFrauds8 b' < RepairMin \<or> countFrauds8 b' > RepairMax) \<and> bestD b' ! (TopK - 1) \<le> EarlyDist
          then Some b'
          else repairFast kern ix q ps b'
        }
      })"

fun markSeen :: "Probe list \<Rightarrow> 64 word list \<Rightarrow> 64 word list" where
  "markSeen [] seenMask = seenMask"
| "markSeen (p # ps) seenMask =
     (if Cluster p = maxU32 then seenMask
      else let w = Cluster p div 64; b = Cluster p mod 64
           in markSeen ps (if w < SeenWords then seenMask[w := or (seenMask ! w) (push_bit b 1)] else seenMask))"

fun fullLoop :: "kernel \<Rightarrow> Index \<Rightarrow> int list \<Rightarrow> 64 word list \<Rightarrow> nat list \<Rightarrow> best \<Rightarrow> best option" where
  "fullLoop kern ix q seenMask [] b = Some b"
| "fullLoop kern ix q seenMask (ci # cs) b =
     do {
       n \<leftarrow> read_at (Counts ix) ci;
       if n = 0 then fullLoop kern ix q seenMask cs b
       else do {
         w \<leftarrow> read_at seenMask (ci div 64);
         if and (drop_bit (ci mod 64) w) 1 \<noteq> 0 then fullLoop kern ix q seenMask cs b
         else do {
           lb \<leftarrow> bboxLowerBoundFast kern q ix ci;
           if lb \<ge> bestD b ! (TopK - 1) then fullLoop kern ix q seenMask cs b
           else do {
             b' \<leftarrow> scanCluster kern ix q ci b;
             fullLoop kern ix q seenMask cs b'
           }
         }
       }
     }"

definition repairFull :: "kernel \<Rightarrow> Index \<Rightarrow> int list \<Rightarrow> Probe list \<Rightarrow> best \<Rightarrow> best option" where
  "repairFull kern ix q probes b =
     fullLoop kern ix q (markSeen probes (replicate SeenWords 0)) [0..<u32 (IxK ix)] b"

section \<open>The search\<close>

fun probeLanes :: "Index \<Rightarrow> int list \<Rightarrow> nat \<Rightarrow> nat list \<Rightarrow> Probe list \<times> nat \<Rightarrow> (Probe list \<times> nat) option" where
  "probeLanes ix dists ciBase [] st = Some st"
| "probeLanes ix dists ciBase (lane # lanes) st =
     do {
       let ci = u32 (ciBase + lane);
       n \<leftarrow> read_at (Counts ix) ci;
       if n = 0 then probeLanes ix dists ciBase lanes st
       else do {
         d \<leftarrow> read_at dists lane;
         probeLanes ix dists ciBase lanes (insertProbe st ci d)
       }
     }"

fun probeBlocks ::
  "kernel \<Rightarrow> Index \<Rightarrow> int list \<Rightarrow> nat list \<Rightarrow> Probe list \<times> nat \<Rightarrow> (Probe list \<times> nat) option" where
  "probeBlocks kern ix q [] st = Some st"
| "probeBlocks kern ix q (cb # cbs) st =
     do {
       dists \<leftarrow> blkDist kern (Centroids ix) cb q;
       let ciBase = u32 (u32 cb * LANES);
       let laneMax = min LANES (u32_sub (u32 (IxK ix)) ciBase);
       st' \<leftarrow> probeLanes ix dists ciBase [0..<laneMax] st;
       probeBlocks kern ix q cbs st'
     }"

fun scanProbes :: "kernel \<Rightarrow> Index \<Rightarrow> int list \<Rightarrow> Probe list \<Rightarrow> best \<Rightarrow> best option" where
  "scanProbes kern ix q [] b = Some b"
| "scanProbes kern ix q (p # ps) b =
     do { b' \<leftarrow> scanCluster kern ix q (Cluster p) b; scanProbes kern ix q ps b' }"

definition ScoreQ :: "kernel \<Rightarrow> Index \<Rightarrow> int list \<Rightarrow> nat option" where
  "ScoreQ kern ix qq =
     do {
       st \<leftarrow> probeBlocks kern ix qq [0..<NCentroidBlk ix] probes0;
       let probeCount = snd st;
       let probes = heapToSorted (fst st) probeCount;
       b1 \<leftarrow> scanProbes kern ix qq (take (min NPROBE probeCount) probes) best0;
       if countFrauds b1 = TopK \<and> bestD b1 ! (TopK - 1) \<le> EarlyDist then Some (countFrauds b1)
       else do {
         b2 \<leftarrow> repairFast kern ix qq (drop NPROBE (take probeCount probes)) b1;
         if countFrauds b2 \<le> RepairMax then do {
           b3 \<leftarrow> repairFull kern ix qq (take probeCount probes) b2;
           Some (countFrauds b3)
         }
         else Some (countFrauds b2)
       }
     }"


section \<open>Well-formed indexes and their candidates\<close>

definition vecAt :: "Index \<Rightarrow> nat \<Rightarrow> int list" where
  "vecAt ix j = vecOf (Vectors ix) (j div 8) (j mod 8)"

definition candAt :: "Index \<Rightarrow> int list \<Rightarrow> nat \<Rightarrow> cand" where
  "candAt ix q j = (sqdist q (vecAt ix j), Labels ix ! j)"

text \<open>The rows of a cluster: \<open>Counts\<close> of them, from the first lane of its first block.\<close>

definition rows :: "Index \<Rightarrow> nat \<Rightarrow> nat list" where
  "rows ix c = [BlockOffsets ix ! c * 8..<BlockOffsets ix ! c * 8 + Counts ix ! c]"

definition cand :: "Index \<Rightarrow> int list \<Rightarrow> nat \<Rightarrow> cand list" where
  "cand ix q c = map (candAt ix q) (rows ix c)"

definition all_cands :: "Index \<Rightarrow> int list \<Rightarrow> cand list" where
  "all_cands ix q = concat (map (cand ix q) [0..<IxK ix])"

definition in_box :: "Index \<Rightarrow> nat \<Rightarrow> int list \<Rightarrow> bool" where
  "in_box ix c x \<longleftrightarrow> (\<forall>i<16. BBoxMin ix ! (c * 16 + i) \<le> x ! i \<and> x ! i \<le> BBoxMax ix ! (c * 16 + i))"

definition wf_cluster :: "Index \<Rightarrow> nat \<Rightarrow> bool" where
  "wf_cluster ix c \<longleftrightarrow>
     BlockOffsets ix ! c \<le> BlockOffsets ix ! (c + 1) \<and> BlockOffsets ix ! (c + 1) \<le> IxNBlocks ix \<and>
     Counts ix ! c \<le> 8 * (BlockOffsets ix ! (c + 1) - BlockOffsets ix ! c) \<and> Counts ix ! c < 2 ^ 32 \<and>
     (Counts ix ! c \<noteq> 0 \<longrightarrow> bbox_ok ix c \<and> (\<forall>j \<in> set (rows ix c). in_box ix c (vecAt ix j)))"

definition wf_index :: "Index \<Rightarrow> bool" where
  "wf_index ix \<longleftrightarrow>
     IxK ix \<le> 4096 \<and> NCentroidBlk ix = (IxK ix + 7) div 8 \<and>
     length (Centroids ix) = NCentroidBlk ix * 128 \<and> in_range (Centroids ix) \<and>
     length (BlockOffsets ix) = IxK ix + 1 \<and> length (Counts ix) = IxK ix \<and>
     length (Vectors ix) = IxNBlocks ix * 128 \<and> in_range (Vectors ix) \<and>
     length (Labels ix) = IxNBlocks ix * 8 \<and> (\<forall>l \<in> set (Labels ix). l \<le> 1) \<and>
     (\<forall>c<IxK ix. wf_cluster ix c)"

section \<open>The specification of the search\<close>

definition frauds :: "cand list \<Rightarrow> nat" where
  "frauds P = sum_list (map snd P)"

text \<open>The clusters to probe: the nearest non-empty ones, in ascending distance of their centroids.\<close>

definition centroidDist :: "Index \<Rightarrow> int list \<Rightarrow> nat \<Rightarrow> int" where
  "centroidDist ix q c = sqdist q (vecOf (Centroids ix) (c div 8) (c mod 8))"

definition offered :: "Index \<Rightarrow> int list \<Rightarrow> nat list \<Rightarrow> (nat \<times> int) list" where
  "offered ix q cs = map (\<lambda>c. (c, centroidDist ix q c)) (filter (\<lambda>c. Counts ix ! c \<noteq> 0) cs)"

abbreviation insertAll :: "Probe list \<times> nat \<Rightarrow> (nat \<times> int) list \<Rightarrow> Probe list \<times> nat" where
  "insertAll \<equiv> foldl (\<lambda>st (c, d). insertProbe st c d)"

definition probeList :: "Index \<Rightarrow> int list \<Rightarrow> Probe list" where
  "probeList ix q =
     (let st = insertAll probes0 (offered ix q [0..<IxK ix])
      in take (snd st) (heapToSorted (fst st) (snd st)))"

fun fast_spec :: "Index \<Rightarrow> int list \<Rightarrow> nat list \<Rightarrow> cand list \<Rightarrow> cand list" where
  "fast_spec ix q [] P = P"
| "fast_spec ix q (c # cs) P =
     (let P' = topk P (cand ix q c)
      in if bboxDist q ix c < fst (P ! 4) \<and> (frauds P' = 0 \<or> frauds P' = 5) \<and> fst (P' ! 4) \<le> EarlyDist
         then P' else fast_spec ix q cs P')"

definition search_spec :: "Index \<Rightarrow> int list \<Rightarrow> nat" where
  "search_spec ix q =
     (let cs = map Cluster (probeList ix q);
          P1 = best_five (concat (map (cand ix q) (take 1 cs)))
      in if frauds P1 = 5 \<and> fst (P1 ! 4) \<le> EarlyDist then 5
         else let P2 = fast_spec ix q (drop 1 cs) P1
              in if frauds P2 \<le> 4
                 then frauds (topk P2 (concat (map (cand ix q) (filter (\<lambda>c. c \<notin> set cs) [0..<IxK ix]))))
                 else frauds P2)"

section \<open>Scanning a cluster offers all its rows\<close>

definition good :: "best \<Rightarrow> bool" where
  "good b \<longleftrightarrow> best_ok b \<and> (\<forall>l \<in> set (bestL b). l \<le> 1)"

lemma good_best0: "good best0"
  using best_ok_best0 by (simp add: good_def best0_def)

lemma set_topk_subset: "set (topk P xs) \<subseteq> set P \<union> set xs"
proof (induction xs arbitrary: P)
  case (Cons x xs)
  have "set (take 5 (ins x P)) \<subseteq> insert x (set P)" using set_take_subset [of 5 "ins x P"] by simp
  then show ?case using Cons.IH [of "take 5 (ins x P)"] by auto
qed simp

lemma good_topk:
  assumes "good b" "best_ok b'" "pairs b' = topk (pairs b) xs" "\<forall>x \<in> set xs. snd x \<le> 1"
  shows "good b'"
proof -
  have "set (bestL b') = snd ` set (pairs b')" "set (bestL b) = snd ` set (pairs b)"
    using best_ok_pairs [OF assms(2)] best_ok_pairs [of b] assms(1) by (metis set_map good_def)+
  then show ?thesis
    using assms set_topk_subset [of "pairs b" xs] unfolding good_def by fastforce
qed

lemma sorted_pairs: "best_ok b \<Longrightarrow> sorted_cands (pairs b) \<and> length (pairs b) = 5"
  using best_ok_pairs by (simp add: best_ok_def)

lemma scanLanes_spec:
  assumes "best_ok b" "\<forall>l \<in> set lanes. l < length dists \<and> base + l < length (Labels ix)"
  shows "\<exists>b'. scanLanes ix dists base lanes b = Some b' \<and> best_ok b' \<and>
    pairs b' = topk (pairs b) (map (\<lambda>l. (dists ! l, Labels ix ! (base + l))) lanes)"
  using assms
proof (induction lanes arbitrary: b)
  case (Cons l lanes)
  let ?x = "(dists ! l, Labels ix ! (base + l))"
  show ?case
  proof (cases "dists ! l < bestD b ! 4")
    case True
    show ?thesis
      using Cons.IH [OF best_ok_insertBest [OF Cons.prems(1)], of "fst ?x" "snd ?x"] Cons.prems True
      by (simp add: panic_simps insertBest_refines)
  next
    case False
    then have "take 5 (ins ?x (pairs b)) = pairs b"
      using sorted_pairs [OF Cons.prems(1)] best_ok_fifth [OF Cons.prems(1)] by (intro take_ins_skip) simp_all
    then show ?thesis using Cons.IH [OF Cons.prems(1)] Cons.prems False by (simp add: panic_simps)
  qed
qed simp

lemma upt_split_block:
  fixes rem :: nat
  shows "[blk * 8..<blk * 8 + rem] =
    map (\<lambda>l. blk * 8 + l) [0..<min 8 rem] @ [(blk + 1) * 8..<(blk + 1) * 8 + (rem - min 8 rem)]"
proof -
  have "map (\<lambda>l. blk * 8 + l) [0..<min 8 rem] = [blk * 8..<blk * 8 + min 8 rem]"
    by (simp add: map_add_upt add.commute)
  moreover have "[blk * 8..<blk * 8 + rem] = [blk * 8..<blk * 8 + min 8 rem] @ [blk * 8 + min 8 rem..<blk * 8 + rem]"
    using upt_add_eq_append [of "blk * 8" "blk * 8 + min 8 rem" "rem - min 8 rem"] by simp
  moreover have "[blk * 8 + min 8 rem..<blk * 8 + rem] = [(blk + 1) * 8..<(blk + 1) * 8 + (rem - min 8 rem)]"
    by (cases "rem < 8") (simp_all add: min_def algebra_simps)
  ultimately show ?thesis by simp
qed


lemma foldl_mod_sum:
  fixes m :: nat
  shows "a < m \<Longrightarrow> foldl (\<lambda>f l. (f + l) mod m) a ls = (a + sum_list ls) mod m"
proof (induction ls arbitrary: a)
  case (Cons x ls)
  show ?case using Cons.IH [of "(a + x) mod m"] Cons.prems by (simp add: mod_simps add.assoc)
qed simp

lemma sum_list_le_length: "(\<And>x. x \<in> set xs \<Longrightarrow> x \<le> 1) \<Longrightarrow> sum_list xs \<le> length (xs :: nat list)"
proof (induction xs)
  case (Cons x xs)
  then have "x \<le> 1" "sum_list xs \<le> length xs" by simp_all
  then show ?case by simp
qed simp

lemma frauds_le_5: "good b \<Longrightarrow> sum_list (bestL b) \<le> 5"
  using sum_list_le_length [of "bestL b"] by (simp add: good_def best_ok_def)

lemma count_frauds:
  assumes "good b"
  shows "countFrauds b = frauds (pairs b)" "countFrauds8 b = frauds (pairs b)" "frauds (pairs b) \<le> 5"
proof -
  have f: "frauds (pairs b) = sum_list (bestL b)"
    using assms best_ok_pairs [of b] by (simp add: good_def frauds_def)
  show "frauds (pairs b) \<le> 5" using frauds_le_5 [OF assms] f by simp
  then show "countFrauds b = frauds (pairs b)" "countFrauds8 b = frauds (pairs b)"
    unfolding countFrauds_def countFrauds8_def u32_def f by (simp_all add: foldl_mod_sum)
qed

lemma candAt_lane:
  "l < 8 \<Longrightarrow> candAt ix q (blk * 8 + l) = (blockDists (Vectors ix) blk q ! l, Labels ix ! (blk * 8 + l))"
  by (simp add: candAt_def vecAt_def blockDists_def)

lemma wf_block_ok:
  assumes "wf_index ix" "b < IxNBlocks ix"
  shows "block_ok (Vectors ix) b"
proof -
  have "(b + 1) * 128 \<le> IxNBlocks ix * 128" using assms(2) by (intro mult_le_mono1) simp
  then show ?thesis using assms(1) by (simp add: wf_index_def block_ok_def)
qed

context kernel_spec
begin

text \<open>One block: when it is pruned nothing in it can enter the buffer, otherwise its lanes are offered in
  turn.\<close>

lemma scanBlock_spec:
  assumes "wf_index ix" "query_ok q" "blk < IxNBlocks ix" "best_ok b" "n \<le> 8"
  obtains r where "blkDistPrune kern (Vectors ix) blk q (bestD b ! 4) = Some r"
    "snd r \<Longrightarrow> topk (pairs b) (map (candAt ix q) (map (\<lambda>l. blk * 8 + l) [0..<n])) = pairs b"
    "\<not> snd r \<Longrightarrow> \<exists>b1. scanLanes ix (fst r) (blk * 8) [0..<n] b = Some b1 \<and> best_ok b1 \<and>
       pairs b1 = topk (pairs b) (map (candAt ix q) (map (\<lambda>l. blk * 8 + l) [0..<n]))"
proof -
  let ?v = "Vectors ix" and ?now = "map (candAt ix q) (map (\<lambda>l. blk * 8 + l) [0..<n])"
  have bok: "block_ok ?v blk" by (rule wf_block_ok [OF assms(1,3)])
  obtain r where r: "blkDistPrune kern ?v blk q (bestD b ! 4) = Some r" "prune_result (blockDists ?v blk q) (bestD b ! 4) r"
    using prune_sound [OF assms(2) bok] by blast
  have now: "?now = map (\<lambda>l. (blockDists ?v blk q ! l, Labels ix ! (blk * 8 + l))) [0..<n]" using assms(5) by (simp add: candAt_lane)
  have len: "length (blockDists ?v blk q) = 8" by (simp add: blockDists_def)
  show thesis
  proof (rule that [OF r(1)])
    assume "snd r"
    then have "\<forall>x \<in> set ?now. fst (pairs b ! 4) \<le> fst x"
      unfolding now using r(2) assms(4,5) len by (auto simp: prune_result_def best_ok_fifth)
    then show "topk (pairs b) ?now = pairs b" using sorted_pairs [OF assms(4)] by (intro topk_skip) simp_all
  next
    assume "\<not> snd r"
    then have "fst r = blockDists ?v blk q" using r(2) by (simp add: prune_result_def)
    moreover have "blk * 8 + 8 \<le> length (Labels ix)" using assms(1,3) by (simp add: wf_index_def)
    ultimately show "\<exists>b1. scanLanes ix (fst r) (blk * 8) [0..<n] b = Some b1 \<and> best_ok b1 \<and> pairs b1 = topk (pairs b) ?now"
      using scanLanes_spec [OF assms(4), of "[0..<n]" "blockDists ?v blk q" "blk * 8" ix] len assms(5) unfolding now by auto
  qed
qed

lemma scanBlocks_spec:
  assumes wf: "wf_index ix" and q: "query_ok q" and "endBlock \<le> IxNBlocks ix" "cnt < 2 ^ 32"
    and "best_ok b" "processed \<le> cnt" "cnt - processed \<le> 8 * (endBlock - blk)"
  shows "\<exists>b'. scanBlocks kern ix q cnt endBlock blk processed b = Some b' \<and> best_ok b' \<and>
    pairs b' = topk (pairs b) (map (candAt ix q) [blk * 8..<blk * 8 + (cnt - processed)])"
  using assms(3-)
proof (induction "endBlock - blk" arbitrary: blk processed b)
  case 0
  then show ?case by (simp add: scanBlocks.simps)
next
  case (Suc n)
  note le = Suc.prems(1) and small = Suc.prems(2) and b = Suc.prems(3) and proc = Suc.prems(4,5)
  have blk: "blk < endBlock" "n = endBlock - (blk + 1)" "blk < IxNBlocks ix" using Suc.hyps(2) le by simp_all
  let ?rem = "cnt - processed"
  let ?n = "min 8 ?rem" and ?rest = "scanBlocks kern ix q cnt endBlock (blk + 1) (processed + min 8 (cnt - processed))"
  have u: "u32_sub cnt processed = ?rem" "u32 (processed + ?n) = processed + ?n"
    using proc small by (simp_all add: wrap_simps)
  have IH: "\<exists>b2. ?rest b1 = Some b2 \<and> best_ok b2 \<and>
      pairs b2 = topk (pairs b1) (map (candAt ix q) [(blk + 1) * 8..<(blk + 1) * 8 + (?rem - ?n)])"
    if "best_ok b1" for b1
    using Suc.hyps(1) [OF blk(2) le small that, of "processed + ?n"] proc blk(1) by (simp add: diff_diff_left)
  have rows: "map (candAt ix q) [blk * 8..<blk * 8 + ?rem]
      = map (candAt ix q) (map (\<lambda>l. blk * 8 + l) [0..<?n]) @ map (candAt ix q) [(blk + 1) * 8..<(blk + 1) * 8 + (?rem - ?n)]"
    by (subst upt_split_block) simp
  obtain r where r: "blkDistPrune kern (Vectors ix) blk q (bestD b ! 4) = Some r"
      "snd r \<Longrightarrow> topk (pairs b) (map (candAt ix q) (map (\<lambda>l. blk * 8 + l) [0..<?n])) = pairs b"
      "\<not> snd r \<Longrightarrow> \<exists>b1. scanLanes ix (fst r) (blk * 8) [0..<?n] b = Some b1 \<and> best_ok b1 \<and>
         pairs b1 = topk (pairs b) (map (candAt ix q) (map (\<lambda>l. blk * 8 + l) [0..<?n]))"
    using scanBlock_spec [OF wf q blk(3) b, of ?n] by (metis min.cobounded1)
  show ?case
  proof (cases "snd r")
    case True
    then show ?thesis using IH [OF b] blk(1) r(1,2) u by (subst scanBlocks.simps) (simp add: rows topk_append)
  next
    case False
    then obtain b1 where "scanLanes ix (fst r) (blk * 8) [0..<?n] b = Some b1" "best_ok b1"
        "pairs b1 = topk (pairs b) (map (candAt ix q) (map (\<lambda>l. blk * 8 + l) [0..<?n]))" using r(3) by blast
    then show ?thesis using IH [of b1] blk(1) r(1) False u by (subst scanBlocks.simps) (simp add: rows topk_append)
  qed
qed

lemma scanCluster_spec:
  assumes wf: "wf_index ix" and q: "query_ok q" and b: "best_ok b" and c: "c < IxK ix"
  shows "\<exists>b'. scanCluster kern ix q c b = Some b' \<and> best_ok b' \<and> pairs b' = topk (pairs b) (cand ix q c)"
proof -
  have w: "wf_cluster ix c" "IxK ix \<le> 4096" "length (BlockOffsets ix) = IxK ix + 1" "length (Counts ix) = IxK ix"
    using wf c by (auto simp: wf_index_def)
  let ?n = "Counts ix ! c" and ?s = "BlockOffsets ix ! c" and ?e = "BlockOffsets ix ! Suc c"
  have r: "read_at (BlockOffsets ix) c = Some ?s" "read_at (BlockOffsets ix) (u32 (Suc c)) = Some ?e"
    "read_at (Counts ix) c = Some ?n"
    using c w by (simp_all add: panic_simps wrap_simps)
  obtain b' where b': "scanBlocks kern ix q ?n ?e ?s 0 b = Some b'" "best_ok b'"
    "pairs b' = topk (pairs b) (map (candAt ix q) [?s * 8..<?s * 8 + ?n])"
    using scanBlocks_spec [OF wf q, of ?e ?n b 0 ?s] b w(1) by (auto simp: wf_cluster_def)
  show ?thesis
  proof (cases "?n = 0")
    case True
    then show ?thesis using b by (simp add: scanCluster_def r cand_def rows_def)
  next
    case False
    then show ?thesis using b' by (simp add: scanCluster_def r cand_def rows_def)
  qed
qed

end

lemma wf_rows:
  assumes "wf_index ix" "c < IxK ix" "j \<in> set (rows ix c)"
  shows "j < IxNBlocks ix * 8"
proof -
  have "wf_cluster ix c" using assms by (simp add: wf_index_def)
  then have "BlockOffsets ix ! c * 8 + Counts ix ! c \<le> IxNBlocks ix * 8"
    unfolding wf_cluster_def by linarith
  then show ?thesis using assms(3) by (simp add: rows_def)
qed

lemma wf_labels:
  assumes "wf_index ix" "c < IxK ix"
  shows "\<forall>x \<in> set (cand ix q c). snd x \<le> 1"
proof -
  have "length (Labels ix) = IxNBlocks ix * 8" "\<forall>l \<in> set (Labels ix). l \<le> 1"
    using assms by (auto simp: wf_index_def)
  then show ?thesis using wf_rows [OF assms] by (auto simp: cand_def candAt_def)
qed

lemma bbox_skip:
  assumes wf: "wf_index ix" and c: "c < IxK ix" "Counts ix ! c \<noteq> 0" and b: "best_ok b"
    and far: "bboxDist q ix c \<ge> bestD b ! 4"
  shows "topk (pairs b) (cand ix q c) = pairs b"
proof (rule topk_skip)
  have w: "\<forall>j \<in> set (rows ix c). in_box ix c (vecAt ix j)" using wf c by (simp add: wf_index_def wf_cluster_def)
  show "\<forall>x \<in> set (cand ix q c). fst (pairs b ! 4) \<le> fst x"
  proof
    fix x assume "x \<in> set (cand ix q c)"
    then obtain j where j: "j \<in> set (rows ix c)" "fst x = sqdist q (vecAt ix j)" by (auto simp: cand_def candAt_def)
    then have "bboxDist q ix c \<le> fst x"
      using w by (auto simp: in_box_def intro!: bboxDist_le_sqdist)
    then show "fst (pairs b ! 4) \<le> fst x" using far best_ok_fifth [OF b] by simp
  qed
qed (use sorted_pairs [OF b] in simp_all)

definition live :: "Index \<Rightarrow> nat \<Rightarrow> bool" where
  "live ix c \<longleftrightarrow> c < IxK ix \<and> Counts ix ! c \<noteq> 0"

lemma length_markSeen [simp]: "length (markSeen ps m) = length m"
  by (induction ps m rule: markSeen.induct) (simp_all add: Let_def)

lemma bit_markSeen:
  assumes "\<forall>p \<in> set ps. Cluster p < 4096" "length m = 64" "c < 4096"
  shows "bit (markSeen ps m ! (c div 64)) (c mod 64) \<longleftrightarrow> bit (m ! (c div 64)) (c mod 64) \<or> c \<in> Cluster ` set ps"
  using assms
proof (induction ps arbitrary: m)
  case (Cons p ps)
  let ?w = "Cluster p div 64" and ?b = "Cluster p mod 64"
  let ?m = "m[?w := or (m ! ?w) (push_bit ?b 1)]"
  have p: "Cluster p \<noteq> maxU32" "?w < 64" using Cons.prems by (auto simp: maxU32_def)
  have same: "c = Cluster p \<longleftrightarrow> c div 64 = ?w \<and> c mod 64 = ?b" by (metis div_mult_mod_eq)
  have "bit (?m ! (c div 64)) (c mod 64) \<longleftrightarrow> bit (m ! (c div 64)) (c mod 64) \<or> c = Cluster p"
    unfolding same using Cons.prems(2,3) p(2)
    by (auto simp: nth_list_update bit_or_iff bit_exp_iff)
  then show ?case using Cons.IH [of ?m] Cons.prems p by (simp add: Let_def)
qed simp

context kernel_spec
begin

lemma scan_or_skip:
  assumes wf: "wf_index ix" and q: "query_ok q" and b: "good b" and c: "live ix c"
  shows "bboxLowerBoundFast kern q ix c = Some (bboxDist q ix c)"
    "bboxDist q ix c \<ge> bestD b ! 4 \<Longrightarrow> topk (pairs b) (cand ix q c) = pairs b"
    "\<exists>b'. scanCluster kern ix q c b = Some b' \<and> good b' \<and> pairs b' = topk (pairs b) (cand ix q c)"
proof -
  have c': "c < IxK ix" "Counts ix ! c \<noteq> 0" "bbox_ok ix c"
    using c wf by (auto simp: live_def wf_index_def wf_cluster_def)
  have b': "best_ok b" using b by (simp add: good_def)
  show "bboxLowerBoundFast kern q ix c = Some (bboxDist q ix c)" by (rule bbox_exact [OF q c'(3)])
  show "bboxDist q ix c \<ge> bestD b ! 4 \<Longrightarrow> topk (pairs b) (cand ix q c) = pairs b"
    by (rule bbox_skip [OF wf c'(1,2) b'])
  show "\<exists>b'. scanCluster kern ix q c b = Some b' \<and> good b' \<and> pairs b' = topk (pairs b) (cand ix q c)"
    using scanCluster_spec [OF wf q b' c'(1)] good_topk [OF b] wf_labels [OF wf c'(1)] by blast
qed

lemma repairFast_spec:
  assumes wf: "wf_index ix" and q: "query_ok q" and "good b" "\<forall>p \<in> set ps. live ix (Cluster p)"
  shows "\<exists>b'. repairFast kern ix q ps b = Some b' \<and> good b' \<and>
    pairs b' = fast_spec ix q (map Cluster ps) (pairs b)"
  using assms(3,4)
proof (induction ps arbitrary: b)
  case (Cons p ps)
  let ?c = "Cluster p"
  have live: "live ix ?c" "\<forall>p \<in> set ps. live ix (Cluster p)" using Cons.prems by simp_all
  note step = scan_or_skip [OF wf q Cons.prems(1) live(1)]
  have m: "?c \<noteq> maxU32" using live(1) wf by (auto simp: live_def wf_index_def maxU32_def)
  have f4: "fst (pairs b ! 4) = bestD b ! 4" using Cons.prems(1) best_ok_fifth [of b] by (simp add: good_def)
  show ?case
  proof (cases "bboxDist q ix ?c \<ge> bestD b ! 4")
    case True
    then show ?thesis using step Cons.IH [OF Cons.prems(1) live(2)] m f4 by (simp add: Let_def)
  next
    case False
    obtain b' where b': "scanCluster kern ix q ?c b = Some b'" "good b'" "pairs b' = topk (pairs b) (cand ix q ?c)"
      using step(3) by blast
    have "bestD b' ! 4 = fst (pairs b' ! 4)" using b'(2) best_ok_fifth [of b'] by (simp add: good_def)
    then show ?thesis
      using False step(1) Cons.IH [OF b'(2) live(2)] m f4 b' count_frauds [OF b'(2)] by (auto simp: Let_def)
  qed
qed (simp add: good_def)

lemma fullLoop_spec:
  assumes wf: "wf_index ix" and q: "query_ok q" and "good b" "\<forall>c \<in> set cs. c < IxK ix" and len: "length m = 64"
  shows "\<exists>b'. fullLoop kern ix q m cs b = Some b' \<and> good b' \<and>
    pairs b' = topk (pairs b) (concat (map (cand ix q) (filter (\<lambda>c. \<not> bit (m ! (c div 64)) (c mod 64)) cs)))"
  using assms(3,4)
proof (induction cs arbitrary: b)
  case (Cons c cs)
  have c: "c < IxK ix" "c < 4096" "\<forall>c \<in> set cs. c < IxK ix" "length (Counts ix) = IxK ix"
    using Cons.prems wf by (auto simp: wf_index_def)
  have r: "read_at (Counts ix) c = Some (Counts ix ! c)" "read_at m (c div 64) = Some (m ! (c div 64))"
    using c len by (simp_all add: panic_simps)
  have bit: "and (drop_bit (c mod 64) (m ! (c div 64))) 1 \<noteq> 0 \<longleftrightarrow> bit (m ! (c div 64)) (c mod 64)"
    by (simp add: bit_iff_and_drop_bit_eq_1 and_one_eq)
  note IH = Cons.IH [OF Cons.prems(1) c(3)]
  consider (empty) "Counts ix ! c = 0" | (seen) "Counts ix ! c \<noteq> 0" "bit (m ! (c div 64)) (c mod 64)"
    | (todo) "live ix c" "Counts ix ! c \<noteq> 0" "\<not> bit (m ! (c div 64)) (c mod 64)"
    using c(1) by (auto simp: live_def)
  then show ?case
  proof cases
    case empty
    then have "cand ix q c = []" by (simp add: cand_def rows_def)
    then show ?thesis using IH empty r by simp
  next
    case seen
    then show ?thesis using IH r bit by simp
  next
    case todo
    note step = scan_or_skip [OF wf q Cons.prems(1) todo(1)]
    show ?thesis
    proof (cases "bboxDist q ix c \<ge> bestD b ! 4")
      case True
      then show ?thesis using IH r bit todo step by (simp add: topk_append)
    next
      case False
      obtain b' where b': "scanCluster kern ix q c b = Some b'" "good b'" "pairs b' = topk (pairs b) (cand ix q c)"
        using step(3) by blast
      then show ?thesis using False Cons.IH [OF b'(2) c(3)] r bit todo step(1) by (simp add: topk_append)
    qed
  qed
qed simp

end

section \<open>The probe phase\<close>

lemma probeLanes_spec:
  assumes "\<forall>l \<in> set lanes. base + l < length (Counts ix) \<and> l < length dists" "length (Counts ix) \<le> 4096"
  shows "probeLanes ix dists base lanes st =
    Some (insertAll st (map (\<lambda>l. (base + l, dists ! l)) (filter (\<lambda>l. Counts ix ! (base + l) \<noteq> 0) lanes)))"
  using assms
proof (induction lanes arbitrary: st)
  case (Cons l lanes)
  have "u32 (base + l) = base + l" using Cons.prems by (intro u32_id) simp
  then show ?case using Cons by (simp add: panic_simps)
qed simp

lemma offered_append: "offered ix q (xs @ ys) = offered ix q xs @ offered ix q ys"
  by (simp add: offered_def)

context kernel_spec
begin

lemma probeBlocks_spec:
  assumes wf: "wf_index ix" and q: "query_ok q" and "cb \<le> NCentroidBlk ix"
  shows "probeBlocks kern ix q [cb..<NCentroidBlk ix] st = Some (insertAll st (offered ix q [cb * 8..<IxK ix]))"
  using assms(3)
proof (induction "NCentroidBlk ix - cb" arbitrary: cb st)
  case 0
  then show ?case using wf by (simp add: wf_index_def offered_def)
next
  case (Suc n)
  have w: "IxK ix \<le> 4096" "NCentroidBlk ix = (IxK ix + 7) div 8" "length (Centroids ix) = NCentroidBlk ix * 128"
    "in_range (Centroids ix)" "length (Counts ix) = IxK ix" using wf by (auto simp: wf_index_def)
  have cb: "cb < NCentroidBlk ix" "n = NCentroidBlk ix - (cb + 1)" using Suc.hyps(2) by simp_all
  then have lt: "cb * 8 < IxK ix" using w(2) by linarith
  have "(cb + 1) * 128 \<le> NCentroidBlk ix * 128" using cb(1) by (intro mult_le_mono1) simp
  then have "block_ok (Centroids ix) cb" using w by (simp add: block_ok_def)
  note d = blkDist_exact [OF q this]
  let ?rem = "IxK ix - cb * 8" and ?d = "blockDists (Centroids ix) cb q"
  let ?n = "min 8 ?rem"
  have u: "u32 (u32 cb * 8) = cb * 8" "u32_sub (u32 (IxK ix)) (cb * 8) = ?rem"
    using lt w(1) by (simp_all add: wrap_simps)
  have lanes: "probeLanes ix ?d (cb * 8) [0..<?n] st =
      Some (insertAll st (map (\<lambda>l. (cb * 8 + l, ?d ! l)) (filter (\<lambda>l. Counts ix ! (cb * 8 + l) \<noteq> 0) [0..<?n])))"
    by (rule probeLanes_spec) (use w in \<open>auto simp: blockDists_def\<close>)
  have now: "map (\<lambda>l. (cb * 8 + l, ?d ! l)) (filter (\<lambda>l. Counts ix ! (cb * 8 + l) \<noteq> 0) [0..<?n])
      = offered ix q (map (\<lambda>l. cb * 8 + l) [0..<?n])"
    by (auto simp: offered_def filter_map comp_def centroidDist_def blockDists_def)
  have "[cb * 8..<IxK ix] = map (\<lambda>l. cb * 8 + l) [0..<?n] @ [(cb + 1) * 8..<(cb + 1) * 8 + (?rem - ?n)]"
    using upt_split_block [of cb ?rem] lt by simp
  also have "[(cb + 1) * 8..<(cb + 1) * 8 + (?rem - ?n)] = [(cb + 1) * 8..<IxK ix]"
    by (cases "?rem < 8") (simp_all add: min_def)
  finally have rows: "[cb * 8..<IxK ix] = map (\<lambda>l. cb * 8 + l) [0..<?n] @ [(cb + 1) * 8..<IxK ix]" .
  let ?st = "insertAll st (offered ix q (map (\<lambda>l. cb * 8 + l) [0..<?n]))"
  have "probeBlocks kern ix q [cb..<NCentroidBlk ix] st = probeBlocks kern ix q [cb + 1..<NCentroidBlk ix] ?st"
    using cb(1) d lanes [unfolded now] by (simp add: upt_conv_Cons u Let_def)
  also have "\<dots> = Some (insertAll ?st (offered ix q [(cb + 1) * 8..<IxK ix]))"
    by (rule Suc.hyps(1) [OF cb(2)]) (use cb(1) in simp)
  finally show ?case unfolding rows offered_append foldl_append .
qed

end

lemma probeList_nearest:
  fixes ix q
  defines "st \<equiv> insertAll probes0 (offered ix q [0..<IxK ix])"
  shows "nearest 33 (mset (map (\<lambda>(c, d). \<lparr>Cluster = c, Dist = d\<rparr>) (offered ix q [0..<IxK ix]))) (mset (probeList ix q))"
    "sorted (map Dist (probeList ix q))" "probeList ix q = take (snd st) (heapToSorted (fst st) (snd st))"
    "length (probeList ix q) = snd st"
proof -
  have st: "heap_invar st" "nearest 33 (mset (map (\<lambda>(c, d). \<lparr>Cluster = c, Dist = d\<rparr>) (offered ix q [0..<IxK ix]))) (heap_contents st)"
    using probes.insert_all_empty [of "offered ix q [0..<IxK ix]"] by (simp_all add: insert_all_eq st_def)
  show eq: "probeList ix q = take (snd st) (heapToSorted (fst st) (snd st))"
    by (simp add: probeList_def st_def Let_def)
  have h: "is_heap (fst st) (snd st)" "snd st \<le> length (fst st)" using st(1) by (simp_all add: heap_invar_def)
  have t: "sorted_tail (fst st) (snd st) (snd st)" by (simp add: sorted_tail_def)
  note c = heapToSorted_correct [OF h(1) order_refl h(2) t]
  show "sorted (map Dist (probeList ix q))" "length (probeList ix q) = snd st"
    unfolding eq using c h(2) by simp_all
  show "nearest 33 (mset (map (\<lambda>(c, d). \<lparr>Cluster = c, Dist = d\<rparr>) (offered ix q [0..<IxK ix]))) (mset (probeList ix q))"
    using st(2) c unfolding eq heap_contents_def by simp
qed

lemma probeList_live: "p \<in> set (probeList ix q) \<Longrightarrow> live ix (Cluster p)"
proof -
  assume "p \<in> set (probeList ix q)"
  moreover have "mset (probeList ix q) \<subseteq># mset (map (\<lambda>(c, d). \<lparr>Cluster = c, Dist = d\<rparr>) (offered ix q [0..<IxK ix]))"
    using probeList_nearest(1) by (simp add: nearest_def)
  ultimately have "p \<in> set (map (\<lambda>(c, d). \<lparr>Cluster = c, Dist = d\<rparr>) (offered ix q [0..<IxK ix]))"
    by (metis mset_subset_eqD set_mset_mset)
  then show ?thesis by (auto simp: offered_def live_def)
qed

section \<open>The code implements the specification\<close>

context kernel_spec
begin

lemma scanProbes_spec:
  assumes wf: "wf_index ix" and q: "query_ok q" and "good b" "\<forall>p \<in> set ps. live ix (Cluster p)"
  shows "\<exists>b'. scanProbes kern ix q ps b = Some b' \<and> good b' \<and>
    pairs b' = topk (pairs b) (concat (map (cand ix q) (map Cluster ps)))"
  using assms(3,4)
proof (induction ps arbitrary: b)
  case (Cons p ps)
  obtain b' where b': "scanCluster kern ix q (Cluster p) b = Some b'" "good b'"
    "pairs b' = topk (pairs b) (cand ix q (Cluster p))"
    using scan_or_skip(3) [OF wf q Cons.prems(1)] Cons.prems(2) by auto
  then show ?case using Cons.IH [OF b'(2)] Cons.prems(2) by (simp add: topk_append)
qed simp

lemma repairFull_spec:
  assumes wf: "wf_index ix" and q: "query_ok q" and "good b" "\<forall>p \<in> set ps. live ix (Cluster p)"
  shows "\<exists>b'. repairFull kern ix q ps b = Some b' \<and> good b' \<and>
    pairs b' = topk (pairs b) (concat (map (cand ix q) (filter (\<lambda>c. c \<notin> Cluster ` set ps) [0..<IxK ix])))"
proof -
  let ?m = "markSeen ps (replicate 64 0)"
  have K: "IxK ix \<le> 4096" using wf by (simp add: wf_index_def)
  have ps: "\<forall>p \<in> set ps. Cluster p < 4096" using assms(4) K by (auto simp: live_def)
  have "bit (?m ! (c div 64)) (c mod 64) \<longleftrightarrow> c \<in> Cluster ` set ps" if "c < IxK ix" for c
    using bit_markSeen [OF ps, of "replicate 64 0" c] that K by simp
  then have "filter (\<lambda>c. \<not> bit (?m ! (c div 64)) (c mod 64)) [0..<IxK ix] = filter (\<lambda>c. c \<notin> Cluster ` set ps) [0..<IxK ix]"
    by (intro filter_cong) auto
  moreover have "u32 (IxK ix) = IxK ix" using K by (simp add: wrap_simps)
  ultimately show ?thesis
    using fullLoop_spec [OF wf q assms(3), of "[0..<IxK ix]" ?m] by (simp add: repairFull_def)
qed

lemma ScoreQ_spec:
  assumes wf: "wf_index ix" and q: "query_ok q"
  shows "ScoreQ kern ix q = Some (search_spec ix q)"
proof -
  let ?st = "insertAll probes0 (offered ix q [0..<IxK ix])" and ?ps = "probeList ix q"
  have st: "probeBlocks kern ix q [0..<NCentroidBlk ix] probes0 = Some ?st"
    using probeBlocks_spec [OF wf q, of 0] by simp
  have ps: "take (snd ?st) (heapToSorted (fst ?st) (snd ?st)) = ?ps"
    using probeList_nearest(3) by simp
  then have ps1: "take (min (Suc 0) (snd ?st)) (heapToSorted (fst ?st) (snd ?st)) = take 1 ?ps"
    by (metis One_nat_def take_take)
  have live: "\<forall>p \<in> set (take 1 ?ps). live ix (Cluster p)" "\<forall>p \<in> set (drop 1 ?ps). live ix (Cluster p)"
    "\<forall>p \<in> set ?ps. live ix (Cluster p)"
    using probeList_live set_take_subset set_drop_subset by fast+
  obtain b1 where b1: "scanProbes kern ix q (take 1 ?ps) best0 = Some b1" "good b1"
    "pairs b1 = topk (pairs best0) (concat (map (cand ix q) (map Cluster (take 1 ?ps))))"
    using scanProbes_spec [OF wf q good_best0 live(1)] by blast
  have P1: "pairs b1 = best_five (concat (map (cand ix q) (take 1 (map Cluster ?ps))))"
    using b1(3) topk_best_five [of "[]"] best_ok_best0(2) by (simp add: take_map)
  obtain b2 where b2: "repairFast kern ix q (drop 1 ?ps) b1 = Some b2" "good b2"
    "pairs b2 = fast_spec ix q (drop 1 (map Cluster ?ps)) (pairs b1)"
    using repairFast_spec [OF wf q b1(2) live(2)] by (auto simp: drop_map)
  obtain b3 where b3: "repairFull kern ix q ?ps b2 = Some b3" "good b3"
    "pairs b3 = topk (pairs b2) (concat (map (cand ix q) (filter (\<lambda>c. c \<notin> set (map Cluster ?ps)) [0..<IxK ix])))"
    using repairFull_spec [OF wf q b2(2) live(3)] by auto
  have f: "bestD b1 ! 4 = fst (pairs b1 ! 4)" using b1(2) best_ok_fifth [of b1] by (simp add: good_def)
  show ?thesis
    using b1(1) b2(1) b3(1) P1 b2(3) b3(3) f count_frauds [OF b1(2)] count_frauds [OF b2(2)] count_frauds [OF b3(2)]
    by (simp add: ScoreQ_def search_spec_def st ps ps1 Let_def)
qed

end

section \<open>When the search is exhaustive\<close>

lemma fst_take_ins:
  assumes "sorted_cands P" "length P = 5"
  shows "fst (take 5 (ins x P) ! 4) \<le> fst (P ! 4)"
proof (cases "fst (P ! 4) \<le> fst x")
  case True
  then show ?thesis using take_ins_skip [OF assms] by simp
next
  case False
  have P: "P = take 4 P @ [P ! 4]" using assms(2) take_Suc_conv_app_nth [of 4 P] by simp
  have "ins x P = ins x (take 4 P) @ [P ! 4]" using False by (subst P) (simp add: ins_append_greater)
  then have "ins x P ! 5 = P ! 4" using assms(2) by (simp add: nth_append)
  moreover have "map fst (ins x P) ! 4 \<le> map fst (ins x P) ! 5"
    using sorted_ins [OF assms(1)] assms(2) by (intro sorted_nth_mono) simp_all
  ultimately show ?thesis using assms(2) by simp
qed

lemma fifth_append: "fifth (xs @ ys) \<le> fifth xs"
proof (induction ys arbitrary: xs)
  case (Cons y ys)
  have "fifth (xs @ [y]) \<le> fifth xs"
    using fst_take_ins [OF sorted_best_five length_best_five, of y xs]
    unfolding topk_best_five [of xs "[y]", unfolded topk_Cons topk_Nil] fifth_best_five .
  then show ?case using Cons.IH [of "xs @ [y]"] by simp
qed simp

lemma fast_spec_far:
  "EarlyDist < fifth (xs @ concat (map (cand ix q) cs)) \<Longrightarrow>
     fast_spec ix q cs (best_five xs) = best_five (xs @ concat (map (cand ix q) cs))"
proof (induction cs arbitrary: xs)
  case (Cons c cs)
  have "fifth (xs @ concat (map (cand ix q) (c # cs))) \<le> fifth (xs @ cand ix q c)"
    using fifth_append [of "xs @ cand ix q c"] by simp
  then have "\<not> fst (best_five (xs @ cand ix q c) ! 4) \<le> EarlyDist"
    using Cons.prems by (simp add: fifth_best_five)
  then show ?case using Cons.IH [of "xs @ cand ix q c"] Cons.prems by (simp add: topk_best_five Let_def)
qed simp

lemma fast_spec_prefix:
  "\<exists>n. fast_spec ix q cs (best_five xs) = best_five (xs @ concat (map (cand ix q) (take n cs)))"
proof (induction cs arbitrary: xs)
  case (Cons c cs)
  obtain n where n: "fast_spec ix q cs (best_five (xs @ cand ix q c)) =
      best_five ((xs @ cand ix q c) @ concat (map (cand ix q) (take n cs)))"
    using Cons.IH by blast
  have "best_five (xs @ cand ix q c) = best_five (xs @ concat (map (cand ix q) (take (Suc 0) (c # cs))))" by simp
  moreover have "fast_spec ix q cs (best_five (xs @ cand ix q c)) =
      best_five (xs @ concat (map (cand ix q) (take (Suc n) (c # cs))))" using n by simp
  ultimately show ?case by (simp only: fast_spec.simps topk_best_five Let_def split: if_split) blast
qed simp

lemma distinct_submset: "mset xs \<subseteq># mset ys \<Longrightarrow> distinct ys \<Longrightarrow> distinct xs"
  unfolding distinct_count_atmost_1
  by (metis count_eq_zero_iff le_antisym mset_subset_eqD mset_subset_eq_count not_less_eq_eq One_nat_def set_mset_mset le_zero_eq)

lemma distinct_probeList: "distinct (map Cluster (probeList ix q))"
proof -
  let ?xs = "map (\<lambda>(c, d). \<lparr>Cluster = c, Dist = d\<rparr>) (offered ix q [0..<IxK ix])"
  have "image_mset Cluster (mset (probeList ix q)) \<subseteq># image_mset Cluster (mset ?xs)"
    using probeList_nearest(1) by (intro image_mset_subseteq_mono) (simp add: nearest_def)
  moreover have "map Cluster ?xs = filter (\<lambda>c. Counts ix ! c \<noteq> 0) [0..<IxK ix]"
    by (simp add: offered_def comp_def)
  ultimately have "mset (map Cluster (probeList ix q)) \<subseteq># mset (filter (\<lambda>c. Counts ix ! c \<noteq> 0) [0..<IxK ix])"
    by (metis mset_map)
  moreover have "distinct (filter (\<lambda>c. Counts ix ! c \<noteq> 0) [0..<IxK ix])" by simp
  ultimately show ?thesis by (rule distinct_submset)
qed

lemma mset_concat_map: "mset xs = mset ys \<Longrightarrow> mset (concat (map f xs)) = mset (concat (map f ys))"
  by (simp add: mset_concat) (metis mset_map sum_mset_sum_list)

lemma all_cands_split:
  fixes ix q
  defines "cs \<equiv> map Cluster (probeList ix q)"
  shows "mset (concat (map (cand ix q) cs) @ concat (map (cand ix q) (filter (\<lambda>c. c \<notin> set cs) [0..<IxK ix])))
     = mset (all_cands ix q)"
proof -
  let ?rest = "filter (\<lambda>c. c \<notin> set cs) [0..<IxK ix]"
  have "set cs \<subseteq> {0..<IxK ix}" using probeList_live by (fastforce simp: cs_def live_def)
  then have "set (cs @ ?rest) = set [0..<IxK ix]" by auto
  moreover have "distinct (cs @ ?rest)" using distinct_probeList by (auto simp: cs_def)
  ultimately have "mset (cs @ ?rest) = mset [0..<IxK ix]"
    using set_eq_iff_mset_eq_distinct distinct_upt by blast
  from mset_concat_map [OF this, of "cand ix q"] show ?thesis by (simp add: all_cands_def)
qed

lemma sqdist_bound:
  assumes "query_ok q" "block_ok v b" "l < 8"
  shows "sqdist q (vecOf v b l) < maxI64"
  using psum_bound [OF assms, of 8] unfolding psum_8 maxI64_def by simp

lemma all_cands_finite:
  assumes "wf_index ix" "query_ok q"
  shows "\<forall>x \<in> set (all_cands ix q). fst x < maxI64"
proof -
  have "sqdist q (vecAt ix j) < maxI64" if c: "c < IxK ix" and j: "j \<in> set (rows ix c)" for c j
  proof -
    have "j < IxNBlocks ix * 8" by (rule wf_rows [OF assms(1) c j])
    then have "block_ok (Vectors ix) (j div 8)" by (intro wf_block_ok [OF assms(1)]) (simp add: less_mult_imp_div_less)
    then show ?thesis unfolding vecAt_def by (intro sqdist_bound [OF assms(2)]) simp_all
  qed
  then show ?thesis by (auto simp: all_cands_def cand_def candAt_def)
qed

lemma search_spec_far:
  assumes wf: "wf_index ix" and q: "query_ok q" and far: "EarlyDist < fifth (all_cands ix q)"
    and tie: "length (within_fifth (all_cands ix q)) \<le> 5" and r: "search_spec ix q \<le> 4"
  shows "search_spec ix q = vote (all_cands ix q)"
proof -
  define cs where "cs = map Cluster (probeList ix q)"
  let ?seen = "concat (map (cand ix q) cs)" and ?p1 = "concat (map (cand ix q) (take 1 cs))"
  let ?rest = "concat (map (cand ix q) (filter (\<lambda>c. c \<notin> set cs) [0..<IxK ix]))"
  have perm: "mset (?seen @ ?rest) = mset (all_cands ix q)" using all_cands_split by (simp add: cs_def)
  have seen: "?p1 @ concat (map (cand ix q) (drop 1 cs)) = ?seen"
    by (metis append_take_drop_id concat_append map_append)
  have f2: "EarlyDist < fifth ?seen"
    using far fifth_append [of ?seen ?rest] fifth_perm [OF perm] by simp
  then have f1: "EarlyDist < fifth ?p1"
    using fifth_append [of ?p1 "concat (map (cand ix q) (drop 1 cs))"] seen by simp
  have P2: "fast_spec ix q (drop 1 cs) (best_five ?p1) = best_five ?seen"
    using fast_spec_far [of ?p1 ix q "drop 1 cs"] f2 seen by simp
  have "search_spec ix q = (if frauds (best_five ?seen) \<le> 4 then frauds (best_five (?seen @ ?rest)) else frauds (best_five ?seen))"
    unfolding search_spec_def Let_def cs_def [symmetric] P2 topk_best_five fifth_best_five using f1 by simp
  then have "search_spec ix q = frauds (best_five (?seen @ ?rest))" using r by (simp split: if_splits)
  also have "\<dots> = vote (?seen @ ?rest)"
    unfolding frauds_def
  proof (rule best_five_vote)
    show "\<forall>x \<in> set (?seen @ ?rest). fst x < maxI64"
      using all_cands_finite [OF wf q] mset_eq_setD [OF perm] by simp
    have "length (within_fifth (?seen @ ?rest)) = length (within_fifth (all_cands ix q))"
      unfolding within_fifth_def fifth_perm [OF perm] by (metis perm mset_filter size_mset)
    then show "length (within_fifth (?seen @ ?rest)) \<le> 5" using tie by simp
  qed
  finally show ?thesis using vote_perm [OF perm] by simp
qed

lemma topk_sort: "topk (take 5 (sort_key fst xs)) ys = take 5 (sort_key fst (xs @ ys))"
proof (induction ys arbitrary: xs)
  case (Cons y ys)
  have "take 5 (ins y (take 5 (sort_key fst xs))) = take 5 (sort_key fst (xs @ [y]))"
    unfolding take_ins ins_sort_key ..
  then show ?case using Cons.IH [of "xs @ [y]"] by simp
qed simp

lemma topk_is_sort: "sorted_cands P \<Longrightarrow> length P = 5 \<Longrightarrow> topk P ys = take 5 (sort_key fst (P @ ys))"
  using topk_sort [of P ys] by (simp add: sort_key_id_if_sorted)

lemma no_probes_empty:
  assumes "probeList ix q = []" "c < IxK ix"
  shows "cand ix q c = []"
proof -
  have "size (mset (probeList ix q)) = 0" using assms(1) by simp
  then have "offered ix q [0..<IxK ix] = []" using probeList_nearest(1) [of ix q] by (simp add: nearest_def min_def split: if_splits)
  then have "Counts ix ! c = 0" using assms(2) by (auto simp: offered_def filter_empty_conv)
  then show ?thesis by (simp add: cand_def rows_def)
qed

text \<open>The probes first and then all other clusters: no cluster twice, the nearest one in front.\<close>

lemma visits_ok:
  assumes "distinct cs" "set cs \<subseteq> {..<K'}" "cs \<noteq> [] \<or> rest = []" "0 < n" "distinct rest" "set rest \<subseteq> {..<K'} - set cs"
  shows "distinct (take n cs @ rest) \<and> set (take n cs @ rest) \<subseteq> {..<K'} \<and> take 1 (take n cs @ rest) = take 1 cs"
  using assms by (cases cs; cases n) (auto dest: in_set_takeD)

lemma search_spec_visits:
  assumes "wf_index ix" "query_ok q"
  shows "\<exists>vs. distinct vs \<and> set vs \<subseteq> {..<IxK ix} \<and> take 1 vs = take 1 (map Cluster (probeList ix q)) \<and>
    search_spec ix q = frauds (best_five (concat (map (cand ix q) vs)))"
proof -
  define cs where "cs = map Cluster (probeList ix q)"
  have d: "distinct cs" "set cs \<subseteq> {..<IxK ix}"
    using distinct_probeList probeList_live by (fastforce simp: cs_def live_def)+
  let ?p1 = "concat (map (cand ix q) (take 1 cs))"
  let ?rest = "filter (\<lambda>c. c \<notin> set cs) [0..<IxK ix]"
  obtain n where n: "fast_spec ix q (drop 1 cs) (best_five ?p1) =
      best_five (?p1 @ concat (map (cand ix q) (take n (drop 1 cs))))"
    using fast_spec_prefix by blast
  have "take 1 cs @ take n (drop 1 cs) = take (1 + n) cs" by (metis take_add)
  then have n': "?p1 @ concat (map (cand ix q) (take n (drop 1 cs))) = concat (map (cand ix q) (take (1 + n) cs))"
    by (metis concat_append map_append)
  let ?ok = "\<lambda>vs. distinct vs \<and> set vs \<subseteq> {..<IxK ix} \<and> take 1 vs = take 1 cs"
  have ok0: "?ok (take 1 cs)" and ok1: "?ok (take (1 + n) cs)"
    using visits_ok [OF d, of "[]" 1] visits_ok [OF d, of "[]" "1 + n"] by simp_all
  have ok2: "?ok (take (1 + n) cs @ ?rest)" if "cs \<noteq> []"
    using visits_ok [OF d, of ?rest "1 + n"] that by auto
  have eq: "search_spec ix q =
      (if frauds (best_five ?p1) = 5 \<and> fst (best_five ?p1 ! 4) \<le> EarlyDist then 5
       else if frauds (best_five (concat (map (cand ix q) (take (1 + n) cs)))) \<le> 4
       then frauds (best_five (concat (map (cand ix q) (take (1 + n) cs @ ?rest))))
       else frauds (best_five (concat (map (cand ix q) (take (1 + n) cs)))))"
    unfolding search_spec_def Let_def cs_def [symmetric] n n' topk_best_five map_append concat_append ..
  consider "search_spec ix q = frauds (best_five ?p1)"
    | "search_spec ix q = frauds (best_five (concat (map (cand ix q) (take (1 + n) cs))))"
    | "search_spec ix q = frauds (best_five (concat (map (cand ix q) (take (1 + n) cs @ ?rest))))"
    using eq by presburger
  then have "\<exists>vs. ?ok vs \<and> search_spec ix q = frauds (best_five (concat (map (cand ix q) vs)))"
  proof cases
    case 3
    show ?thesis
    proof (cases "cs = []")
      case True
      then have "concat (map (cand ix q) (take (1 + n) cs @ ?rest)) = []" using no_probes_empty [of ix q] by (auto simp: cs_def)
      then have "search_spec ix q = frauds (best_five (concat (map (cand ix q) [])))"
        using 3 by (simp only: list.map concat.simps)
      then show ?thesis using True by (intro exI [of _ "[]"]) simp
    qed (use 3 ok2 in blast)
  qed (use ok0 ok1 in blast)+
  then show ?thesis by (simp only: cs_def conj_assoc)
qed

lemma first_probe_nearest:
  assumes "live ix c"
  shows "\<exists>c0. take 1 (map Cluster (probeList ix q)) = [c0] \<and> centroidDist ix q c0 \<le> centroidDist ix q c"
proof -
  let ?xs = "mset (map (\<lambda>(c, d). \<lparr>Cluster = c, Dist = d\<rparr>) (offered ix q [0..<IxK ix]))"
  let ?p = "\<lparr>Cluster = c, Dist = centroidDist ix q c\<rparr>"
  note N = probeList_nearest(1) [of ix q, unfolded nearest_def]
  have p: "?p \<in># ?xs" using assms by (force simp: live_def offered_def)
  then have "size ?xs \<noteq> 0" by (metis empty_iff set_mset_empty size_eq_0_iff_empty)
  then have "size (mset (probeList ix q)) \<noteq> 0" using N by simp
  then obtain p0 ps where ps: "probeList ix q = p0 # ps" by (cases "probeList ix q") auto
  have "p0 \<in># ?xs" using N ps by (metis list.set_intros(1) mset_subset_eqD set_mset_mset)
  then have d0: "Dist p0 = centroidDist ix q (Cluster p0)" by (auto simp: offered_def)
  have "Dist p0 \<le> Dist ?p"
  proof (cases "?p \<in># mset (probeList ix q)")
    case True
    then show ?thesis using probeList_nearest(2) [of ix q] by (auto simp: ps)
  next
    case False
    then have "?p \<in># ?xs - mset (probeList ix q)" using p by (metis in_diff_count count_eq_zero_iff count_greater_zero_iff)
    then show ?thesis using N ps by auto
  qed
  then show ?thesis using ps d0 by simp
qed

lemma search_spec_le:
  assumes "wf_index ix" "query_ok q"
  shows "search_spec ix q \<le> 5"
proof -
  obtain vs where vs: "set vs \<subseteq> {..<IxK ix}" "search_spec ix q = frauds (best_five (concat (map (cand ix q) vs)))"
    using search_spec_visits [OF assms] by blast
  have "x \<le> 1" if "x \<in> set (map snd (best_five (concat (map (cand ix q) vs))))" for x
  proof -
    obtain y where y: "y \<in> set (best_five (concat (map (cand ix q) vs)))" "x = snd y" using \<open>x \<in> _\<close> by auto
    then have "y \<in> set (sentinels @ concat (map (cand ix q) vs))"
      by (metis best_five_def in_set_takeD set_sort)
    then show ?thesis using y(2) vs(1) wf_labels [OF assms(1), of _ q] by (auto simp: sentinels_def)
  qed
  then show ?thesis
    unfolding vs(2) frauds_def
    using sum_list_le_length [of "map snd (best_five (concat (map (cand ix q) vs)))"] by simp
qed

section \<open>Properties\<close>

text \<open>(C6) The search refines its specification: on a well-formed index and a quantized query,
  \<open>ScoreQ\<close> of either build never panics and returns the vote of the search that offers every
  row of every cluster it looks at, prunes no block and skips no cluster. Where that search starts and stops is as in
  the code: the probes, the radius \<open>EarlyDist\<close>, and the box test that ends \<open>repairFast\<close> early.\<close>

theorem ScoreQ_refines:
  assumes "wf_index ix" "query_ok q"
  shows "ScoreQ amd64 ix q = Some (search_spec ix q) \<and> ScoreQ portable ix q = Some (search_spec ix q)"
  using avx2.ScoreQ_spec [OF assms] portable.ScoreQ_spec [OF assms] by simp

text \<open>(C9) Exactness of the search outside the early-exit radius: when the fifth nearest row of the
  whole index is farther than \<open>EarlyDist\<close> and is not tied with a sixth, every answer of at
  most four is the number of frauds among the five nearest rows of the whole index.\<close>

theorem ScoreQ_exact:
  assumes "wf_index ix" "query_ok q" "EarlyDist < fifth (all_cands ix q)"
    "length (within_fifth (all_cands ix q)) \<le> 5" "ScoreQ amd64 ix q = Some r" "r \<le> 4"
  shows "r = vote (all_cands ix q)"
  using search_spec_far [OF assms(1-4)] avx2.ScoreQ_spec [OF assms(1,2)] assms(5,6) by simp

text \<open>(C21) Every answer is supported: when some cluster holds a row, the answer is at most five, and it is the number of
  fraud labels among the five nearest rows of some set of clusters that includes a non-empty cluster whose centroid
  is nearest to the query among all non-empty clusters.\<close>

theorem ScoreQ_supported:
  assumes "wf_index ix" "query_ok q" "ScoreQ amd64 ix q = Some r" "\<exists>c < IxK ix. Counts ix ! c \<noteq> 0"
  shows "r \<le> 5 \<and> (\<exists>vs c0. distinct vs \<and> set vs \<subseteq> {..<IxK ix} \<and> c0 \<in> set vs \<and> Counts ix ! c0 \<noteq> 0 \<and>
    (\<forall>c < IxK ix. Counts ix ! c \<noteq> 0 \<longrightarrow> centroidDist ix q c0 \<le> centroidDist ix q c) \<and>
    r = sum_list (map snd (best_five (concat (map (cand ix q) vs)))))"
proof -
  have r: "r = search_spec ix q" using assms(3) avx2.ScoreQ_spec [OF assms(1,2)] by simp
  obtain vs where vs: "distinct vs" "set vs \<subseteq> {..<IxK ix}" "take 1 vs = take 1 (map Cluster (probeList ix q))"
    "search_spec ix q = frauds (best_five (concat (map (cand ix q) vs)))"
    using search_spec_visits [OF assms(1,2)] by blast
  obtain c0 where c0: "take 1 (map Cluster (probeList ix q)) = [c0]"
    using first_probe_nearest [of ix _ q] assms(4) by (auto simp: live_def)
  then have near: "centroidDist ix q c0 \<le> centroidDist ix q c" if "live ix c" for c
    using first_probe_nearest [OF that, of q] by simp
  have "c0 \<in> Cluster ` set (probeList ix q)" using c0 by (cases "probeList ix q") auto
  then have "live ix c0" using probeList_live by fastforce
  moreover have "c0 \<in> set vs" using vs(3) c0 by (metis in_set_takeD list.set_intros(1))
  ultimately show ?thesis using vs near r search_spec_le [OF assms(1,2)] unfolding live_def frauds_def by blast
qed

text \<open>(C12) Scanning a cluster with block pruning is exhaustive: \<open>scanCluster\<close> reads inside its
  slices and leaves the five nearest of the candidates it started with and all rows of the
  cluster, in stable order.\<close>

theorem scanCluster_exhaustive:
  assumes "wf_index ix" "query_ok q" "best_ok b" "c < IxK ix"
  shows "\<exists>b'. scanCluster amd64 ix q c b = Some b' \<and> best_ok b' \<and>
    pairs b' = take 5 (sort_key fst (pairs b @ map (\<lambda>j. (sqdist q (vecAt ix j), Labels ix ! j)) (rows ix c)))"
  using avx2.scanCluster_spec [OF assms] topk_is_sort [of "pairs b"] sorted_pairs [OF assms(3)]
  by (simp add: cand_def candAt_def [abs_def])

section \<open>Sample indexes\<close>

definition pt :: "int \<Rightarrow> int \<Rightarrow> int list" where
  "pt x y = [x, y, 0, 0, 0, 0, 0, 0, 0, 0, 0, 0, 0, 0, 0, 0]"

definition hdr_ex :: Header where
  "hdr_ex = \<lparr>hMagic = Magic, hVersion = Version, hK = 0, hN = 0, hNBlocks = 0, hScale = 0\<rparr>"

definition q_origin :: "int list" where
  "q_origin = replicate 16 0"

definition pad8 :: "int list list \<Rightarrow> int list list" where
  "pad8 vs = vs @ replicate (8 - length vs) (pt 0 0)"

definition far_rows :: "int list list list" where
  "far_rows = [pad8 [pt 5000 0, pt 5001 0, pt 5002 0, pt 5003 0, pt 5004 0, pt 5006 0]]"

definition ix_far :: Index where
  "ix_far = \<lparr>mmap = None, Hdr = hdr_ex, Centroids = pack_blocks [pad8 [pt 5003 0]], NCentroidBlk = 1,
     BBoxMin = pt 5000 0, BBoxMax = pt 5006 0, BlockOffsets = [0, 1], Counts = [6],
     Vectors = pack_blocks far_rows, Labels = [1, 0, 1, 0, 1, 1, 0, 0], IxK = 1, IxN = 6, IxNBlocks = 1\<rparr>"

definition skip_rows :: "int list list list" where
  "skip_rows =
     [pad8 [pt 95 0, pt 95 0, pt 95 0, pt 107 0, pt 108 0],
      pad8 [pt (- 103) 0, pt (- 103) 0, pt (- 103) 0, pt (- 103) 0, pt (- 103) 0],
      pad8 [pt 0 85, pt 0 86, pt 0 87, pt 0 88, pt 0 89, pt 0 388, pt 0 388, pt 0 389]]"

definition ix_skip :: Index where
  "ix_skip = \<lparr>mmap = None, Hdr = hdr_ex,
     Centroids = pack_blocks [pad8 [pt 100 0, pt (- 103) 0, pt 0 200]], NCentroidBlk = 1,
     BBoxMin = pt 95 0 @ pt (- 103) 0 @ pt 0 85, BBoxMax = pt 108 0 @ pt (- 103) 0 @ pt 0 389,
     BlockOffsets = [0, 1, 2, 3], Counts = [5, 5, 8], Vectors = pack_blocks skip_rows,
     Labels = replicate 16 0 @ [1, 1, 1, 1, 1, 0, 0, 0], IxK = 3, IxN = 18, IxNBlocks = 3\<rparr>"

lemma sum_16: "(\<Sum>i<16. f i) = f 0 + f 1 + f 2 + f 3 + f 4 + f 5 + f 6 + f 7 + f 8 + f 9 + f 10 + f 11
    + f 12 + f 13 + f 14 + f 15" for f :: "nat \<Rightarrow> int"
  by (simp add: eval_nat_numeral)

lemma sqdist_pt: "sqdist q_origin (pt x y) = x ^ 2 + y ^ 2"
  by (simp add: sqdist_def sum_16 q_origin_def pt_def)

lemma pad8_ok: "length vs \<le> 8 \<Longrightarrow> (\<And>v. v \<in> set vs \<Longrightarrow> length v = 16 \<and> in_range v) \<Longrightarrow> rows_ok (pad8 vs)"
  by (auto simp: rows_ok_def pad8_def pt_def in_range_def)

lemma pt_ok [simp]: "length (pt x y) = 16" "in_range (pt x y) \<longleftrightarrow> \<bar>x\<bar> \<le> 10000 \<and> \<bar>y\<bar> \<le> 10000"
  by (auto simp: pt_def in_range_def)

lemma sample_rows_ok: "vs \<in> set far_rows \<Longrightarrow> rows_ok vs" "vs \<in> set skip_rows \<Longrightarrow> rows_ok vs"
    "rows_ok (pad8 [pt 5003 0])" "rows_ok (pad8 [pt 100 0, pt (- 103) 0, pt 0 200])"
  by (auto simp: far_rows_def skip_rows_def intro!: pad8_ok)

lemma rows_far: "rows ix_far 0 = [0, 1, 2, 3, 4, 5]"
  by (simp add: rows_def ix_far_def upt_rec)

lemma rows_skip: "rows ix_skip 0 = [0, 1, 2, 3, 4]" "rows ix_skip (Suc 0) = [8, 9, 10, 11, 12]"
    "rows ix_skip 2 = [16, 17, 18, 19, 20, 21, 22, 23]"
  by (simp_all add: rows_def ix_skip_def upt_rec)

lemma candAt_far:
  "j < 8 \<Longrightarrow> candAt ix_far q_origin j = (sqdist q_origin (far_rows ! 0 ! j), [1, 0, 1, 0, 1, 1, 0, 0] ! j)"
  using vecOf_pack [of far_rows 0 j] sample_rows_ok(1) by (simp add: candAt_def vecAt_def ix_far_def far_rows_def)

lemma candAt_skip:
  "j < 24 \<Longrightarrow> candAt ix_skip q_origin j =
     (sqdist q_origin (skip_rows ! (j div 8) ! (j mod 8)), (replicate 16 0 @ [1, 1, 1, 1, 1, 0, 0, 0]) ! j)"
  using vecOf_pack [of skip_rows "j div 8" "j mod 8"] sample_rows_ok(2)
  by (simp add: candAt_def vecAt_def ix_skip_def skip_rows_def)

lemma cand_far: "cand ix_far q_origin 0 =
    [(25000000, 1), (25010001, 0), (25020004, 1), (25030009, 0), (25040016, 1), (25060036, 1)]"
  by (simp add: cand_def rows_far candAt_far far_rows_def pad8_def sqdist_pt)

lemma cand_skip:
  "cand ix_skip q_origin 0 = [(9025, 0), (9025, 0), (9025, 0), (11449, 0), (11664, 0)]"
  "cand ix_skip q_origin (Suc 0) = [(10609, 0), (10609, 0), (10609, 0), (10609, 0), (10609, 0)]"
  "cand ix_skip q_origin 2 = [(7225, 1), (7396, 1), (7569, 1), (7744, 1), (7921, 1),
     (150544, 0), (150544, 0), (151321, 0)]"
  by (simp_all add: cand_def rows_skip candAt_skip skip_rows_def pad8_def sqdist_pt nth_append)

lemma offered_skip: "offered ix_skip q_origin [0..<IxK ix_skip] = [(0, 10000), (1, 10609), (2, 40000)]"
proof -
  have "centroidDist ix_skip q_origin c = sqdist q_origin (pad8 [pt 100 0, pt (- 103) 0, pt 0 200] ! c)" if "c < 8" for c
    using vecOf_pack [of "[pad8 [pt 100 0, pt (- 103) 0, pt 0 200]]" 0 c] sample_rows_ok(4) that
    by (simp add: centroidDist_def ix_skip_def)
  then show ?thesis by (simp add: offered_def ix_skip_def upt_rec pad8_def sqdist_pt)
qed

lemma probes_skip: "map Cluster (probeList ix_skip q_origin) = [0, 1, 2]"
proof -
  have "map Cluster (let st = insertAll (replicate 33 p, 0) [(0, 10000), (1, 10609), (2, 40000)]
      in take (snd st) (heapToSorted (fst st) (snd st))) = [0, 1, 2]" for p
    by code_simp
  then show ?thesis unfolding probeList_def offered_skip probes0_def .
qed

lemma all_cands_skip: "all_cands ix_skip q_origin = cand ix_skip q_origin 0 @ cand ix_skip q_origin 1 @ cand ix_skip q_origin 2"
proof -
  have "[0..<IxK ix_skip] = [0, 1, 2]" by (simp add: ix_skip_def upt_rec)
  then show ?thesis by (simp add: all_cands_def)
qed

lemma vote_skip: "vote (all_cands ix_skip q_origin) = 5"
  unfolding all_cands_skip One_nat_def cand_skip by code_simp

lemma bbox_skip_1: "bboxDist q_origin ix_skip (Suc 0) = 10609"
  by (simp add: bboxDist_def sum_16 bbox_gap_def q_origin_def ix_skip_def pt_def)

lemma search_skip: "search_spec ix_skip q_origin = 0"
proof -
  have P1: "best_five (cand ix_skip q_origin 0) = [(9025, 0), (9025, 0), (9025, 0), (11449, 0), (11664, 0)]"
    unfolding cand_skip by code_simp
  have P2: "topk [(9025, 0), (9025, 0), (9025, 0), (11449, 0), (11664, 0)] (cand ix_skip q_origin (Suc 0)) =
      [(9025, 0), (9025, 0), (9025, 0), (10609, 0), (10609, 0)]"
    unfolding cand_skip by code_simp
  have rest: "filter (\<lambda>c. 0 < c \<and> c \<noteq> Suc 0 \<and> c \<noteq> 2) [0..<IxK ix_skip] = []" by (simp add: ix_skip_def upt_rec)
  show ?thesis
    by (simp add: search_spec_def probes_skip P1 P2 rest Let_def bbox_skip_1 frauds_def EarlyDist_def)
qed

lemma origin_ok: "query_ok q_origin"
  by (simp add: query_ok_def q_origin_def in_range_def)

lemma pt_le: "(\<forall>i<16. pt a b ! i \<le> pt x y ! i) \<longleftrightarrow> a \<le> x \<and> b \<le> y"
proof -
  have "(\<forall>i<16. pt a b ! i \<le> pt x y ! i) \<longleftrightarrow> (\<forall>i \<in> set [0..<16]. pt a b ! i \<le> pt x y ! i)" by auto
  then show ?thesis unfolding upt_16 by (simp add: pt_def)
qed

text \<open>Boxes whose corners are points of the plane.\<close>

definition box_is :: "Index \<Rightarrow> nat \<Rightarrow> int list \<Rightarrow> int list \<Rightarrow> bool" where
  "box_is ix c lo hi \<longleftrightarrow> c * 16 + 16 \<le> length (BBoxMin ix) \<and> c * 16 + 16 \<le> length (BBoxMax ix) \<and>
     (\<forall>i<16. BBoxMin ix ! (c * 16 + i) = lo ! i) \<and> (\<forall>i<16. BBoxMax ix ! (c * 16 + i) = hi ! i)"

lemma box_pt:
  assumes "box_is ix c (pt a b) (pt a' b')"
  shows "in_box ix c (pt x y) \<longleftrightarrow> a \<le> x \<and> x \<le> a' \<and> b \<le> y \<and> y \<le> b'"
    "a \<le> a' \<Longrightarrow> b \<le> b' \<Longrightarrow> \<bar>a\<bar> \<le> 10000 \<Longrightarrow> \<bar>b\<bar> \<le> 10000 \<Longrightarrow> \<bar>a'\<bar> \<le> 10000 \<Longrightarrow> \<bar>b'\<bar> \<le> 10000 \<Longrightarrow> bbox_ok ix c"
proof -
  show "in_box ix c (pt x y) \<longleftrightarrow> a \<le> x \<and> x \<le> a' \<and> b \<le> y \<and> y \<le> b'"
    using assms pt_le [of a b x y] pt_le [of x y a' b'] by (auto simp: in_box_def box_is_def)
  assume le: "a \<le> a'" "b \<le> b'" "\<bar>a\<bar> \<le> 10000" "\<bar>b\<bar> \<le> 10000" "\<bar>a'\<bar> \<le> 10000" "\<bar>b'\<bar> \<le> 10000"
  have "- 10000 \<le> pt a b ! i \<and> pt a' b' ! i \<le> 10000" if "i < 16" for i
    using in_rangeD [of "pt a b" i] in_rangeD [of "pt a' b'" i] le that by simp
  then show "bbox_ok ix c" using assms pt_le [of a b a' b'] le(1,2) by (auto simp: bbox_ok_def box_is_def)
qed

lemma box_far: "box_is ix_far 0 (pt 5000 0) (pt 5006 0)"
  by (simp add: box_is_def ix_far_def)

lemma box_skip: "box_is ix_skip 0 (pt 95 0) (pt 108 0)" "box_is ix_skip (Suc 0) (pt (- 103) 0) (pt (- 103) 0)"
    "box_is ix_skip 2 (pt 0 85) (pt 0 389)"
  by (simp_all add: box_is_def ix_skip_def nth_append)

lemma vecAt_far: "j < 8 \<Longrightarrow> vecAt ix_far j = far_rows ! 0 ! j"
  using vecOf_pack [of far_rows 0 j] sample_rows_ok(1) by (simp add: vecAt_def ix_far_def far_rows_def)

lemma vecAt_skip: "j < 24 \<Longrightarrow> vecAt ix_skip j = skip_rows ! (j div 8) ! (j mod 8)"
  using vecOf_pack [of skip_rows "j div 8" "j mod 8"] sample_rows_ok(2)
  by (simp add: vecAt_def ix_skip_def skip_rows_def)

lemma wf_far: "wf_index ix_far"
proof -
  have "\<forall>j \<in> set (rows ix_far 0). in_box ix_far 0 (vecAt ix_far j)"
    unfolding rows_far by (simp add: vecAt_far far_rows_def pad8_def box_pt(1) [OF box_far])
  moreover have "bbox_ok ix_far 0" by (rule box_pt(2) [OF box_far]) simp_all
  ultimately have "wf_cluster ix_far 0" by (simp add: wf_cluster_def) (simp add: ix_far_def)
  then show ?thesis
    using pack_blocks_ok [of far_rows] pack_blocks_ok [of "[pad8 [pt 5003 0]]"] sample_rows_ok
    by (simp add: wf_index_def) (simp add: ix_far_def far_rows_def)
qed

lemma wf_skip: "wf_index ix_skip"
proof -
  note v = vecAt_skip skip_rows_def pad8_def
  have "\<forall>j \<in> set (rows ix_skip 0). in_box ix_skip 0 (vecAt ix_skip j)"
    unfolding rows_skip by (simp add: v box_pt(1) [OF box_skip(1)])
  moreover have "\<forall>j \<in> set (rows ix_skip (Suc 0)). in_box ix_skip (Suc 0) (vecAt ix_skip j)"
    unfolding rows_skip by (simp add: v box_pt(1) [OF box_skip(2)])
  moreover have "\<forall>j \<in> set (rows ix_skip 2). in_box ix_skip 2 (vecAt ix_skip j)"
    unfolding rows_skip by (simp add: v box_pt(1) [OF box_skip(3)])
  moreover have "bbox_ok ix_skip 0" "bbox_ok ix_skip (Suc 0)" "bbox_ok ix_skip 2"
    using box_pt(2) [OF box_skip(1)] box_pt(2) [OF box_skip(2)] box_pt(2) [OF box_skip(3)] by simp_all
  ultimately have "wf_cluster ix_skip 0 \<and> wf_cluster ix_skip (Suc 0) \<and> wf_cluster ix_skip 2"
    by (simp add: wf_cluster_def) (simp add: ix_skip_def)
  then have "\<forall>c<3. wf_cluster ix_skip c" by (auto simp: less_Suc_eq numeral_eq_Suc)
  then show ?thesis
    using pack_blocks_ok [of skip_rows] pack_blocks_ok [of "[pad8 [pt 100 0, pt (- 103) 0, pt 0 200]]"] sample_rows_ok
    by (simp add: wf_index_def) (simp add: ix_skip_def skip_rows_def)
qed

lemma probes_far: "map Cluster (probeList ix_far q_origin) = [0]"
proof -
  have "centroidDist ix_far q_origin 0 = 25030009"
    using vecOf_pack [of "[pad8 [pt 5003 0]]" 0 0] sample_rows_ok(3)
    by (simp add: centroidDist_def ix_far_def sqdist_pt) (simp add: pad8_def sqdist_pt)
  then have o: "offered ix_far q_origin [0..<IxK ix_far] = [(0, 25030009)]"
    by (simp add: offered_def) (simp add: ix_far_def)
  have "map Cluster (let st = insertAll (replicate 33 p, 0) [(0, 25030009)]
      in take (snd st) (heapToSorted (fst st) (snd st))) = [0]" for p
    by code_simp
  then show ?thesis unfolding probeList_def o probes0_def .
qed

lemma all_cands_far: "all_cands ix_far q_origin =
    [(25000000, 1), (25010001, 0), (25020004, 1), (25030009, 0), (25040016, 1), (25060036, 1)]"
  using cand_far by (simp add: all_cands_def) (simp add: ix_far_def)

lemma fifth_far: "EarlyDist < fifth (all_cands ix_far q_origin)" "length (within_fifth (all_cands ix_far q_origin)) \<le> 5"
proof -
  have f: "fifth (all_cands ix_far q_origin) = 25040016" unfolding all_cands_far by code_simp
  then show "EarlyDist < fifth (all_cands ix_far q_origin)" by (simp add: EarlyDist_def)
  show "length (within_fifth (all_cands ix_far q_origin)) \<le> 5"
    unfolding within_fifth_def f by (simp add: all_cands_far)
qed

lemma ScoreQ_far: "ScoreQ amd64 ix_far q_origin = Some 3"
proof -
  have P1: "best_five (cand ix_far q_origin 0) =
      [(25000000, 1), (25010001, 0), (25020004, 1), (25030009, 0), (25040016, 1)]"
    unfolding cand_far by code_simp
  have "filter (\<lambda>c. 0 < c) [0..<IxK ix_far] = []" by (simp add: ix_far_def)
  then have "search_spec ix_far q_origin = 3"
    by (simp add: search_spec_def probes_far P1 Let_def frauds_def)
  then show ?thesis using avx2.ScoreQ_spec [OF wf_far origin_ok] by simp
qed

text \<open>(C27) The early break of \<open>repairFast\<close> loses clusters for good: \<open>repairFull\<close> marks every
  probe as seen, also those that \<open>repairFast\<close> never looked at. On the well-formed index
  \<open>ix_skip\<close>, whose three clusters are a fixed point of k-means, the five nearest rows of
  the origin are all frauds, and the search answers that none is.\<close>

theorem repair_loses_probes:
  "wf_index ix_skip \<and> query_ok q_origin \<and> ScoreQ amd64 ix_skip q_origin = Some 0 \<and>
   vote (all_cands ix_skip q_origin) = 5"
  using wf_skip origin_ok avx2.ScoreQ_spec [OF wf_skip origin_ok] search_skip vote_skip by simp

section \<open>Witnesses\<close>

theorem ScoreQ_refines_witness:
  "ScoreQ amd64 ix_far q_origin = Some (search_spec ix_far q_origin)"
  using ScoreQ_refines [OF wf_far origin_ok] by simp

theorem ScoreQ_exact_witness: "3 = vote (all_cands ix_far q_origin)"
  using ScoreQ_exact [OF wf_far origin_ok fifth_far ScoreQ_far] by simp

theorem ScoreQ_supported_witness:
  "\<exists>vs. set vs \<subseteq> {..<IxK ix_far} \<and> 0 \<in> set vs \<and> 3 = sum_list (map snd (best_five (concat (map (cand ix_far q_origin) vs))))"
proof -
  have k: "\<exists>c < IxK ix_far. Counts ix_far ! c \<noteq> 0" "IxK ix_far = 1" by (simp_all add: ix_far_def)
  then show ?thesis using ScoreQ_supported [OF wf_far origin_ok ScoreQ_far] by auto
qed

theorem scanCluster_exhaustive_witness:
  "\<exists>b'. scanCluster amd64 ix_far q_origin 0 best0 = Some b' \<and> best_ok b'"
proof -
  have "0 < IxK ix_far" by (simp add: ix_far_def)
  then show ?thesis using scanCluster_exhaustive [OF wf_far origin_ok best_ok_best0(1), of 0] by blast
qed

end
