(* ===== verification/Tree_Tables.thy ===== *)
theory Tree_Tables
  imports Prelude
begin

text \<open>
  The decision tree of \<open>internal/tree/tree.go\<close>: its types and the literal tables \<open>nodes\<close>,
  \<open>leaves\<close>, \<open>leafSafeA\<close> and \<open>leafSafeB\<close>, transcribed row by row. The two big arrays
  are split into consecutive parts and concatenated.
\<close>

record Node =
  Feat :: nat
  Thr :: int
  Left :: int
  Right :: int

record Leaf =
  lCount :: nat
  lPurityMilli :: nat
  lPartBitset :: "nat list"

definition nd :: "nat \<Rightarrow> int \<Rightarrow> int \<Rightarrow> int \<Rightarrow> Node" where
  "nd f t l r = \<lparr>Feat = f, Thr = t, Left = l, Right = r\<rparr>"

definition lf :: "nat \<Rightarrow> nat \<Rightarrow> nat list \<Rightarrow> Leaf" where
  "lf c p b = \<lparr>lCount = c, lPurityMilli = p, lPartBitset = b\<rparr>"

definition LeafCount :: nat where
  "LeafCount = 512"

definition nodes0 :: "Node list" where
  "nodes0 =
    [
     nd 11 5000 1 488, nd 2 666 2 3, nd 0 0 (- 1) (- 1), nd 5 5413 4 409, nd 12 3250 5 172,
     nd 2 1657 6 25, nd 8 2750 7 10, nd 10 5000 8 9, nd 0 0 (- 2) (- 2), nd 0 0 (- 3) (- 3),
     nd 0 630 11 24, nd 3 3696 12 15, nd 3 2826 13 14, nd 0 0 (- 4) (- 4), nd 0 0 (- 5) (- 5),
     nd 12 2750 16 21, nd 2 1068 17 18, nd 0 0 (- 6) (- 6), nd 6 1405 19 20, nd 0 0 (- 7) (- 7),
     nd 0 0 (- 8) (- 8), nd 8 4250 22 23, nd 0 0 (- 9) (- 9), nd 0 0 (- 10) (- 10), nd 0 0 (- 11) (- 11),
     nd 2 1699 26 27, nd 0 0 (- 12) (- 12), nd 13 120 28 73, nd 3 6740 29 58, nd 0 1450 30 45,
     nd 0 1365 31 44, nd 3 3260 32 35, nd 1 2916 33 34, nd 0 0 (- 13) (- 13), nd 0 0 (- 14) (- 14),
     nd 3 5000 36 39, nd 6 2174 37 38, nd 0 0 (- 15) (- 15), nd 0 0 (- 16) (- 16), nd 0 1106 40 43,
     nd 12 2750 41 42, nd 0 0 (- 17) (- 17), nd 0 0 (- 18) (- 18), nd 0 0 (- 19) (- 19), nd 0 0 (- 20) (- 20),
     nd 6 2974 46 57, nd 13 106 47 48, nd 0 0 (- 21) (- 21), nd 7 2809 49 56, nd 3 3260 50 53,
     nd 6 2128 51 52, nd 0 0 (- 22) (- 22), nd 0 0 (- 23) (- 23), nd 4 2500 54 55, nd 0 0 (- 24) (- 24),
     nd 0 0 (- 25) (- 25), nd 0 0 (- 26) (- 26), nd 0 0 (- 27) (- 27), nd 13 54 59 60, nd 0 0 (- 28) (- 28),
     nd 12 1750 61 62, nd 0 0 (- 29) (- 29), nd 7 1148 63 64, nd 0 0 (- 30) (- 30), nd 0 1414 65 72,
     nd 1 5416 66 71, nd 6 2706 67 70, nd 12 2750 68 69, nd 0 0 (- 31) (- 31), nd 0 0 (- 32) (- 32),
     nd 0 0 (- 33) (- 33), nd 0 0 (- 34) (- 34), nd 0 0 (- 35) (- 35), nd 7 2208 74 127, nd 0 615 75 76,
     nd 0 0 (- 36) (- 36), nd 7 985 77 88, nd 4 5834 78 87, nd 13 180 79 82, nd 2 2710 80 81,
     nd 0 0 (- 37) (- 37), nd 0 0 (- 38) (- 38), nd 0 1175 83 84, nd 0 0 (- 39) (- 39), nd 2 4328 85 86,
     nd 0 0 (- 40) (- 40), nd 0 0 (- 41) (- 41), nd 0 0 (- 42) (- 42), nd 5 156 89 98, nd 2 8739 90 97,
     nd 13 152 91 92, nd 0 0 (- 43) (- 43), nd 2 5990 93 96, nd 7 1069 94 95, nd 0 0 (- 44) (- 44),
     nd 0 0 (- 45) (- 45), nd 0 0 (- 46) (- 46), nd 0 0 (- 47) (- 47), nd 7 1146 99 104, nd 5 688 100 103,
     nd 0 2592 101 102, nd 0 0 (- 48) (- 48), nd 0 0 (- 49) (- 49), nd 0 0 (- 50) (- 50), nd 7 2090 105 120,
     nd 1 2916 106 109, nd 4 2500 107 108, nd 0 0 (- 51) (- 51), nd 0 0 (- 52) (- 52), nd 10 5000 110 111,
     nd 0 0 (- 53) (- 53), nd 0 971 112 113, nd 0 0 (- 54) (- 54), nd 0 1920 114 115, nd 0 0 (- 55) (- 55),
     nd 1 4584 116 119, nd 5 583 117 118, nd 0 0 (- 56) (- 56), nd 0 0 (- 57) (- 57), nd 0 0 (- 58) (- 58),
     nd 12 2250 121 126, nd 13 252 122 125, nd 7 2137 123 124, nd 0 0 (- 59) (- 59), nd 0 0 (- 60) (- 60),
     nd 0 0 (- 61) (- 61), nd 0 0 (- 62) (- 62), nd 3 6740 128 155, nd 7 3974 129 154, nd 13 230 130 135,
     nd 6 2814 131 134, nd 2 2974 132 133, nd 0 0 (- 63) (- 63), nd 0 0 (- 64) (- 64), nd 0 0 (- 65) (- 65),
     nd 0 1764 136 145, nd 1 2916 137 138, nd 0 0 (- 66) (- 66), nd 7 3482 139 142, nd 13 251 140 141,
     nd 0 0 (- 67) (- 67), nd 0 0 (- 68) (- 68), nd 6 2103 143 144, nd 0 0 (- 69) (- 69), nd 0 0 (- 70) (- 70),
     nd 2 9877 146 151, nd 0 2031 147 148
    ]"

definition nodes1 :: "Node list" where
  "nodes1 =
    [
     nd 0 0 (- 71) (- 71), nd 0 2345 149 150, nd 0 0 (- 72) (- 72), nd 0 0 (- 73) (- 73), nd 13 275 152 153,
     nd 0 0 (- 74) (- 74), nd 0 0 (- 75) (- 75), nd 0 0 (- 76) (- 76), nd 5 156 156 161, nd 4 9166 157 160,
     nd 9 5000 158 159, nd 0 0 (- 77) (- 77), nd 0 0 (- 78) (- 78), nd 0 0 (- 79) (- 79), nd 0 2882 162 169,
     nd 7 3724 163 168, nd 7 2727 164 167, nd 2 3508 165 166, nd 0 0 (- 80) (- 80), nd 0 0 (- 81) (- 81),
     nd 0 0 (- 82) (- 82), nd 0 0 (- 83) (- 83), nd 8 4750 170 171, nd 0 0 (- 84) (- 84), nd 0 0 (- 85) (- 85),
     nd 7 3918 173 396, nd 7 841 174 211, nd 7 377 175 178, nd 6 632 176 177, nd 0 0 (- 86) (- 86),
     nd 0 0 (- 87) (- 87), nd 6 2561 179 202, nd 6 2492 180 201, nd 0 707 181 186, nd 7 788 182 185,
     nd 5 431 183 184, nd 0 0 (- 88) (- 88), nd 0 0 (- 89) (- 89), nd 0 0 (- 90) (- 90), nd 0 1982 187 192,
     nd 5 604 188 189, nd 0 0 (- 91) (- 91), nd 8 3250 190 191, nd 0 0 (- 92) (- 92), nd 0 0 (- 93) (- 93),
     nd 0 2283 193 200, nd 0 2228 194 199, nd 10 5000 195 196, nd 0 0 (- 94) (- 94), nd 6 744 197 198,
     nd 0 0 (- 95) (- 95), nd 0 0 (- 96) (- 96), nd 0 0 (- 97) (- 97), nd 0 0 (- 98) (- 98), nd 0 0 (- 99) (- 99),
     nd 8 3750 203 210, nd 6 2768 204 209, nd 8 3250 205 208, nd 3 5218 206 207, nd 0 0 (- 100) (- 100),
     nd 0 0 (- 101) (- 101), nd 0 0 (- 102) (- 102), nd 0 0 (- 103) (- 103), nd 0 0 (- 104) (- 104), nd 7 889 212 213,
     nd 0 0 (- 105) (- 105), nd 0 2824 214 387, nd 13 292 215 380, nd 13 290 216 379, nd 13 290 217 378,
     nd 13 114 218 219, nd 0 0 (- 106) (- 106), nd 13 124 220 225, nd 13 118 221 224, nd 6 1444 222 223,
     nd 0 0 (- 107) (- 107), nd 0 0 (- 108) (- 108), nd 0 0 (- 109) (- 109), nd 2 8513 226 339, nd 7 3448 227 320,
     nd 7 3184 228 305, nd 12 6250 229 262, nd 7 1196 230 237, nd 4 2500 231 232, nd 0 0 (- 110) (- 110),
     nd 8 2750 233 234, nd 0 0 (- 111) (- 111), nd 6 2620 235 236, nd 0 0 (- 112) (- 112), nd 0 0 (- 113) (- 113),
     nd 0 501 238 239, nd 0 0 (- 114) (- 114), nd 2 1873 240 243, nd 8 3750 241 242, nd 0 0 (- 115) (- 115),
     nd 0 0 (- 116) (- 116), nd 13 288 244 261, nd 5 264 245 252, nd 6 1888 246 249, nd 2 6696 247 248,
     nd 0 0 (- 117) (- 117), nd 0 0 (- 118) (- 118), nd 0 1073 250 251, nd 0 0 (- 119) (- 119), nd 0 0 (- 120) (- 120),
     nd 5 400 253 254, nd 0 0 (- 121) (- 121), nd 6 1846 255 260, nd 4 2500 256 257, nd 0 0 (- 122) (- 122),
     nd 6 858 258 259, nd 0 0 (- 123) (- 123), nd 0 0 (- 124) (- 124), nd 0 0 (- 125) (- 125), nd 0 0 (- 126) (- 126),
     nd 5 268 263 284, nd 3 5434 264 275, nd 2 7034 265 272, nd 0 1066 266 267, nd 0 0 (- 127) (- 127),
     nd 7 1664 268 271, nd 2 5496 269 270, nd 0 0 (- 128) (- 128), nd 0 0 (- 129) (- 129), nd 0 0 (- 130) (- 130),
     nd 3 3044 273 274, nd 0 0 (- 131) (- 131), nd 0 0 (- 132) (- 132), nd 9 5000 276 283, nd 6 820 277 282,
     nd 7 2660 278 281, nd 4 5834 279 280, nd 0 0 (- 133) (- 133), nd 0 0 (- 134) (- 134), nd 0 0 (- 135) (- 135),
     nd 0 0 (- 136) (- 136), nd 0 0 (- 137) (- 137), nd 0 1286 285 294, nd 0 600 286 289, nd 13 202 287 288,
     nd 0 0 (- 138) (- 138), nd 0 0 (- 139) (- 139), nd 13 179 290 293, nd 4 7500 291 292, nd 0 0 (- 140) (- 140),
     nd 0 0 (- 141) (- 141), nd 0 0 (- 142) (- 142)
    ]"

definition nodes2 :: "Node list" where
  "nodes2 =
    [
     nd 0 2154 295 302, nd 6 2542 296 297, nd 0 0 (- 143) (- 143), nd 6 2828 298 299, nd 0 0 (- 144) (- 144),
     nd 0 1624 300 301, nd 0 0 (- 145) (- 145), nd 0 0 (- 146) (- 146), nd 6 1738 303 304, nd 0 0 (- 147) (- 147),
     nd 0 0 (- 148) (- 148), nd 4 5834 306 313, nd 10 5000 307 310, nd 6 2138 308 309, nd 0 0 (- 149) (- 149),
     nd 0 0 (- 150) (- 150), nd 2 5222 311 312, nd 0 0 (- 151) (- 151), nd 0 0 (- 152) (- 152), nd 2 5588 314 317,
     nd 1 4584 315 316, nd 0 0 (- 153) (- 153), nd 0 0 (- 154) (- 154), nd 3 7826 318 319, nd 0 0 (- 155) (- 155),
     nd 0 0 (- 156) (- 156), nd 3 3260 321 324, nd 12 6250 322 323, nd 0 0 (- 157) (- 157), nd 0 0 (- 158) (- 158),
     nd 5 86 325 326, nd 0 0 (- 159) (- 159), nd 1 2916 327 330, nd 6 1028 328 329, nd 0 0 (- 160) (- 160),
     nd 0 0 (- 161) (- 161), nd 6 543 331 332, nd 0 0 (- 162) (- 162), nd 12 4000 333 336, nd 10 5000 334 335,
     nd 0 0 (- 163) (- 163), nd 0 0 (- 164) (- 164), nd 7 3861 337 338, nd 0 0 (- 165) (- 165), nd 0 0 (- 166) (- 166),
     nd 8 5250 340 373, nd 1 5416 341 372, nd 1 4584 342 361, nd 0 1954 343 346, nd 4 9166 344 345,
     nd 0 0 (- 167) (- 167), nd 0 0 (- 168) (- 168), nd 0 2116 347 348, nd 0 0 (- 169) (- 169), nd 7 3536 349 360,
     nd 5 586 350 359, nd 7 3144 351 356, nd 2 9245 352 355, nd 8 3000 353 354, nd 0 0 (- 170) (- 170),
     nd 0 0 (- 171) (- 171), nd 0 0 (- 172) (- 172), nd 6 1222 357 358, nd 0 0 (- 173) (- 173), nd 0 0 (- 174) (- 174),
     nd 0 0 (- 175) (- 175), nd 0 0 (- 176) (- 176), nd 0 2389 362 369, nd 3 5870 363 366, nd 8 2250 364 365,
     nd 0 0 (- 177) (- 177), nd 0 0 (- 178) (- 178), nd 3 6522 367 368, nd 0 0 (- 179) (- 179), nd 0 0 (- 180) (- 180),
     nd 12 7750 370 371, nd 0 0 (- 181) (- 181), nd 0 0 (- 182) (- 182), nd 0 0 (- 183) (- 183), nd 6 2704 374 377,
     nd 3 4782 375 376, nd 0 0 (- 184) (- 184), nd 0 0 (- 185) (- 185), nd 0 0 (- 186) (- 186), nd 0 0 (- 187) (- 187),
     nd 0 0 (- 188) (- 188), nd 5 268 381 382, nd 0 0 (- 189) (- 189), nd 7 1360 383 384, nd 0 0 (- 190) (- 190),
     nd 1 2916 385 386, nd 0 0 (- 191) (- 191), nd 0 0 (- 192) (- 192), nd 6 892 388 395, nd 13 182 389 394,
     nd 12 4750 390 391, nd 0 0 (- 193) (- 193), nd 0 2876 392 393, nd 0 0 (- 194) (- 194), nd 0 0 (- 195) (- 195),
     nd 0 0 (- 196) (- 196), nd 0 0 (- 197) (- 197), nd 3 8478 397 404, nd 0 2069 398 403, nd 0 1958 399 402,
     nd 2 4696 400 401, nd 0 0 (- 198) (- 198), nd 0 0 (- 199) (- 199), nd 0 0 (- 200) (- 200), nd 0 0 (- 201) (- 201),
     nd 3 9348 405 406, nd 0 0 (- 202) (- 202), nd 2 9098 407 408, nd 0 0 (- 203) (- 203), nd 0 0 (- 204) (- 204),
     nd 2 7280 410 427, nd 12 7750 411 422, nd 2 6327 412 413, nd 0 0 (- 205) (- 205), nd 1 5416 414 417,
     nd 12 6250 415 416, nd 0 0 (- 206) (- 206), nd 0 0 (- 207) (- 207), nd 0 2338 418 421, nd 0 1782 419 420,
     nd 0 0 (- 208) (- 208), nd 0 0 (- 209) (- 209), nd 0 0 (- 210) (- 210), nd 2 4894 423 424, nd 0 0 (- 211) (- 211),
     nd 2 5784 425 426, nd 0 0 (- 212) (- 212), nd 0 0 (- 213) (- 213), nd 7 1442 428 463, nd 8 4250 429 454,
     nd 12 2250 430 437, nd 13 210 431 432, nd 0 0 (- 214) (- 214), nd 13 250 433 436, nd 1 4584 434 435,
     nd 0 0 (- 215) (- 215), nd 0 0 (- 216) (- 216), nd 0 0 (- 217) (- 217), nd 13 198 438 447, nd 0 1712 439 440,
     nd 0 0 (- 218) (- 218), nd 8 2750 441 444
    ]"

definition nodes3 :: "Node list" where
  "nodes3 =
    [
     nd 8 2250 442 443, nd 0 0 (- 219) (- 219), nd 0 0 (- 220) (- 220), nd 13 169 445 446, nd 0 0 (- 221) (- 221),
     nd 0 0 (- 222) (- 222), nd 0 2806 448 453, nd 7 686 449 450, nd 0 0 (- 223) (- 223), nd 1 3750 451 452,
     nd 0 0 (- 224) (- 224), nd 0 0 (- 225) (- 225), nd 0 0 (- 226) (- 226), nd 0 2484 455 460, nd 7 1116 456 459,
     nd 7 690 457 458, nd 0 0 (- 227) (- 227), nd 0 0 (- 228) (- 228), nd 0 0 (- 229) (- 229), nd 3 4566 461 462,
     nd 0 0 (- 230) (- 230), nd 0 0 (- 231) (- 231), nd 6 2616 464 487, nd 3 5000 465 486, nd 13 132 466 475,
     nd 7 3188 467 474, nd 13 117 468 473, nd 13 94 469 472, nd 0 1658 470 471, nd 0 0 (- 232) (- 232),
     nd 0 0 (- 233) (- 233), nd 0 0 (- 234) (- 234), nd 0 0 (- 235) (- 235), nd 0 0 (- 236) (- 236), nd 8 3250 476 481,
     nd 6 580 477 478, nd 0 0 (- 237) (- 237), nd 6 879 479 480, nd 0 0 (- 238) (- 238), nd 0 0 (- 239) (- 239),
     nd 7 1554 482 483, nd 0 0 (- 240) (- 240), nd 13 150 484 485, nd 0 0 (- 241) (- 241), nd 0 0 (- 242) (- 242),
     nd 0 0 (- 243) (- 243), nd 0 0 (- 244) (- 244), nd 3 2826 489 592, nd 13 100 490 543, nd 12 6250 491 494,
     nd 0 1906 492 493, nd 0 0 (- 245) (- 245), nd 0 0 (- 246) (- 246), nd 1 4584 495 500, nd 7 2465 496 499,
     nd 6 (- 4806) 497 498, nd 0 0 (- 247) (- 247), nd 0 0 (- 248) (- 248), nd 0 0 (- 249) (- 249), nd 2 6693 501 502,
     nd 0 0 (- 250) (- 250), nd 5 299 503 504, nd 0 0 (- 251) (- 251), nd 0 3656 505 542, nd 6 4758 506 541,
     nd 7 5270 507 540, nd 8 6750 508 539, nd 1 7916 509 534, nd 3 1087 510 515, nd 6 3170 511 514,
     nd 1 7084 512 513, nd 0 0 (- 252) (- 252), nd 0 0 (- 253) (- 253), nd 0 0 (- 254) (- 254), nd 4 2500 516 521,
     nd 13 36 517 518, nd 0 0 (- 255) (- 255), nd 6 4164 519 520, nd 0 0 (- 256) (- 256), nd 0 0 (- 257) (- 257),
     nd 7 2504 522 523, nd 0 0 (- 258) (- 258), nd 13 54 524 529, nd 13 44 525 528, nd 7 4636 526 527,
     nd 0 0 (- 259) (- 259), nd 0 0 (- 260) (- 260), nd 0 0 (- 261) (- 261), nd 0 3548 530 533, nd 7 4790 531 532,
     nd 0 0 (- 262) (- 262), nd 0 0 (- 263) (- 263), nd 0 0 (- 264) (- 264), nd 1 8750 535 538, nd 3 1956 536 537,
     nd 0 0 (- 265) (- 265), nd 0 0 (- 266) (- 266), nd 0 0 (- 267) (- 267), nd 0 0 (- 268) (- 268), nd 0 0 (- 269) (- 269),
     nd 0 0 (- 270) (- 270), nd 0 0 (- 271) (- 271), nd 6 2418 544 587, nd 12 4000 545 566, nd 2 2010 546 547,
     nd 0 0 (- 272) (- 272), nd 7 3660 548 563, nd 13 212 549 562, nd 6 1894 550 561, nd 13 141 551 556,
     nd 1 3750 552 553, nd 0 0 (- 273) (- 273), nd 2 2654 554 555, nd 0 0 (- 274) (- 274), nd 0 0 (- 275) (- 275),
     nd 0 2243 557 558, nd 0 0 (- 276) (- 276), nd 4 4166 559 560, nd 0 0 (- 277) (- 277), nd 0 0 (- 278) (- 278),
     nd 0 0 (- 279) (- 279), nd 0 0 (- 280) (- 280), nd 13 272 564 565, nd 0 0 (- 281) (- 281), nd 0 0 (- 282) (- 282),
     nd 7 3948 567 586, nd 6 1779 568 581, nd 6 857 569 580, nd 2 9794 570 579, nd 8 3750 571 576,
     nd 2 3949 572 573, nd 0 0 (- 283) (- 283), nd 13 250 574 575, nd 0 0 (- 284) (- 284), nd 0 0 (- 285) (- 285),
     nd 0 2023 577 578, nd 0 0 (- 286) (- 286), nd 0 0 (- 287) (- 287), nd 0 0 (- 288) (- 288), nd 0 0 (- 289) (- 289),
     nd 7 1050 582 583, nd 0 0 (- 290) (- 290), nd 9 5000 584 585, nd 0 0 (- 291) (- 291), nd 0 0 (- 292) (- 292),
     nd 0 0 (- 293) (- 293), nd 0 1472 588 589
    ]"

definition nodes4 :: "Node list" where
  "nodes4 =
    [
     nd 0 0 (- 294) (- 294), nd 2 9338 590 591, nd 0 0 (- 295) (- 295), nd 0 0 (- 296) (- 296), nd 6 2610 593 948,
     nd 6 2240 594 873, nd 7 537 595 634, nd 0 2159 596 611, nd 7 431 597 610, nd 7 341 598 601,
     nd 6 1123 599 600, nd 0 0 (- 297) (- 297), nd 0 0 (- 298) (- 298), nd 12 4750 602 607, nd 13 154 603 606,
     nd 13 116 604 605, nd 0 0 (- 299) (- 299), nd 0 0 (- 300) (- 300), nd 0 0 (- 301) (- 301), nd 5 576 608 609,
     nd 0 0 (- 302) (- 302), nd 0 0 (- 303) (- 303), nd 0 0 (- 304) (- 304), nd 2 6303 612 617, nd 6 1932 613 616,
     nd 2 5202 614 615, nd 0 0 (- 305) (- 305), nd 0 0 (- 306) (- 306), nd 0 0 (- 307) (- 307), nd 2 7268 618 621,
     nd 7 339 619 620, nd 0 0 (- 308) (- 308), nd 0 0 (- 309) (- 309), nd 13 120 622 625, nd 6 758 623 624,
     nd 0 0 (- 310) (- 310), nd 0 0 (- 311) (- 311), nd 0 2286 626 627, nd 0 0 (- 312) (- 312), nd 3 4348 628 629,
     nd 0 0 (- 313) (- 313), nd 12 7750 630 633, nd 13 269 631 632, nd 0 0 (- 314) (- 314), nd 0 0 (- 315) (- 315),
     nd 0 0 (- 316) (- 316), nd 4 834 635 706, nd 13 209 636 683, nd 5 701 637 680, nd 0 2063 638 663,
     nd 12 3250 639 644, nd 6 1939 640 643, nd 5 (- 4979) 641 642, nd 0 0 (- 317) (- 317), nd 0 0 (- 318) (- 318),
     nd 0 0 (- 319) (- 319), nd 0 506 645 646, nd 0 0 (- 320) (- 320), nd 0 566 647 648, nd 0 0 (- 321) (- 321),
     nd 13 75 649 652, nd 6 425 650 651, nd 0 0 (- 322) (- 322), nd 0 0 (- 323) (- 323), nd 13 114 653 654,
     nd 0 0 (- 324) (- 324), nd 2 3867 655 658, nd 0 682 656 657, nd 0 0 (- 325) (- 325), nd 0 0 (- 326) (- 326),
     nd 6 660 659 662, nd 7 1922 660 661, nd 0 0 (- 327) (- 327), nd 0 0 (- 328) (- 328), nd 0 0 (- 329) (- 329),
     nd 3 4130 664 669, nd 8 2250 665 666, nd 0 0 (- 330) (- 330), nd 0 2565 667 668, nd 0 0 (- 331) (- 331),
     nd 0 0 (- 332) (- 332), nd 13 182 670 679, nd 10 5000 671 672, nd 0 0 (- 333) (- 333), nd 8 4750 673 678,
     nd 8 3250 674 677, nd 12 1750 675 676, nd 0 0 (- 334) (- 334), nd 0 0 (- 335) (- 335), nd 0 0 (- 336) (- 336),
     nd 0 0 (- 337) (- 337), nd 0 0 (- 338) (- 338), nd 5 768 681 682, nd 0 0 (- 339) (- 339), nd 0 0 (- 340) (- 340),
     nd 0 2520 684 701, nd 13 250 685 690, nd 7 1458 686 689, nd 0 1275 687 688, nd 0 0 (- 341) (- 341),
     nd 0 0 (- 342) (- 342), nd 0 0 (- 343) (- 343), nd 2 8332 691 700, nd 2 5170 692 697, nd 3 6304 693 696,
     nd 8 3750 694 695, nd 0 0 (- 344) (- 344), nd 0 0 (- 345) (- 345), nd 0 0 (- 346) (- 346), nd 2 7662 698 699,
     nd 0 0 (- 347) (- 347), nd 0 0 (- 348) (- 348), nd 0 0 (- 349) (- 349), nd 10 5000 702 703, nd 0 0 (- 350) (- 350),
     nd 7 1587 704 705, nd 0 0 (- 351) (- 351), nd 0 0 (- 352) (- 352), nd 6 1948 707 844, nd 6 1546 708 825,
     nd 6 1460 709 812, nd 13 72 710 743, nd 5 306 711 722, nd 6 1028 712 721, nd 8 4250 713 720,
     nd 12 8250 714 719, nd 2 3480 715 718, nd 7 2830 716 717, nd 0 0 (- 353) (- 353), nd 0 0 (- 354) (- 354),
     nd 0 0 (- 355) (- 355), nd 0 0 (- 356) (- 356), nd 0 0 (- 357) (- 357), nd 0 0 (- 358) (- 358), nd 3 8913 723 740,
     nd 6 545 724 729, nd 3 6087 725 726, nd 0 0 (- 359) (- 359), nd 13 66 727 728, nd 0 0 (- 360) (- 360),
     nd 0 0 (- 361) (- 361), nd 0 615 730 731, nd 0 0 (- 362) (- 362), nd 13 54 732 733, nd 0 0 (- 363) (- 363),
     nd 4 7500 734 739, nd 0 1458 735 738
    ]"

definition nodes5 :: "Node list" where
  "nodes5 =
    [
     nd 1 5416 736 737, nd 0 0 (- 364) (- 364), nd 0 0 (- 365) (- 365), nd 0 0 (- 366) (- 366), nd 0 0 (- 367) (- 367),
     nd 7 1246 741 742, nd 0 0 (- 368) (- 368), nd 0 0 (- 369) (- 369), nd 1 5416 744 765, nd 8 2250 745 762,
     nd 13 178 746 755, nd 0 952 747 748, nd 0 0 (- 370) (- 370), nd 7 2334 749 752, nd 12 8250 750 751,
     nd 0 0 (- 371) (- 371), nd 0 0 (- 372) (- 372), nd 5 770 753 754, nd 0 0 (- 373) (- 373), nd 0 0 (- 374) (- 374),
     nd 2 9102 756 757, nd 0 0 (- 375) (- 375), nd 12 2750 758 759, nd 0 0 (- 376) (- 376), nd 0 2450 760 761,
     nd 0 0 (- 377) (- 377), nd 0 0 (- 378) (- 378), nd 0 2946 763 764, nd 0 0 (- 379) (- 379), nd 0 0 (- 380) (- 380),
     nd 6 1394 766 809, nd 6 328 767 798, nd 7 2068 768 785, nd 7 658 769 770, nd 0 0 (- 381) (- 381),
     nd 13 250 771 782, nd 8 2250 772 775, nd 13 146 773 774, nd 0 0 (- 382) (- 382), nd 0 0 (- 383) (- 383),
     nd 7 1201 776 781, nd 7 1088 777 780, nd 6 (- 4884) 778 779, nd 0 0 (- 384) (- 384), nd 0 0 (- 385) (- 385),
     nd 0 0 (- 386) (- 386), nd 0 0 (- 387) (- 387), nd 0 1871 783 784, nd 0 0 (- 388) (- 388), nd 0 0 (- 389) (- 389),
     nd 3 7174 786 787, nd 0 0 (- 390) (- 390), nd 0 1300 788 791, nd 0 1016 789 790, nd 0 0 (- 391) (- 391),
     nd 0 0 (- 392) (- 392), nd 4 4166 792 797, nd 13 155 793 794, nd 0 0 (- 393) (- 393), nd 10 5000 795 796,
     nd 0 0 (- 394) (- 394), nd 0 0 (- 395) (- 395), nd 0 0 (- 396) (- 396), nd 12 3250 799 806, nd 13 214 800 805,
     nd 13 198 801 804, nd 5 576 802 803, nd 0 0 (- 397) (- 397), nd 0 0 (- 398) (- 398), nd 0 0 (- 399) (- 399),
     nd 0 0 (- 400) (- 400), nd 0 2722 807 808, nd 0 0 (- 401) (- 401), nd 0 0 (- 402) (- 402), nd 4 2500 810 811,
     nd 0 0 (- 403) (- 403), nd 0 0 (- 404) (- 404), nd 13 272 813 824, nd 6 1512 814 817, nd 0 636 815 816,
     nd 0 0 (- 405) (- 405), nd 0 0 (- 406) (- 406), nd 13 206 818 821, nd 6 1520 819 820, nd 0 0 (- 407) (- 407),
     nd 0 0 (- 408) (- 408), nd 5 702 822 823, nd 0 0 (- 409) (- 409), nd 0 0 (- 410) (- 410), nd 0 0 (- 411) (- 411),
     nd 7 640 826 829, nd 13 144 827 828, nd 0 0 (- 412) (- 412), nd 0 0 (- 413) (- 413), nd 7 3812 830 841,
     nd 0 908 831 838, nd 0 671 832 837, nd 4 4166 833 834, nd 0 0 (- 414) (- 414), nd 13 142 835 836,
     nd 0 0 (- 415) (- 415), nd 0 0 (- 416) (- 416), nd 0 0 (- 417) (- 417), nd 7 3740 839 840, nd 0 0 (- 418) (- 418),
     nd 0 0 (- 419) (- 419), nd 2 6584 842 843, nd 0 0 (- 420) (- 420), nd 0 0 (- 421) (- 421), nd 12 1750 845 850,
     nd 5 430 846 849, nd 5 104 847 848, nd 0 0 (- 422) (- 422), nd 0 0 (- 423) (- 423), nd 0 0 (- 424) (- 424),
     nd 0 512 851 854, nd 12 3250 852 853, nd 0 0 (- 425) (- 425), nd 0 0 (- 426) (- 426), nd 5 94 855 860,
     nd 12 6250 856 859, nd 9 5000 857 858, nd 0 0 (- 427) (- 427), nd 0 0 (- 428) (- 428), nd 0 0 (- 429) (- 429),
     nd 0 2972 861 872, nd 5 142 862 863, nd 0 0 (- 430) (- 430), nd 5 212 864 865, nd 0 0 (- 431) (- 431),
     nd 13 264 866 867, nd 0 0 (- 432) (- 432), nd 2 5998 868 871, nd 7 1681 869 870, nd 0 0 (- 433) (- 433),
     nd 0 0 (- 434) (- 434), nd 0 0 (- 435) (- 435), nd 0 0 (- 436) (- 436), nd 7 3260 874 935, nd 0 2744 875 930,
     nd 5 198 876 887, nd 6 2300 877 878, nd 0 0 (- 437) (- 437), nd 8 5000 879 884, nd 8 2750 880 881,
     nd 0 0 (- 438) (- 438), nd 6 2546 882 883
    ]"

definition nodes6 :: "Node list" where
  "nodes6 =
    [
     nd 0 0 (- 439) (- 439), nd 0 0 (- 440) (- 440), nd 1 4584 885 886, nd 0 0 (- 441) (- 441), nd 0 0 (- 442) (- 442),
     nd 12 7750 888 927, nd 12 3250 889 912, nd 0 2098 890 905, nd 0 914 891 898, nd 6 2330 892 895,
     nd 2 2252 893 894, nd 0 0 (- 443) (- 443), nd 0 0 (- 444) (- 444), nd 5 5396 896 897, nd 0 0 (- 445) (- 445),
     nd 0 0 (- 446) (- 446), nd 2 9442 899 900, nd 0 0 (- 447) (- 447), nd 3 4348 901 902, nd 0 0 (- 448) (- 448),
     nd 6 2329 903 904, nd 0 0 (- 449) (- 449), nd 0 0 (- 450) (- 450), nd 7 1421 906 909, nd 13 258 907 908,
     nd 0 0 (- 451) (- 451), nd 0 0 (- 452) (- 452), nd 0 2233 910 911, nd 0 0 (- 453) (- 453), nd 0 0 (- 454) (- 454),
     nd 6 2439 913 920, nd 6 2422 914 919, nd 6 2402 915 916, nd 0 0 (- 455) (- 455), nd 8 3000 917 918,
     nd 0 0 (- 456) (- 456), nd 0 0 (- 457) (- 457), nd 0 0 (- 458) (- 458), nd 13 221 921 924, nd 13 80 922 923,
     nd 0 0 (- 459) (- 459), nd 0 0 (- 460) (- 460), nd 5 598 925 926, nd 0 0 (- 461) (- 461), nd 0 0 (- 462) (- 462),
     nd 2 3248 928 929, nd 0 0 (- 463) (- 463), nd 0 0 (- 464) (- 464), nd 13 157 931 934, nd 1 3750 932 933,
     nd 0 0 (- 465) (- 465), nd 0 0 (- 466) (- 466), nd 0 0 (- 467) (- 467), nd 9 5000 936 941, nd 12 3250 937 938,
     nd 0 0 (- 468) (- 468), nd 6 2328 939 940, nd 0 0 (- 469) (- 469), nd 0 0 (- 470) (- 470), nd 7 3442 942 943,
     nd 0 0 (- 471) (- 471), nd 5 226 944 945, nd 0 0 (- 472) (- 472), nd 5 796 946 947, nd 0 0 (- 473) (- 473),
     nd 0 0 (- 474) (- 474), nd 7 2182 949 1006, nd 3 9348 950 1003, nd 3 5000 951 968, nd 7 475 952 953,
     nd 0 0 (- 475) (- 475), nd 7 1930 954 965, nd 3 3696 955 960, nd 6 2876 956 959, nd 1 4166 957 958,
     nd 0 0 (- 476) (- 476), nd 0 0 (- 477) (- 477), nd 0 0 (- 478) (- 478), nd 13 104 961 964, nd 7 1460 962 963,
     nd 0 0 (- 479) (- 479), nd 0 0 (- 480) (- 480), nd 0 0 (- 481) (- 481), nd 3 3696 966 967, nd 0 0 (- 482) (- 482),
     nd 0 0 (- 483) (- 483), nd 2 2610 969 972, nd 2 1361 970 971, nd 0 0 (- 484) (- 484), nd 0 0 (- 485) (- 485),
     nd 3 6304 973 982, nd 13 180 974 977, nd 3 5434 975 976, nd 0 0 (- 486) (- 486), nd 0 0 (- 487) (- 487),
     nd 12 4750 978 981, nd 8 4750 979 980, nd 0 0 (- 488) (- 488), nd 0 0 (- 489) (- 489), nd 0 0 (- 490) (- 490),
     nd 0 805 983 984, nd 0 0 (- 491) (- 491), nd 6 2707 985 990, nd 4 2500 986 989, nd 1 3750 987 988,
     nd 0 0 (- 492) (- 492), nd 0 0 (- 493) (- 493), nd 0 0 (- 494) (- 494), nd 8 3750 991 994, nd 7 1932 992 993,
     nd 0 0 (- 495) (- 495), nd 0 0 (- 496) (- 496), nd 1 3750 995 998, nd 7 1540 996 997, nd 0 0 (- 497) (- 497),
     nd 0 0 (- 498) (- 498), nd 0 1559 999 1000, nd 0 0 (- 499) (- 499), nd 12 3500 1001 1002, nd 0 0 (- 500) (- 500),
     nd 0 0 (- 501) (- 501), nd 13 216 1004 1005, nd 0 0 (- 502) (- 502), nd 0 0 (- 503) (- 503), nd 7 3722 1007 1018,
     nd 2 2584 1008 1011, nd 8 3000 1009 1010, nd 0 0 (- 504) (- 504), nd 0 0 (- 505) (- 505), nd 0 2126 1012 1013,
     nd 0 0 (- 506) (- 506), nd 12 7750 1014 1017, nd 4 8334 1015 1016, nd 0 0 (- 507) (- 507), nd 0 0 (- 508) (- 508),
     nd 0 0 (- 509) (- 509), nd 2 6353 1019 1020, nd 0 0 (- 510) (- 510), nd 4 2500 1021 1022, nd 0 0 (- 511) (- 511),
     nd 0 0 (- 512) (- 512)
    ]"

definition nodes :: "Node list" where
  "nodes = nodes0 @ nodes1 @ nodes2 @ nodes3 @ nodes4 @ nodes5 @ nodes6"

definition leaves0 :: "Leaf list" where
  "leaves0 =
    [
     lf 0 1000 [576179277460867071, 8791932209151, 0, 0], lf 0 462 [553942754294564352, 3917032720128, 0, 0],
     lf 1 1000 [369295169528266752, 0, 0, 0], lf 2 750 [288230376218821888, 6597069768192, 0, 0],
     lf 4 1000 [144115188159742976, 7696581395968, 0, 0], lf 5 600 [117442304, 5497625248768, 0, 0],
     lf 2 818 [360287970189640960, 7696665281792, 0, 0], lf 3 571 [360287970307081984, 5497558139904, 0, 0],
     lf 3 1000 [432345564294677504, 7696682059008, 0, 0], lf 2 500 [100664576, 0, 0, 0],
     lf 4 643 [504403158366160640, 5497658803200, 0, 0], lf 3 875 [432345564345009664, 4398163952640, 0, 0],
     lf 2 1000 [432345564261123072, 0, 0, 0], lf 3 700 [288230376353039360, 4398113620992, 0, 0],
     lf 2 737 [432345564294678272, 13194340861440, 0, 0], lf 1 400 [67111936, 0, 0, 0],
     lf 1 600 [288230376252376576, 6597136876544, 0, 0], lf 4 667 [1024, 4398113620992, 0, 0],
     lf 2 750 [864691128522247168, 0, 0, 0], lf 3 1000 [864691128522245120, 13194206645248, 0, 0],
     lf 2 575 [864691128656464896, 13194340862976, 0, 0], lf 2 1000 [288230376353041408, 3072, 0, 0],
     lf 3 1000 [3072, 0, 0, 0], lf 1 1000 [3072, 0, 0, 0],
     lf 3 333 [864691128656461824, 201326592, 0, 0], lf 1 1000 [288230376151714816, 13194273751040, 0, 0],
     lf 3 1000 [864691128522244096, 13194139533312, 0, 0], lf 3 857 [288230376218823680, 67111936, 0, 0],
     lf 3 414 [864691128656464896, 13194340862976, 0, 0], lf 3 688 [864691128656462848, 13194340862976, 0, 0],
     lf 1 750 [288230376218823680, 4398113619968, 0, 0], lf 4 500 [67109888, 0, 0, 0],
     lf 2 1000 [201329664, 83886080, 0, 0], lf 2 1000 [432345564328231936, 4398046512128, 0, 0],
     lf 2 405 [864691128656464896, 13194340862976, 0, 0], lf 2 800 [360287970307081728, 6597136876544, 0, 0],
     lf 2 500 [360287970290304512, 0, 0, 0], lf 3 611 [864691128690019328, 1024, 0, 0],
     lf 3 455 [360287970256751616, 0, 0, 0], lf 4 1000 [288230376151712768, 0, 0, 0],
     lf 2 472 [864691128656464896, 2048, 0, 0], lf 3 569 [864691128455135232, 15393380896256, 0, 0],
     lf 4 545 [864691128656464896, 3072, 0, 0], lf 1 667 [67108864, 4398113619968, 0, 0],
     lf 2 562 [936748722694393344, 13194206645248, 0, 0], lf 4 455 [864691128656464896, 13194340862976, 0, 0],
     lf 2 680 [864691128656464896, 13194340862976, 0, 0], lf 2 800 [864691128656465408, 13194206645248, 0, 0],
     lf 3 1000 [576460752504752128, 13194206642176, 0, 0], lf 1 750 [864691128522247168, 0, 0, 0],
     lf 5 571 [3328, 0, 0, 0], lf 1 429 [864691128656461824, 218106880, 0, 0],
     lf 3 553 [864691128690019840, 13194374417408, 0, 0], lf 3 667 [288230376252378112, 4398046512128, 0, 0],
     lf 2 684 [864691128656464896, 13194340860928, 0, 0], lf 1 500 [1024, 201326592, 0, 0],
     lf 3 1000 [201329664, 13194139533312, 0, 0], lf 2 600 [864691128656464896, 0, 0, 0],
     lf 4 500 [67111936, 3072, 0, 0], lf 2 1000 [864691128455135232, 4398247840768, 0, 0],
     lf 3 1000 [864691128455138304, 0, 0, 0], lf 4 875 [864691128656464896, 13194340862976, 0, 0],
     lf 3 714 [432345564294678272, 6597170431488, 0, 0], lf 3 457 [864691128656464896, 13194340862976, 0, 0],
     lf 2 571 [201328640, 5497759465472, 0, 0], lf 3 636 [864691128555799552, 4398247839232, 0, 0],
     lf 1 571 [360287970256750080, 67110400, 0, 0], lf 3 533 [864691128656465664, 13194139536384, 0, 0],
     lf 4 1000 [288230376151715328, 201327616, 0, 0], lf 1 333 [288230376218821632, 0, 0, 0],
     lf 2 1000 [864691128656464896, 13194206645248, 0, 0], lf 1 286 [864691128522247168, 13194139536384, 0, 0],
     lf 2 636 [864691128656464896, 3072, 0, 0], lf 1 500 [864691128656464896, 13194340859904, 0, 0],
     lf 3 857 [864691128656464896, 13194340862976, 0, 0], lf 2 1000 [288230376218820608, 3072, 0, 0],
     lf 3 478 [936748722694392832, 201329664, 0, 0], lf 2 688 [864691128673242880, 13194340862976, 0, 0],
     lf 1 333 [0, 13194340859904, 0, 0], lf 3 1000 [100664832, 67109888, 0, 0],
     lf 3 480 [864691128656464896, 13194340862976, 0, 0], lf 3 319 [864691128656464896, 13194357640192, 0, 0],
     lf 3 846 [864691128656464896, 13194139536896, 0, 0], lf 2 1000 [201326592, 8796294348800, 0, 0],
     lf 4 1000 [0, 8796093025280, 0, 0], lf 1 600 [67111936, 13194340862976, 0, 0],
     lf 3 571 [864691128656464896, 13194374417408, 0, 0], lf 1 625 [288230376218822144, 4398147174400, 0, 0],
     lf 3 800 [432345564294678016, 0, 0, 0], lf 0 1000 [67110144, 0, 0, 0],
     lf 2 517 [1008806316732321536, 15393380895744, 0, 0], lf 4 1000 [201326592, 13194206643200, 0, 0],
     lf 1 500 [1792, 6597136878592, 0, 0], lf 1 364 [288230376353041408, 13194340862976, 0, 0],
     lf 3 750 [864691128656464896, 4398113619968, 0, 0], lf 5 1000 [288230376151711744, 4398247840768, 0, 0],
     lf 1 1000 [201329664, 3072, 0, 0], lf 2 444 [864691128656464896, 13194340862976, 0, 0],
     lf 2 1000 [864691128690019328, 1024, 0, 0], lf 3 1000 [201326592, 3072, 0, 0],
     lf 1 1000 [201326592, 13194139534336, 0, 0], lf 4 1000 [1024, 13194206643200, 0, 0],
     lf 2 667 [201330176, 13194273754112, 0, 0], lf 1 846 [864691128656465152, 13194340862976, 0, 0],
     lf 3 520 [1008806316732320768, 13194357640192, 0, 0], lf 2 352 [1080863910803803904, 16492892524288, 0, 0],
     lf 2 571 [360287970390969344, 13194340862976, 0, 0], lf 3 727 [1008806316732321280, 13194340861440, 0, 0],
     lf 3 565 [1080863910770248704, 13194340863232, 0, 0], lf 1 800 [3072, 0, 0, 0],
     lf 1 500 [288230376353038336, 100666368, 0, 0], lf 2 846 [864691128522244096, 14293718273024, 0, 0],
     lf 1 1000 [864691128455135232, 1024, 0, 0], lf 2 778 [100664832, 1792, 0, 0],
     lf 3 1000 [288230376151713536, 7696581394432, 0, 0], lf 1 600 [360287970189639680, 5497625248768, 0, 0],
     lf 2 468 [864691128656464896, 13194340863488, 0, 0], lf 1 500 [576460752504753152, 13194340862976, 0, 0],
     lf 3 500 [864691128522245120, 4398046512128, 0, 0], lf 1 750 [864691128656462848, 13194273754112, 0, 0],
     lf 3 522 [864691128656464896, 4398247838720, 0, 0], lf 3 700 [3840, 0, 0, 0],
     lf 2 727 [288230376353039360, 4398247840768, 0, 0], lf 3 353 [288230376218820608, 6597136878592, 0, 0],
     lf 2 654 [864691128656464896, 4398247838720, 0, 0], lf 3 1000 [67109888, 201326592, 0, 0],
     lf 3 538 [288230376218821888, 13194206643200, 0, 0], lf 2 500 [288230376218823680, 1024, 0, 0]
    ]"

definition leaves1 :: "Leaf list" where
  "leaves1 =
    [
     lf 4 750 [864691128522247168, 13194139533312, 0, 0], lf 2 857 [864691128656464896, 13194340862976, 0, 0],
     lf 0 500 [3072, 67111936, 0, 0], lf 3 1000 [3072, 4398247840768, 0, 0],
     lf 2 600 [360287970390970112, 1024, 0, 0], lf 4 500 [288230376151711744, 5497625248768, 0, 0],
     lf 1 1000 [201326592, 13194340863488, 0, 0], lf 3 750 [1008806316598100992, 4398247838720, 0, 0],
     lf 3 684 [936748722694392832, 13194391195136, 0, 0], lf 2 750 [1536, 4398113619968, 0, 0],
     lf 3 1000 [288230376151712768, 4398113621504, 0, 0], lf 4 700 [288230376218822144, 1024, 0, 0],
     lf 3 800 [0, 7696682057728, 0, 0], lf 1 483 [360287970441298944, 4398130398208, 0, 0],
     lf 2 600 [864691128656464896, 13194340863488, 0, 0], lf 3 1000 [3072, 4398046511104, 0, 0],
     lf 2 1000 [1024, 4398046512128, 0, 0], lf 1 500 [201329664, 4398046511104, 0, 0],
     lf 1 750 [288230376151714816, 13194340859904, 0, 0], lf 3 500 [864691128656463872, 13194206645248, 0, 0],
     lf 2 1000 [864691128706797312, 0, 0, 0], lf 1 500 [134220800, 0, 0, 0],
     lf 4 714 [432345564311455232, 1024, 0, 0], lf 2 600 [864691128656464896, 0, 0, 0],
     lf 1 300 [0, 5497658805248, 0, 0], lf 1 1000 [0, 4398130398208, 0, 0],
     lf 2 1000 [0, 13194340859904, 0, 0], lf 3 1000 [576460752303423488, 201329664, 0, 0],
     lf 4 1000 [864691128589352960, 4398130400256, 0, 0], lf 3 444 [864691128656464896, 4398130398976, 0, 0],
     lf 3 606 [1008806316765875712, 14293902822912, 0, 0], lf 0 1000 [201329664, 67108864, 0, 0],
     lf 2 857 [936748722560175104, 13194139534336, 0, 0], lf 1 1000 [67111936, 0, 0, 0],
     lf 2 1000 [201328128, 67108864, 0, 0], lf 4 1000 [1536, 0, 0, 0],
     lf 3 516 [936748722727947776, 13194273754112, 0, 0], lf 1 500 [504403158332604416, 0, 0, 0],
     lf 1 545 [864691128656464896, 13194340862976, 0, 0], lf 3 500 [0, 13194206642176, 0, 0],
     lf 2 857 [864691128656464896, 201326592, 0, 0], lf 1 750 [201329664, 3072, 0, 0],
     lf 2 1000 [864691128455138304, 134217728, 0, 0], lf 3 455 [864691128656464896, 13194340860928, 0, 0],
     lf 1 1000 [864691128589356032, 13194139536384, 0, 0], lf 5 667 [864691128656461824, 0, 0, 0],
     lf 3 692 [864691128656464896, 13194273754112, 0, 0], lf 2 750 [864691128656464896, 201329664, 0, 0],
     lf 2 750 [576460752504753152, 13194206643200, 0, 0], lf 4 1000 [864691128656464896, 13194340862976, 0, 0],
     lf 1 1000 [3072, 3072, 0, 0], lf 3 500 [864691128656464896, 13194340859904, 0, 0],
     lf 1 333 [864691128656464896, 13194139536384, 0, 0], lf 2 1000 [864691128455138304, 3072, 0, 0],
     lf 2 474 [864691128656464896, 13194340862976, 0, 0], lf 0 333 [2048, 13194206644224, 0, 0],
     lf 2 833 [864691128656464896, 3072, 0, 0], lf 4 1000 [201326592, 13194139533312, 0, 0],
     lf 2 857 [288230376353041408, 3072, 0, 0], lf 3 833 [201329664, 201327616, 0, 0],
     lf 2 800 [1080863910636030976, 8796160134656, 0, 0], lf 2 1000 [864691128656461824, 0, 0, 0],
     lf 2 1000 [288230376151711744, 2199140696064, 0, 0], lf 4 588 [864691128656464896, 13194357640704, 0, 0],
     lf 1 714 [864691128589356032, 4398247840768, 0, 0], lf 2 600 [576460752437644288, 201329664, 0, 0],
     lf 3 600 [864691128589356032, 13194340862976, 0, 0], lf 3 750 [201329664, 13194340862976, 0, 0],
     lf 2 340 [864691128656464896, 13194340862976, 0, 0], lf 2 667 [288230376235598848, 4398247838720, 0, 0],
     lf 1 800 [864691128522247168, 1024, 0, 0], lf 4 667 [576460752504753152, 0, 0, 0],
     lf 2 900 [864691128656464896, 13194340861952, 0, 0], lf 3 1000 [288230376353039360, 1024, 0, 0],
     lf 2 750 [288230376353038336, 13194273752064, 0, 0], lf 4 1000 [201327616, 13194273751040, 0, 0],
     lf 0 986 [576179277595086847, 8792066428927, 0, 0], lf 0 933 [571112728010166265, 8727506718339, 0, 0],
     lf 0 333 [864691128656465288, 13194139533312, 0, 0], lf 1 500 [504684633443533824, 0, 0, 0],
     lf 0 1000 [120063552, 1992864825776, 0, 0], lf 2 571 [201329664, 15393364118528, 0, 0],
     lf 0 921 [575616327507118079, 8791932209151, 0, 0], lf 1 458 [1092122909767634936, 16767807980544, 0, 0],
     lf 2 483 [887209126793317376, 17042631560192, 0, 0], lf 1 875 [864691128656464896, 8383910383568, 0, 0],
     lf 3 1000 [288230376353038336, 134220800, 0, 0], lf 4 1000 [3072, 3072, 0, 0],
     lf 1 667 [864691128455138304, 13194273754112, 0, 0], lf 4 1000 [864691128656464896, 8796227243008, 0, 0],
     lf 2 1000 [3072, 8796294350848, 0, 0], lf 4 833 [864691128656464896, 4398247840928, 0, 0],
     lf 3 455 [864691128656464896, 13194340862976, 0, 0], lf 0 1000 [851180329573023744, 3072, 0, 0],
     lf 3 500 [864691128656461824, 13194340862976, 0, 0], lf 2 500 [0, 13194139536384, 0, 0],
     lf 1 1000 [576460752504753152, 4398122008576, 0, 0], lf 0 1000 [576460752303426560, 3072, 0, 0],
     lf 0 400 [864691128522247744, 201327616, 0, 0], lf 3 667 [864691128656464896, 13194273754112, 0, 0],
     lf 1 1000 [864691128589356032, 1024, 0, 0], lf 1 400 [864691128656463872, 13194340861952, 0, 0],
     lf 2 909 [864691128656464896, 8796294351872, 0, 0], lf 4 500 [288230376353041408, 0, 0, 0],
     lf 0 1000 [540431955284462592, 0, 0, 0], lf 1 800 [576460752504750080, 13194340862976, 0, 0],
     lf 2 800 [288230376353041408, 201326592, 0, 0], lf 2 800 [864691128656464896, 13194340862976, 0, 0],
     lf 2 571 [576460752504753408, 0, 0, 0], lf 4 1000 [576460752437644288, 13194273751040, 0, 0],
     lf 1 250 [864691128656464896, 13194340862976, 0, 0], lf 2 1000 [3072, 3072, 0, 0],
     lf 4 1000 [864691128589352960, 201329664, 0, 0], lf 3 739 [864691128656464896, 13194340862976, 0, 0],
     lf 2 475 [864691128656464944, 16776343587840, 0, 0], lf 3 472 [864691128656464896, 13194340862976, 0, 0],
     lf 4 368 [432345564428897280, 13194240198144, 0, 0], lf 3 714 [864691128589356032, 13194340862976, 0, 0],
     lf 4 667 [1024, 13194206645248, 0, 0], lf 3 857 [864691128656464896, 13194273752064, 0, 0],
     lf 2 1000 [67109888, 67109888, 0, 0], lf 1 500 [864691128656461824, 1024, 0, 0],
     lf 5 1000 [18158513701785762816, 277081158122496, 0, 0], lf 4 600 [864691128656468992, 13194609298432, 0, 0],
     lf 5 833 [576460752504753152, 13194340862976, 0, 0], lf 5 812 [2017612633196207104, 13194609298432, 0, 0],
     lf 4 1000 [201333760, 0, 0, 0], lf 2 727 [134220800, 0, 0, 0]
    ]"

definition leaves2 :: "Leaf list" where
  "leaves2 =
    [
     lf 4 500 [134223872, 0, 0, 0], lf 3 750 [864691128656464896, 13194340867072, 0, 0],
     lf 3 778 [864691128656463872, 13194609298432, 0, 0], lf 5 750 [469762048, 13194273751040, 0, 0],
     lf 2 750 [864691128924899328, 8796294351872, 0, 0], lf 4 625 [864691128656464896, 30786526907392, 0, 0],
     lf 3 750 [864691128656461824, 4398516276224, 0, 0], lf 2 500 [576460752303423488, 13194273758208, 0, 0],
     lf 5 900 [2017612633464642560, 30786795345920, 0, 0], lf 3 625 [576460752504753152, 13194340859904, 0, 0],
     lf 5 986 [2017612633531751424, 30786795346944, 0, 0], lf 5 960 [2017612633531759616, 30786795346944, 0, 0],
     lf 5 990 [2017612633531751424, 30786795346944, 0, 0], lf 5 995 [2017612633531751424, 30786795346944, 0, 0],
     lf 5 996 [18158513701785762816, 277081158122496, 0, 0], lf 2 1000 [432345564227568896, 1099612292864, 0, 0],
     lf 3 1000 [864691128522245632, 4398113623040, 0, 0], lf 3 1000 [288230376218821888, 0, 0, 0],
     lf 2 778 [864691128656464896, 13194206643200, 0, 0], lf 4 857 [288230376151714816, 4398281392128, 0, 0],
     lf 1 1000 [134220800, 0, 0, 0], lf 3 500 [864691128589352960, 201329664, 0, 0],
     lf 2 1000 [288230376353039360, 67110912, 0, 0], lf 3 607 [936748722694392832, 15393397672960, 0, 0],
     lf 2 1000 [864691128522247168, 13194139536384, 0, 0], lf 3 750 [864691128455138304, 13194206645248, 0, 0],
     lf 4 857 [288230376218821888, 3298635547648, 0, 0], lf 1 333 [864691128656462848, 4398113623040, 0, 0],
     lf 4 1000 [288230376353039360, 4398046511104, 0, 0], lf 1 500 [288230376235600896, 4398113621760, 0, 0],
     lf 2 800 [864691128656462848, 134220800, 0, 0], lf 3 750 [864691128656464896, 13194273754112, 0, 0],
     lf 2 471 [864691128656464896, 13194340863488, 0, 0], lf 1 400 [288230376353038336, 4398113620992, 0, 0],
     lf 3 900 [864691128522246144, 13194206645248, 0, 0], lf 1 571 [864691128656464896, 4398113620992, 0, 0],
     lf 1 1000 [432345564428895232, 0, 0, 0], lf 1 286 [288230376353041664, 1099595514880, 0, 0],
     lf 2 1000 [288230376353041408, 13194340860928, 0, 0], lf 1 667 [864691128589352960, 201329664, 0, 0],
     lf 2 857 [288230376353042176, 13194340862976, 0, 0], lf 1 333 [288230376218823680, 67111936, 0, 0],
     lf 2 400 [144115188277183488, 67111936, 0, 0], lf 4 1000 [288230376353039360, 1024, 0, 0],
     lf 1 360 [1080863910636030976, 15393397672960, 0, 0], lf 3 857 [288230376403373056, 83887104, 0, 0],
     lf 2 800 [67111936, 4398046511104, 0, 0], lf 2 683 [1008806316765875200, 4398147178240, 0, 0],
     lf 3 750 [288230376218821632, 13194139534336, 0, 0], lf 1 833 [201329664, 13194340862976, 0, 0],
     lf 5 1000 [0, 4398046512128, 0, 0], lf 1 500 [864691128522244096, 13194139535360, 0, 0],
     lf 2 1000 [864691128455135232, 13194273754112, 0, 0], lf 1 667 [576460752504753152, 13194340861952, 0, 0],
     lf 3 625 [864691128656464896, 13194340862976, 0, 0], lf 3 800 [864691128455138304, 13194340860928, 0, 0],
     lf 1 1000 [3072, 13194139533312, 0, 0], lf 2 1000 [864691128656464896, 13194340861952, 0, 0],
     lf 3 500 [3072, 134217728, 0, 0], lf 3 600 [134220800, 8796294350848, 0, 0],
     lf 4 500 [3840, 0, 0, 0], lf 3 857 [3072, 0, 0, 0],
     lf 4 1000 [1024, 0, 0, 0], lf 2 1000 [1792, 0, 0, 0],
     lf 4 1000 [1792, 0, 0, 0], lf 2 1000 [1536, 0, 0, 0],
     lf 0 1000 [3328, 0, 0, 0], lf 3 727 [3584, 0, 0, 0],
     lf 1 1000 [1280, 0, 0, 0], lf 2 857 [1024, 0, 0, 0],
     lf 1 500 [3072, 0, 0, 0], lf 3 1000 [3072, 0, 0, 0],
     lf 1 714 [3072, 0, 0, 0], lf 0 1000 [3072, 0, 0, 0],
     lf 1 750 [3072, 0, 0, 0], lf 2 1000 [3072, 0, 0, 0],
     lf 2 600 [3072, 0, 0, 0], lf 1 1000 [3072, 0, 0, 0],
     lf 3 833 [3072, 0, 0, 0], lf 4 714 [3072, 0, 0, 0],
     lf 2 571 [3072, 0, 0, 0], lf 1 750 [3072, 0, 0, 0],
     lf 2 1000 [3072, 0, 0, 0], lf 2 417 [3584, 0, 0, 0],
     lf 4 1000 [3072, 0, 0, 0], lf 2 556 [3072, 0, 0, 0],
     lf 2 781 [3840, 0, 0, 0], lf 4 833 [3584, 0, 0, 0],
     lf 1 400 [1280, 0, 0, 0], lf 2 500 [1280, 0, 0, 0],
     lf 3 846 [3072, 0, 0, 0], lf 4 1000 [3072, 0, 0, 0],
     lf 2 818 [3072, 0, 0, 0], lf 3 455 [3072, 0, 0, 0],
     lf 3 667 [3072, 0, 0, 0], lf 4 700 [3072, 0, 0, 0],
     lf 1 429 [360287970290304512, 4398046512896, 0, 0], lf 3 750 [288230376151711744, 5497642026496, 0, 0],
     lf 3 850 [1008806316732321280, 13194273754112, 0, 0], lf 1 500 [288230376353039360, 1024, 0, 0],
     lf 1 357 [864691128656464896, 6597271096320, 0, 0], lf 1 625 [576460752521530368, 13194139536384, 0, 0],
     lf 1 250 [1008806316648432640, 67111936, 0, 0], lf 2 1000 [864691128522247168, 13194340862976, 0, 0],
     lf 3 1000 [576460752370535424, 0, 0, 0], lf 1 750 [504403158366160128, 7696581395968, 0, 0],
     lf 3 875 [864691128455135232, 13194340862976, 0, 0], lf 2 375 [360287970256749568, 1024, 0, 0],
     lf 1 1000 [67108864, 67110144, 0, 0], lf 3 667 [864691128656464896, 3072, 0, 0],
     lf 1 400 [0, 13194340860928, 0, 0], lf 4 1000 [67108864, 13194340859904, 0, 0],
     lf 2 857 [1008806316732321024, 13194206643200, 0, 0], lf 3 706 [504403158366160128, 4398163952896, 0, 0],
     lf 3 520 [864691128656465152, 13194340862976, 0, 0], lf 0 500 [288230376151712768, 67109888, 0, 0],
     lf 2 765 [864691128690019328, 13194340862976, 0, 0], lf 3 375 [576460752504753152, 13194206645248, 0, 0],
     lf 2 441 [864691128673242880, 13194357640192, 0, 0], lf 3 1000 [864691128656461824, 3072, 0, 0],
     lf 3 400 [864691128656461824, 13194206645248, 0, 0], lf 2 1000 [864691128656464896, 0, 0, 0],
     lf 3 336 [1080863910820581120, 16492926078720, 0, 0], lf 1 471 [864691128656461824, 13194340862976, 0, 0],
     lf 3 1000 [864691128455135232, 4398247840768, 0, 0], lf 3 1000 [288230376218821632, 4398113623552, 0, 0],
     lf 1 667 [288230376218821632, 67110400, 0, 0], lf 2 857 [1008806316732320768, 3328, 0, 0]
    ]"

definition leaves3 :: "Leaf list" where
  "leaves3 =
    [
     lf 4 1000 [67109888, 1024, 0, 0], lf 3 500 [864691128455135232, 4398247841280, 0, 0],
     lf 2 929 [864691128706796544, 5497759468544, 0, 0], lf 3 833 [67111936, 13194223419392, 0, 0],
     lf 2 667 [0, 13194340862976, 0, 0], lf 3 352 [864691128656464896, 14293902822912, 0, 0],
     lf 2 667 [288230376151711744, 5497675580416, 0, 0], lf 3 1000 [67109888, 13194240197632, 0, 0],
     lf 3 1000 [576460752504751104, 0, 0, 0], lf 2 1000 [201329664, 0, 0, 0],
     lf 1 1000 [576460752504753152, 0, 0, 0], lf 2 875 [1008806316598099968, 13194340862976, 0, 0],
     lf 2 316 [864691128656464896, 201329664, 0, 0], lf 2 667 [1008806316732320768, 13194357640192, 0, 0],
     lf 4 750 [864691128455135232, 4398247840768, 0, 0], lf 2 850 [201330176, 13194206643200, 0, 0],
     lf 2 375 [1080863910820581120, 15393414450176, 0, 0], lf 3 1000 [134220800, 3072, 0, 0],
     lf 0 500 [3072, 0, 0, 0], lf 3 1000 [201326592, 13194340862976, 0, 0],
     lf 4 1000 [100664832, 67108864, 0, 0], lf 2 680 [864691128656464896, 13194374417408, 0, 0],
     lf 3 1000 [864691128455135232, 13194139534336, 0, 0], lf 4 556 [288230376353038336, 15393364118528, 0, 0],
     lf 1 1000 [288230376218820608, 0, 0, 0], lf 2 1000 [864691128522244096, 4398046511104, 0, 0],
     lf 1 1000 [864691128455138304, 4398046511104, 0, 0], lf 1 1000 [864691128522244096, 67112192, 0, 0],
     lf 2 400 [1008806316598103040, 0, 0, 0], lf 3 818 [288230376269154048, 0, 0, 0],
     lf 4 800 [432345564227567616, 4398130398208, 0, 0], lf 3 556 [432345564227567616, 7696648504832, 0, 0],
     lf 1 448 [288230376269154048, 15393263455232, 0, 0], lf 3 435 [1008806316782652672, 13194340863232, 0, 0],
     lf 3 1000 [864691128455136512, 13194139536384, 0, 0], lf 2 1000 [201326592, 4398130397184, 0, 0],
     lf 1 667 [576460752303426560, 13194340862976, 0, 0], lf 4 500 [1080863910568919040, 0, 0, 0],
     lf 3 1000 [864691128656464896, 134217728, 0, 0], lf 4 625 [864691128656464896, 15393364118528, 0, 0],
     lf 4 500 [432345564311455232, 1024, 0, 0], lf 2 923 [360287970290304256, 4398130398208, 0, 0],
     lf 1 333 [576460752303426560, 3072, 0, 0], lf 5 1000 [201329664, 4398046511104, 0, 0],
     lf 3 1000 [576460752504751104, 2048, 0, 0], lf 2 778 [864691128656464896, 13194139536384, 0, 0],
     lf 3 833 [3072, 13194340860928, 0, 0], lf 2 367 [1080863910820580608, 13194391195136, 0, 0],
     lf 0 1000 [432345564328230912, 0, 0, 0], lf 2 857 [288230376185267456, 13194340861440, 0, 0],
     lf 4 556 [576460752504752128, 8796294348800, 0, 0], lf 2 1000 [864691128656464896, 13194139533312, 0, 0],
     lf 3 571 [67109888, 100666368, 0, 0], lf 2 429 [117443584, 4398247840768, 0, 0],
     lf 4 882 [936748722694393600, 16492875746304, 0, 0], lf 2 500 [201329664, 0, 0, 0],
     lf 2 1000 [864691128656461824, 0, 0, 0], lf 3 1000 [201327616, 0, 0, 0],
     lf 4 1000 [288230376218821888, 1024, 0, 0], lf 3 1000 [288230376168490496, 100663296, 0, 0],
     lf 2 583 [432345564311454976, 4398147175680, 0, 0], lf 1 400 [67110656, 1024, 0, 0],
     lf 3 641 [432345564445674496, 13194340862976, 0, 0], lf 0 1000 [3072, 13194139533312, 0, 0],
     lf 4 1000 [1024, 3072, 0, 0], lf 2 667 [201326592, 67111936, 0, 0],
     lf 4 700 [864691128656464896, 13194340859904, 0, 0], lf 1 1000 [134220800, 13194139533312, 0, 0],
     lf 1 1000 [864691128455135232, 67108864, 0, 0], lf 2 444 [864691128656464896, 3072, 0, 0],
     lf 1 286 [864691128656465152, 14293852490752, 0, 0], lf 2 500 [100663296, 0, 0, 0],
     lf 4 1000 [288230376218823680, 4398046512128, 0, 0], lf 1 833 [201329664, 201326592, 0, 0],
     lf 1 833 [288230376353041408, 4398113620992, 0, 0], lf 3 682 [1008806316732321536, 4398247840768, 0, 0],
     lf 1 714 [864691128455136256, 201328640, 0, 0], lf 4 273 [864691128656462848, 13194206645248, 0, 0],
     lf 2 625 [288230376218821632, 1536, 0, 0], lf 3 643 [864691128656465408, 13194340862976, 0, 0],
     lf 3 750 [864691128656464896, 13194273753088, 0, 0], lf 2 1000 [201329664, 8796294350848, 0, 0],
     lf 1 500 [864691128656464896, 13194340862976, 0, 0], lf 3 588 [864691128656465408, 13194223420416, 0, 0],
     lf 3 667 [288230376151711744, 4398247838720, 0, 0], lf 2 875 [864691128539022848, 13194206645248, 0, 0],
     lf 2 875 [864691128522247424, 13194357640960, 0, 0], lf 3 1000 [288230376218822144, 0, 0, 0],
     lf 4 455 [288230376386595840, 4398046514176, 0, 0], lf 2 1000 [134220800, 4398147175424, 0, 0],
     lf 3 500 [288230376353041408, 13194340860928, 0, 0], lf 4 800 [3072, 67109888, 0, 0],
     lf 2 750 [432345564428897792, 67111936, 0, 0], lf 3 800 [864691128656464896, 3072, 0, 0],
     lf 1 1000 [288230376151711744, 13194139536384, 0, 0], lf 2 1000 [288230376151711744, 67111936, 0, 0],
     lf 2 833 [1008806316765875456, 234884608, 0, 0], lf 2 500 [201326592, 13194340862976, 0, 0],
     lf 3 857 [864691128522247168, 14293852490752, 0, 0], lf 1 667 [1024, 5497625248768, 0, 0],
     lf 4 778 [100665088, 4398046511104, 0, 0], lf 4 500 [288230376353038336, 201327616, 0, 0],
     lf 3 889 [864691128656464896, 4398247840768, 0, 0], lf 2 750 [201329664, 13194139534336, 0, 0],
     lf 1 1000 [864691128589352960, 67111936, 0, 0], lf 3 714 [864691128455138816, 13194273754112, 0, 0],
     lf 3 833 [432345564294677504, 6597069767680, 0, 0], lf 4 667 [134221056, 0, 0, 0],
     lf 2 800 [134220800, 0, 0, 0], lf 1 400 [864691128656462848, 13194340862976, 0, 0],
     lf 2 750 [864691128656465408, 13194139536384, 0, 0], lf 3 667 [3072, 13194139533312, 0, 0],
     lf 3 1000 [288230376353038336, 13194340862976, 0, 0], lf 1 500 [288230376353038336, 3072, 0, 0],
     lf 4 800 [864691128522247168, 4398113619968, 0, 0], lf 0 429 [201329664, 13194206645248, 0, 0],
     lf 2 750 [288230376353039360, 2048, 0, 0], lf 2 800 [864691128656464896, 13194206643200, 0, 0],
     lf 4 667 [1024, 201326592, 0, 0], lf 3 1000 [83887616, 0, 0, 0],
     lf 4 667 [288230376269154048, 5497658803200, 0, 0], lf 2 500 [864691128690020096, 13194340863232, 0, 0],
     lf 2 486 [864691128656464896, 134220800, 0, 0], lf 4 800 [0, 13194206642176, 0, 0],
     lf 3 444 [864691128656464896, 13194206644224, 0, 0], lf 2 1000 [864691128522247168, 13194206645248, 0, 0],
     lf 4 1000 [67111936, 0, 0, 0], lf 2 500 [864691128656461824, 13194340862976, 0, 0]
    ]"

definition leaves :: "Leaf list" where
  "leaves = leaves0 @ leaves1 @ leaves2 @ leaves3"

definition leafSafeA :: "bool list" where
  "leafSafeA =
    [
     True, False, False, False, False, False, False, False, True, False, False, False, False, False, False, False,
     False, False, False, True, False, False, True, False, False, True, False, False, False, False, False, False,
     False, False, False, False, False, False, False, False, False, False, False, False, False, False, False, False,
     False, False, False, False, False, False, False, False, False, False, False, False, False, False, False, False,
     False, False, False, False, True, False, True, False, False, False, False, True, False, False, False, False,
     False, False, False, False, False, False, False, False, False, True, False, False, False, False, False, False,
     False, False, False, False, False, True, False, False, False, False, False, False, False, False, False, False,
     False, False, True, False, False, False, False, False, False, False, False, False, False, False, False, False,
     False, False, False, False, False, False, True, False, False, False, False, False, False, False, False, False,
     True, False, False, False, True, False, False, False, False, False, True, True, False, False, False, False,
     False, False, False, False, False, False, False, False, False, False, True, False, False, False, False, False,
     False, True, False, False, False, False, False, False, False, True, True, False, False, False, False, False,
     False, False, False, False, False, False, False, False, False, False, False, True, False, False, False, False,
     True, False, False, False, False, False, True, False, False, True, True, False, False, True, False, False,
     False, True, False, False, True, False, False, False, True, False, False, False, False, True, False, True,
     True, False, False, False, False, False, False, False, False, False, False, False, False, False, True, False,
     False, False, False, False, False, False, False, False, False, False, False, False, False, False, False, True,
     True, True, False, False, True, False, False, False, True, False, False, False, True, False, False, False,
     False, False, False, False, True, False, True, False, False, False, False, False, False, False, False, False,
     False, False, True, False, True, False, False, False, True, True, False, False, False, False, False, True,
     False, False, False, False, False, False, False, True, False, True, False, True, False, False, False, False,
     False, False, False, False, True, False, False, False, False, False, False, True, False, False, False, False,
     False, False, False, False, False, False, False, True, True, False, False, False, False, False, False, False,
     False, False, False, False, False, False, False, True, False, True, False, False, False, False, False, False,
     True, False, False, False, False, False, False, True, True, True, True, False, False, False, False, False,
     False, True, False, True, True, False, True, False, False, True, True, True, False, False, False, False,
     False, False, True, True, False, False, False, False, False, False, False, False, False, False, False, False,
     True, False, False, True, False, False, False, False, False, True, True, True, False, False, False, True,
     False, False, False, True, True, False, False, False, True, False, False, False, False, False, False, False,
     False, True, False, False, False, False, False, False, False, True, False, False, False, False, True, True,
     False, False, False, False, False, False, False, False, True, False, False, False, False, False, False, False,
     True, False, False, False, False, False, False, False, False, False, False, False, False, True, True, False
    ]"

definition leafSafeB :: "bool list" where
  "leafSafeB =
    [
     True, False, False, True, False, False, False, False, False, True, True, True, False, True, False, False,
     False, True, False, False, True, False, True, True, False, False, False, False, True, False, False, False,
     True, False, True, True, False, False, False, False, True, True, False, True, False, True, True, False,
     False, True, True, False, False, True, True, False, True, False, False, True, False, True, True, True,
     False, False, False, False, False, False, False, False, False, True, True, False, True, True, False, False,
     True, False, False, False, True, False, False, False, False, False, False, False, False, True, False, True,
     True, True, True, False, False, True, False, True, False, False, False, False, False, False, False, False,
     True, False, False, False, False, True, True, True, False, True, True, False, False, False, False, False,
     False, True, False, False, True, False, False, False, False, False, True, True, True, False, False, False,
     True, False, False, False, True, False, False, True, False, False, False, False, False, True, False, False,
     False, False, True, False, False, True, True, True, False, True, False, False, True, False, True, True,
     True, True, True, True, True, False, True, False, False, True, True, False, False, False, False, True,
     False, True, True, False, True, False, False, True, False, False, False, True, True, True, True, True,
     True, True, True, True, True, True, True, True, True, True, True, True, True, True, True, True,
     False, True, True, True, True, True, True, True, True, True, True, True, True, True, True, True,
     True, True, True, True, False, False, True, False, False, False, True, True, True, True, True, True,
     True, True, True, True, False, True, True, True, True, True, True, True, True, True, True, False,
     True, True, False, False, False, False, False, True, True, True, False, False, False, False, True, False,
     False, True, False, True, True, False, True, False, False, False, True, False, False, False, True, False,
     False, True, True, False, False, False, True, True, False, True, False, True, True, False, False, True,
     True, True, True, True, True, False, True, True, False, True, True, True, True, True, True, True,
     True, True, False, False, False, True, True, True, True, True, True, True, True, True, True, True,
     True, True, False, True, False, False, False, True, True, True, False, True, False, True, False, False,
     True, False, True, False, True, False, False, False, False, True, True, False, False, False, False, False,
     True, True, False, False, False, False, False, True, True, True, True, True, False, True, True, False,
     False, False, True, False, True, False, False, False, True, True, False, True, False, True, False, False,
     False, False, False, False, False, True, False, False, False, False, True, True, False, False, False, False,
     False, True, False, False, False, False, False, False, False, False, True, True, True, True, True, True,
     False, False, False, True, False, False, False, False, True, True, True, False, False, False, False, True,
     True, False, True, False, True, False, False, False, False, True, False, False, False, True, False, False,
     False, False, True, False, False, False, True, False, False, False, True, False, True, True, False, True,
     True, False, False, False, False, True, False, False, False, False, False, True, False, False, True, False
    ]"

end
