(* ===== verification/Tree.thy ===== *)
theory Tree
  imports Tree_Tables
begin

text \<open>
  \<open>Predict\<close>, \<open>LeafSafeA\<close> and \<open>LeafSafeB\<close> of \<open>internal/tree/tree.go\<close>. The walk through
  the flat table is a partial function (\<^const>\<open>None\<close> for a panic and for a walk that never
  reaches a leaf); that it always returns is proved by recognising the table as the preorder
  linearisation of a binary decision tree.
\<close>

section \<open>The code\<close>

record Result =
  LeafID :: nat
  Count :: nat
  PurityMilli :: nat
  PartBitset :: "nat list"

definition readNode :: "int \<Rightarrow> Node option" where
  "readNode i = (if i < 0 then None else read_at nodes (nat i))"

definition leafResult :: "int \<Rightarrow> Result option" where
  "leafResult left =
     do {
       let leaf = nat ((- 1 - left) mod 65536);
       l \<leftarrow> read_at leaves leaf;
       Some \<lparr>LeafID = leaf, Count = lCount l, PurityMilli = lPurityMilli l, PartBitset = lPartBitset l\<rparr>
     }"

partial_function (option) walk :: "int list \<Rightarrow> int \<Rightarrow> Result option" where
  [code]: "walk q node =
     do {
       n \<leftarrow> readNode node;
       if Left n < 0 then leafResult (Left n)
       else do {
         v \<leftarrow> read_at q (Feat n);
         walk q (if v \<le> Thr n then Left n else Right n)
       }
     }"

definition Predict :: "int list \<Rightarrow> Result option" where
  "Predict q = walk q 0"

definition LeafSafeA :: "nat \<Rightarrow> bool option" where
  "LeafSafeA leaf = (if leaf \<ge> LeafCount then Some False else read_at leafSafeA leaf)"

definition LeafSafeB :: "nat \<Rightarrow> bool option" where
  "LeafSafeB leaf = (if leaf \<ge> LeafCount then Some False else read_at leafSafeB leaf)"

section \<open>Binary decision trees and their preorder tables\<close>

datatype dtree = Tip | Branch nat int dtree dtree

fun nodeCount :: "dtree \<Rightarrow> nat" where
  "nodeCount Tip = 1"
| "nodeCount (Branch f t a b) = 1 + nodeCount a + nodeCount b"

fun leafCount :: "dtree \<Rightarrow> nat" where
  "leafCount Tip = 1"
| "leafCount (Branch f t a b) = leafCount a + leafCount b"

fun feats :: "dtree \<Rightarrow> nat set" where
  "feats Tip = {}"
| "feats (Branch f t a b) = insert f (feats a \<union> feats b)"

text \<open>The index of the leaf a query falls into, counting leaves from the left.\<close>

fun leafOf :: "dtree \<Rightarrow> int list \<Rightarrow> nat" where
  "leafOf Tip q = 0"
| "leafOf (Branch f t a b) q = (if q ! f \<le> t then leafOf a q else leafCount a + leafOf b q)"

text \<open>The table of a tree that starts at index \<open>i\<close> and whose first leaf is number \<open>l\<close>.\<close>

fun lin :: "int \<Rightarrow> int \<Rightarrow> dtree \<Rightarrow> Node list" where
  "lin i l Tip = [nd 0 0 (- 1 - l) (- 1 - l)]"
| "lin i l (Branch f t a b) =
     nd f t (i + 1) (i + 1 + int (nodeCount a)) #
       lin (i + 1) l a @ lin (i + 1 + int (nodeCount a)) (l + int (leafCount a)) b"

text \<open>A linear scan that recognises such tables. The state is the index, the number of the next
  leaf, and the stack of the indices at which pending right subtrees must start.\<close>

fun run :: "int \<Rightarrow> int \<Rightarrow> int list \<Rightarrow> Node list \<Rightarrow> (int \<times> int \<times> int list) option" where
  "run i l st [] = Some (i, l, st)"
| "run i l st (n # ns) =
     (if Left n < 0
      then (case st of
          [] \<Rightarrow> None
        | r # st' \<Rightarrow> if r = i + 1 \<and> n = nd 0 0 (- 1 - l) (- 1 - l) then run (i + 1) (l + 1) st' ns else None)
      else if Left n = i + 1 \<and> Feat n < 16 then run (i + 1) l (Right n # st) ns else None)"

lemma length_lin [simp]: "length (lin i l T) = nodeCount T"
  by (induction i l T rule: lin.induct) simp_all

lemma leafOf_less: "leafOf T q < leafCount T"
  by (induction T q rule: leafOf.induct) auto

lemma run_append: "run i l st (xs @ ys) =
    (case run i l st xs of None \<Rightarrow> None | Some (i', l', st') \<Rightarrow> run i' l' st' ys)"
  by (induction i l st xs rule: run.induct) (auto split: list.splits)

lemma run_lin:
  assumes "run i l (r # st) ns = Some (i', l', [])"
  shows "\<exists>T rest. ns = lin i l T @ rest \<and> feats T \<subseteq> {..<16} \<and> r = i + int (nodeCount T) \<and>
    run r (l + int (leafCount T)) st rest = Some (i', l', [])"
  using assms
proof (induction "length ns" arbitrary: i l r st ns rule: less_induct)
  case less
  then obtain n ns' where ns: "ns = n # ns'" by (cases ns) auto
  show ?case
  proof (cases "Left n < 0")
    case True
    then have "ns = lin i l Tip @ ns'" "r = i + 1" "run (i + 1) (l + 1) st ns' = Some (i', l', [])"
      using less.prems by (simp_all add: ns split: if_splits)
    then show ?thesis by (intro exI [of _ Tip] exI [of _ ns']) simp
  next
    case False
    then have n: "Left n = i + 1" "Feat n < 16" "run (i + 1) l (Right n # r # st) ns' = Some (i', l', [])"
      using less.prems by (auto simp: ns split: if_splits)
    have "length ns' < length ns" by (simp add: ns)
    from less.hyps [OF this n(3)]
    obtain A rest where A: "ns' = lin (i + 1) l A @ rest" "feats A \<subseteq> {..<16}"
      "Right n = i + 1 + int (nodeCount A)" "run (Right n) (l + int (leafCount A)) (r # st) rest = Some (i', l', [])"
      by blast
    have "length rest < length ns" by (simp add: ns A(1))
    from less.hyps [OF this A(4)]
    obtain B rest' where B: "rest = lin (Right n) (l + int (leafCount A)) B @ rest'" "feats B \<subseteq> {..<16}"
      "r = Right n + int (nodeCount B)" "run r (l + int (leafCount A) + int (leafCount B)) st rest' = Some (i', l', [])"
      by blast
    have "n = nd (Feat n) (Thr n) (i + 1) (i + 1 + int (nodeCount A))"
      using n(1) A(3) by (cases n) (simp add: nd_def)
    then have "ns = lin i l (Branch (Feat n) (Thr n) A B) @ rest'"
      by (simp add: ns A(1) B(1) A(3))
    moreover have "feats (Branch (Feat n) (Thr n) A B) \<subseteq> {..<16}" using A(2) B(2) n(2) by simp
    ultimately show ?thesis using B(3,4) A(3)
      by (intro exI [of _ "Branch (Feat n) (Thr n) A B"] exI [of _ rest']) (simp add: algebra_simps)
  qed
qed

lemma readNode_mid:
  assumes "nodes = pre @ n # post"
  shows "readNode (int (length pre)) = Some n"
  unfolding readNode_def read_at_def assms by simp

lemma walk_lin:
  assumes "nodes = pre @ lin (int (length pre)) l T @ post" "0 \<le> l" "feats T \<subseteq> {..<16}" "length q = 16"
  shows "walk q (int (length pre)) = leafResult (- 1 - (l + int (leafOf T q)))"
  using assms
proof (induction T arbitrary: pre l post)
  case Tip
  then have "readNode (int (length pre)) = Some (nd 0 0 (- 1 - l) (- 1 - l))"
    by (intro readNode_mid) simp
  then show ?case using Tip.prems(2) by (subst walk.simps) (simp add: nd_def)
next
  case (Branch f t A B)
  let ?i = "int (length pre)"
  let ?n = "nd f t (?i + 1) (?i + 1 + int (nodeCount A))"
  have rd: "readNode ?i = Some ?n" by (rule readNode_mid) (use Branch.prems(1) in simp)
  have rf: "read_at q f = Some (q ! f)" using Branch.prems by (simp add: read_at_def)
  have w: "walk q ?i = walk q (if q ! f \<le> t then ?i + 1 else ?i + 1 + int (nodeCount A))"
    by (subst walk.simps) (simp add: rd, simp add: nd_def rf)
  show ?case
  proof (cases "q ! f \<le> t")
    case True
    have "walk q (int (length (pre @ [?n]))) = leafResult (- 1 - (l + int (leafOf A q)))"
      using Branch.prems
      by (intro Branch.IH(1) [where post = "lin (?i + 1 + int (nodeCount A)) (l + int (leafCount A)) B @ post"])
        (simp_all add: algebra_simps)
    then show ?thesis using w True by (simp add: algebra_simps)
  next
    case False
    have "walk q (int (length (pre @ [?n] @ lin (?i + 1) l A))) = leafResult (- 1 - (l + int (leafCount A) + int (leafOf B q)))"
      using Branch.prems by (intro Branch.IH(2) [where post = post]) (simp_all add: algebra_simps)
    then show ?thesis using w False by (simp add: algebra_simps)
  qed
qed

section \<open>The tables\<close>

lemma run_nodes0:
  "run 0 0 [1023] nodes0 = Some (147, 70, [148, 151, 154, 155, 172, 409, 488, 1023])"
  by code_simp

lemma run_nodes1:
  "run 147 70 [148, 151, 154, 155, 172, 409, 488, 1023] nodes1 = Some (294, 142, [305, 320, 339, 378, 379, 380, 387, 396, 409, 488, 1023])"
  by code_simp

lemma run_nodes2:
  "run 294 142 [305, 320, 339, 378, 379, 380, 387, 396, 409, 488, 1023] nodes2 = Some (441, 218, [444, 447, 454, 463, 488, 1023])"
  by code_simp

lemma run_nodes3:
  "run 441 218 [444, 447, 454, 463, 488, 1023] nodes3 = Some (588, 293, [589, 592, 1023])"
  by code_simp

lemma run_nodes4:
  "run 588 293 [589, 592, 1023] nodes4 = Some (735, 363, [738, 739, 740, 743, 812, 825, 844, 873, 948, 1023])"
  by code_simp

lemma run_nodes5:
  "run 735 363 [738, 739, 740, 743, 812, 825, 844, 873, 948, 1023] nodes5 = Some (882, 438, [883, 884, 887, 930, 935, 948, 1023])"
  by code_simp

lemma run_nodes6:
  "run 882 438 [883, 884, 887, 930, 935, 948, 1023] nodes6 = Some (1023, 512, [])"
  by code_simp

lemma run_nodes: "run 0 0 [1023] nodes = Some (1023, 512, [])"
  unfolding nodes_def run_append
  by (simp only: run_nodes0 run_nodes1 run_nodes2 run_nodes3 run_nodes4 run_nodes5 run_nodes6 option.case prod.case)

lemma length_leaves: "length leaves = 512" 
  by (simp add: leaves_def leaves0_def leaves1_def leaves2_def leaves3_def)

lemma length_leafSafe: "length leafSafeA = 512" "length leafSafeB = 512"
  by (simp_all add: leafSafeA_def leafSafeB_def)

lemma leaf_counts: "list_all (\<lambda>l. lCount l \<le> 5 \<and> lPurityMilli l \<le> 1000) leaves"
  by (simp add: leaves_def leaves0_def leaves1_def leaves2_def leaves3_def lf_def)

lemma length_nodes: "length nodes = 1023"
  by (simp add: nodes_def nodes0_def nodes1_def nodes2_def nodes3_def nodes4_def nodes5_def nodes6_def)

lemma nodes_tree:
  "\<exists>T. nodes = lin 0 0 T \<and> feats T \<subseteq> {..<16} \<and> leafCount T = 512"
proof -
  obtain T rest where T: "nodes = lin 0 0 T @ rest" "feats T \<subseteq> {..<16}" "1023 = int (nodeCount T)"
    "run 1023 (int (leafCount T)) [] rest = Some (1023, 512, [])"
    using run_lin [OF run_nodes] by auto
  have "length nodes = nodeCount T + length rest" by (simp add: T(1))
  then have "rest = []" using T(3) by (simp add: length_nodes)
  then show ?thesis using T by (intro exI [of _ T]) simp
qed

lemma leafResult_ok:
  assumes "k < 512"
  shows "\<exists>r. leafResult (- 1 - int k) = Some r \<and> LeafID r = k \<and> Count r = lCount (leaves ! k) \<and>
    PurityMilli r = lPurityMilli (leaves ! k) \<and> PartBitset r = lPartBitset (leaves ! k)"
  using assms by (simp add: leafResult_def read_at_def length_leaves)

section \<open>Properties\<close>

text \<open>(C24) The flat table is a binary decision tree: \<open>nodes\<close> is the preorder table of a tree with
  512 leaves, numbered from the left, that tests only the sixteen features of a query, and
  \<open>Predict\<close> returns the entry of \<open>leaves\<close> of the leaf the query falls into.\<close>

theorem Predict_evaluates_tree:
  "\<exists>T. nodes = lin 0 0 T \<and> leafCount T = LeafCount \<and>
     (\<forall>q. length q = 16 \<longrightarrow>
        (\<exists>r. Predict q = Some r \<and> LeafID r = leafOf T q \<and> Count r = lCount (leaves ! leafOf T q)))"
proof -
  obtain T where T: "nodes = lin 0 0 T" "feats T \<subseteq> {..<16}" "leafCount T = 512" using nodes_tree by blast
  have "\<exists>r. Predict q = Some r \<and> LeafID r = leafOf T q \<and> Count r = lCount (leaves ! leafOf T q)"
    if "length q = 16" for q
    using walk_lin [of "[]" 0 T "[]" q] T that leafResult_ok [of "leafOf T q"] leafOf_less [of T q]
    by (auto simp: Predict_def)
  then show ?thesis using T by (auto simp: LeafCount_def)
qed

lemma Predict_ok:
  assumes "length q = 16"
  shows "\<exists>r a b. Predict q = Some r \<and> LeafID r < 512 \<and> Count r \<le> 5 \<and>
    LeafSafeA (LeafID r) = Some a \<and> LeafSafeB (LeafID r) = Some b"
proof -
  obtain T where T: "nodes = lin 0 0 T" "feats T \<subseteq> {..<16}" "leafCount T = 512" using nodes_tree by blast
  let ?k = "leafOf T q"
  have k: "?k < 512" using leafOf_less [of T q] T(3) by simp
  obtain r where r: "Predict q = Some r" "LeafID r = ?k" "Count r = lCount (leaves ! ?k)"
    using walk_lin [of "[]" 0 T "[]" q] T assms leafResult_ok [OF k] by (auto simp: Predict_def)
  moreover have "lCount (leaves ! ?k) \<le> 5"
    using leaf_counts k by (simp add: list_all_length length_leaves)
  ultimately show ?thesis
    using k by (simp add: LeafSafeA_def LeafSafeB_def LeafCount_def read_at_def length_leafSafe)
qed

text \<open>\<open>Predict\<close> always returns: for every query of sixteen values the walk reaches a leaf
  without reading outside a table, the leaf id is below 512, the count is a number of frauds out
  of five, and both safety tables can be read at the leaf.\<close>

theorem Predict_total:
  assumes "length q = 16"
  shows "\<exists>r a b. Predict q = Some r \<and> LeafID r < 512 \<and> Count r \<le> 5 \<and>
    LeafSafeA (LeafID r) = Some a \<and> LeafSafeB (LeafID r) = Some b"
  using assms by (rule Predict_ok)

theorem Predict_evaluates_tree_witness:
  "\<exists>T. nodes = lin 0 0 T \<and> LeafCount = leafCount T \<and>
     (\<exists>r. Predict (replicate 16 0) = Some r \<and> LeafID r = leafOf T (replicate 16 0))"
proof -
  obtain T where "nodes = lin 0 0 T" "leafCount T = LeafCount" and
    q: "\<forall>q. length q = 16 \<longrightarrow>
        (\<exists>r. Predict q = Some r \<and> LeafID r = leafOf T q \<and> Count r = lCount (leaves ! leafOf T q))"
    using Predict_evaluates_tree by blast
  moreover have "\<exists>r. Predict (replicate 16 0) = Some r \<and> LeafID r = leafOf T (replicate 16 0)"
    using q [rule_format, of "replicate 16 0"] by auto
  ultimately show ?thesis by auto
qed

theorem Predict_total_witness:
  "\<exists>r. Predict (replicate 16 0) = Some r \<and> LeafID r < 512 \<and> Count r \<le> 5"
  using Predict_total [of "replicate 16 0"] by auto

end
