(* ===== verification/Float_Model.thy ===== *)
theory Float_Model
  imports Prelude "HOL-Library.Log_Nat"
begin

text \<open>
  The floating-point arithmetic the program uses: Go's \<open>float32\<close> and \<open>float64\<close>, that is
  IEEE 754 binary32 and binary64 with round-to-nearest-even. A value is NaN, an infinity or the
  rational number it denotes; every operation computes on rationals and rounds once.

  The two zeros are identified. Nothing the program does tells them apart: comparisons treat
  them as equal, and the only division that can meet a zero divisor is \<open>readF32\<close>'s, whose
  divisor comes from an unsigned integer.
\<close>

section \<open>Rounding\<close>

datatype fl = NaN | Inf bool | Fin rat

definition flog2 :: "rat \<Rightarrow> int" where
  "flog2 x = (case quotient_of x of (n, d) \<Rightarrow>
     let k = bitlen n - bitlen d in if 2 powi k \<le> x then k else k - 1)"

definition rne :: "rat \<Rightarrow> int" where
  "rne x = (let f = \<lfloor>x\<rfloor>; r = x - of_int f
     in if r < 1 / 2 then f else if r > 1 / 2 then f + 1 else if even f then f else f + 1)"

definition ulpExp :: "int \<Rightarrow> int \<Rightarrow> rat \<Rightarrow> int" where
  "ulpExp p emin x = max (flog2 \<bar>x\<bar>) emin - p + 1"

definition roundVal :: "int \<Rightarrow> int \<Rightarrow> rat \<Rightarrow> rat" where
  "roundVal p emin x =
     (if x = 0 then 0 else of_int (rne (x / 2 powi ulpExp p emin x)) * 2 powi ulpExp p emin x)"

definition roundTo :: "int \<Rightarrow> int \<Rightarrow> int \<Rightarrow> rat \<Rightarrow> fl" where
  "roundTo p emin emax x =
     (let y = roundVal p emin x in if \<bar>y\<bar> \<ge> 2 powi (emax + 1) then Inf (y < 0) else Fin y)"

definition round32 :: "rat \<Rightarrow> fl" where
  "round32 = roundTo 24 (- 126) 127"

definition round64 :: "rat \<Rightarrow> fl" where
  "round64 = roundTo 53 (- 1022) 1023"

section \<open>Arithmetic\<close>

fun fl_neg :: "fl \<Rightarrow> fl" where
  "fl_neg NaN = NaN"
| "fl_neg (Inf s) = Inf (\<not> s)"
| "fl_neg (Fin x) = Fin (- x)"

fun fl_add :: "(rat \<Rightarrow> fl) \<Rightarrow> fl \<Rightarrow> fl \<Rightarrow> fl" where
  "fl_add rnd (Fin x) (Fin y) = rnd (x + y)"
| "fl_add rnd NaN _ = NaN"
| "fl_add rnd _ NaN = NaN"
| "fl_add rnd (Inf s) (Inf t) = (if s = t then Inf s else NaN)"
| "fl_add rnd (Inf s) (Fin _) = Inf s"
| "fl_add rnd (Fin _) (Inf t) = Inf t"

fun fl_mul :: "(rat \<Rightarrow> fl) \<Rightarrow> fl \<Rightarrow> fl \<Rightarrow> fl" where
  "fl_mul rnd (Fin x) (Fin y) = rnd (x * y)"
| "fl_mul rnd NaN _ = NaN"
| "fl_mul rnd _ NaN = NaN"
| "fl_mul rnd (Inf s) (Inf t) = Inf (s \<noteq> t)"
| "fl_mul rnd (Inf s) (Fin y) = (if y = 0 then NaN else Inf (s \<noteq> (y < 0)))"
| "fl_mul rnd (Fin x) (Inf t) = (if x = 0 then NaN else Inf (t \<noteq> (x < 0)))"

text \<open>A zero divisor is a positive zero.\<close>

fun fl_div :: "(rat \<Rightarrow> fl) \<Rightarrow> fl \<Rightarrow> fl \<Rightarrow> fl" where
  "fl_div rnd (Fin x) (Fin y) =
     (if y = 0 then if x = 0 then NaN else Inf (x < 0) else rnd (x / y))"
| "fl_div rnd NaN _ = NaN"
| "fl_div rnd _ NaN = NaN"
| "fl_div rnd (Inf s) (Inf t) = NaN"
| "fl_div rnd (Inf s) (Fin y) = Inf (s \<noteq> (y < 0))"
| "fl_div rnd (Fin x) (Inf t) = Fin 0"

fun fl_less :: "fl \<Rightarrow> fl \<Rightarrow> bool" where
  "fl_less (Fin x) (Fin y) \<longleftrightarrow> x < y"
| "fl_less NaN _ \<longleftrightarrow> False"
| "fl_less _ NaN \<longleftrightarrow> False"
| "fl_less (Inf s) (Inf t) \<longleftrightarrow> s \<and> \<not> t"
| "fl_less (Inf s) (Fin _) \<longleftrightarrow> s"
| "fl_less (Fin _) (Inf t) \<longleftrightarrow> \<not> t"

definition fl_le :: "fl \<Rightarrow> fl \<Rightarrow> bool" where
  "fl_le x y \<longleftrightarrow> fl_less x y \<or> (x = y \<and> x \<noteq> NaN)"

fun fl_map :: "(rat \<Rightarrow> fl) \<Rightarrow> fl \<Rightarrow> fl" where
  "fl_map f (Fin x) = f x"
| "fl_map f NaN = NaN"
| "fl_map f (Inf s) = Inf s"

text \<open>\<open>int16(x)\<close>: the value truncated toward zero. Outside the range of the type the result is
  implementation-dependent, and so is that of NaN: \<^const>\<open>None\<close>.\<close>

definition truncQ :: "rat \<Rightarrow> int" where
  "truncQ x = (if x \<ge> 0 then \<lfloor>x\<rfloor> else \<lceil>x\<rceil>)"

fun toInt16 :: "fl \<Rightarrow> int option" where
  "toInt16 (Fin x) = (if - 32768 \<le> truncQ x \<and> truncQ x \<le> 32767 then Some (truncQ x) else None)"
| "toInt16 _ = None"

section \<open>The exponent\<close>

lemma bitlen_bounds_rat:
  assumes "0 < (n::int)"
  shows "(2::rat) powi (bitlen n - 1) \<le> of_int n" "of_int n < (2::rat) powi (bitlen n)"
proof -
  have b: "2 ^ nat (bitlen n - 1) \<le> n" "n < 2 ^ nat (bitlen n)" "0 < bitlen n"
    using bitlen_bounds [OF assms] assms by (simp_all add: bitlen_eq_zero_iff bitlen_nonneg order_less_le)
  have "(2::rat) powi (bitlen n - 1) = of_int (2 ^ nat (bitlen n - 1))" using b(3) by (simp add: power_int_def)
  then show "(2::rat) powi (bitlen n - 1) \<le> of_int n" using b(1) by (simp only: of_int_le_iff)
  have "(2::rat) powi (bitlen n) = of_int (2 ^ nat (bitlen n))" using b(3) by (simp add: power_int_def)
  then show "of_int n < (2::rat) powi (bitlen n)" using b(2) by (simp only: of_int_less_iff)
qed

lemma flog2_bounds:
  assumes "0 < x"
  shows "2 powi flog2 x \<le> x" "x < 2 powi (flog2 x + 1)"
proof -
  obtain n d where q: "quotient_of x = (n, d)" by force
  have d: "0 < d" using quotient_of_denom_pos [OF q] .
  have x: "x = of_int n / of_int d" using quotient_of_div [OF q] .
  have n: "0 < n" using assms d by (simp add: x zero_less_divide_iff)
  define k where "k = bitlen n - bitlen d"
  note bn = bitlen_bounds_rat [OF n] and bd = bitlen_bounds_rat [OF d]
  have "2 powi (bitlen n - 1) / 2 powi bitlen d \<le> x"
    unfolding x using bn(1) bd(2) d n by (intro frac_le) simp_all
  moreover have "2 powi (bitlen n - 1) / 2 powi bitlen d = (2::rat) powi (k - 1)"
    by (simp add: k_def power_int_diff flip: power_int_minus)
  ultimately have lo: "2 powi (k - 1) \<le> x" by simp
  have "x < 2 powi bitlen n / 2 powi (bitlen d - 1)"
    unfolding x using bn bd n d by (intro frac_less) (simp_all add: less_imp_le)
  moreover have "2 powi bitlen n / 2 powi (bitlen d - 1) = (2::rat) powi (k + 1)"
    by (simp add: k_def power_int_diff power_int_add)
  ultimately have hi: "x < 2 powi (k + 1)" by simp
  have f: "flog2 x = (if 2 powi k \<le> x then k else k - 1)"
    by (simp add: flog2_def q k_def Let_def)
  show "2 powi flog2 x \<le> x" "x < 2 powi (flog2 x + 1)"
    using lo hi by (simp_all add: f not_le)
qed

lemma flog2_le: "0 < x \<Longrightarrow> x < 2 powi (k + 1) \<Longrightarrow> flog2 x \<le> k"
proof (rule ccontr)
  assume x: "0 < x" "x < 2 powi (k + 1)" and "\<not> flog2 x \<le> k"
  then have "(2::rat) powi (k + 1) \<le> 2 powi flog2 x" by (intro power_int_increasing) simp_all
  then show False using x flog2_bounds(1) [OF x(1)] by simp
qed

section \<open>Rounding to nearest\<close>

lemma rne_of_int [simp]: "rne (of_int n) = n"
  by (simp add: rne_def Let_def)

lemma rne_error: "\<bar>of_int (rne x) - x\<bar> \<le> 1 / 2"
proof -
  have "of_int \<lfloor>x\<rfloor> \<le> x" "x < of_int \<lfloor>x\<rfloor> + 1" by linarith+
  then show ?thesis by (auto simp: rne_def Let_def abs_le_iff)
qed

lemma rne_mono:
  assumes "x \<le> y"
  shows "rne x \<le> rne y"
proof -
  have fl: "\<lfloor>x\<rfloor> \<le> \<lfloor>y\<rfloor>" by (rule floor_mono [OF assms])
  have bx: "of_int \<lfloor>x\<rfloor> \<le> x" "x < of_int \<lfloor>x\<rfloor> + 1" and by': "of_int \<lfloor>y\<rfloor> \<le> y" "y < of_int \<lfloor>y\<rfloor> + 1" by linarith+
  have r: "\<lfloor>z\<rfloor> \<le> rne z" "rne z \<le> \<lfloor>z\<rfloor> + 1" for z by (simp_all add: rne_def Let_def)
  show ?thesis
  proof (cases "\<lfloor>x\<rfloor> = \<lfloor>y\<rfloor>")
    case True
    then show ?thesis using assms by (auto simp: rne_def Let_def)
  next
    case False
    then show ?thesis using fl r(1) [of y] r(2) [of x] by linarith
  qed
qed

lemma powi_pos [simp]: "0 < (2::rat) powi k"
  by simp

lemma roundVal_0 [simp]: "roundVal p emin 0 = 0"
  by (simp add: roundVal_def)

lemma roundVal_le:
  assumes "x \<le> of_int m * 2 powi ulpExp p emin x" "x \<noteq> 0"
  shows "roundVal p emin x \<le> of_int m * 2 powi ulpExp p emin x"
proof -
  have "x / 2 powi ulpExp p emin x \<le> of_int m" using assms(1) by (simp add: divide_le_eq)
  from rne_mono [OF this] show ?thesis using assms(2) by (simp add: roundVal_def)
qed

lemma roundVal_ge:
  assumes "of_int m * 2 powi ulpExp p emin x \<le> x" "x \<noteq> 0"
  shows "of_int m * 2 powi ulpExp p emin x \<le> roundVal p emin x"
proof -
  have "of_int m \<le> x / 2 powi ulpExp p emin x" using assms(1) by (simp add: le_divide_eq)
  from rne_mono [OF this] show ?thesis using assms(2) by (simp add: roundVal_def)
qed

lemma roundVal_error: "\<bar>roundVal p emin x - x\<bar> \<le> 2 powi (ulpExp p emin x) / 2"
proof (cases "x = 0")
  case False
  let ?u = "2 powi ulpExp p emin x :: rat"
  have "roundVal p emin x - x = (of_int (rne (x / ?u)) - x / ?u) * ?u" using False by (simp add: roundVal_def algebra_simps)
  then have "\<bar>roundVal p emin x - x\<bar> = \<bar>of_int (rne (x / ?u)) - x / ?u\<bar> * ?u" by (simp add: abs_mult)
  also have "\<dots> \<le> (1 / 2) * ?u" by (intro mult_right_mono rne_error) simp
  finally show ?thesis by simp
qed simp

text \<open>A multiple of a power of two is a multiple of every smaller power.\<close>

lemma powi_multiple:
  assumes "k \<le> e"
  obtains m' where "of_int m * (2::rat) powi e = of_int m' * 2 powi k"
proof
  have "(2::rat) powi e = 2 powi (e - k) * 2 powi k" by (simp flip: power_int_add)
  moreover have "(2::rat) powi (e - k) = of_int (2 ^ nat (e - k))" using assms by (simp add: power_int_def)
  ultimately show "of_int m * (2::rat) powi e = of_int (m * 2 ^ nat (e - k)) * 2 powi k" by simp
qed

lemma roundVal_bound:
  assumes "x \<noteq> 0" "ulpExp p emin x \<le> e"
  shows "x \<le> of_int m * 2 powi e \<Longrightarrow> roundVal p emin x \<le> of_int m * 2 powi e"
    "of_int m * 2 powi e \<le> x \<Longrightarrow> of_int m * 2 powi e \<le> roundVal p emin x"
proof -
  obtain m' where m': "of_int m * (2::rat) powi e = of_int m' * 2 powi ulpExp p emin x"
    using powi_multiple [OF assms(2)] .
  show "x \<le> of_int m * 2 powi e \<Longrightarrow> roundVal p emin x \<le> of_int m * 2 powi e"
    "of_int m * 2 powi e \<le> x \<Longrightarrow> of_int m * 2 powi e \<le> roundVal p emin x"
    unfolding m' using roundVal_le [of x m' p emin] roundVal_ge [of m' p emin x] assms(1) by simp_all
qed

lemma roundVal_exact: "ulpExp p emin x \<le> e \<Longrightarrow> x = of_int m * 2 powi e \<Longrightarrow> roundVal p emin x = x"
  using roundVal_bound [of x p emin e m] by (cases "x = 0") (auto intro: antisym)

lemma ulpExp_le:
  assumes "x \<noteq> 0" "\<bar>x\<bar> < 2 powi (k + 1)" "emin \<le> k"
  shows "ulpExp p emin x \<le> k - p + 1"
  using flog2_le [of "\<bar>x\<bar>" k] assms by (simp add: ulpExp_def)

lemma roundVal_nonneg: "0 \<le> x \<Longrightarrow> 0 \<le> roundVal p emin x"
  using roundVal_ge [of 0 p emin x] by (cases "x = 0") simp_all

lemma roundVal_nonpos: "x \<le> 0 \<Longrightarrow> roundVal p emin x \<le> 0"
  using roundVal_le [of x 0 p emin] by (cases "x = 0") simp_all

lemma roundVal_abs_le:
  assumes "\<bar>x\<bar> \<le> 2 powi e" "emin \<le> e" "1 \<le> p"
  shows "\<bar>roundVal p emin x\<bar> \<le> 2 powi e"
proof (cases "x = 0")
  case False
  have "(2::rat) powi e < 2 powi (e + 1)" by (simp add: power_int_add)
  then have "ulpExp p emin x \<le> e" using ulpExp_le [OF False _ assms(2), of p] assms by simp
  from roundVal_bound(1) [OF False this, of 1] roundVal_bound(2) [OF False this, of "- 1"] assms(1)
  show ?thesis by (simp add: abs_le_iff)
qed simp

lemma roundTo_Fin:
  assumes "\<bar>x\<bar> \<le> 2 powi e" "emin \<le> e" "e \<le> emax" "1 \<le> p"
  shows "roundTo p emin emax x = Fin (roundVal p emin x)"
proof -
  have "(2::rat) powi e < 2 powi (emax + 1)" using assms(3) by (intro power_int_strict_increasing) simp_all
  then have "\<bar>roundVal p emin x\<bar> < 2 powi (emax + 1)" using roundVal_abs_le [OF assms(1,2,4)] by simp
  then show ?thesis by (simp add: roundTo_def Let_def)
qed

lemma round32_Fin: "\<bar>x\<bar> \<le> 2 ^ 64 \<Longrightarrow> round32 x = Fin (roundVal 24 (- 126) x)"
  using roundTo_Fin [of x 64 "- 126" 127 24] by (simp add: round32_def)

lemma round64_Fin: "\<bar>x\<bar> \<le> 2 ^ 64 \<Longrightarrow> round64 x = Fin (roundVal 53 (- 1022) x)"
  using roundTo_Fin [of x 64 "- 1022" 1023 53] by (simp add: round64_def)

lemma round32_int: "\<bar>n\<bar> < 2 ^ 24 \<Longrightarrow> round32 (of_int n) = Fin (of_int n)"
proof -
  assume n: "\<bar>n\<bar> < 2 ^ 24"
  then have n': "\<bar>of_int n :: rat\<bar> < 2 ^ 24"
    by (metis of_int_abs of_int_less_iff of_int_numeral of_int_power)
  have "roundVal 24 (- 126) (of_int n) = (of_int n :: rat)"
  proof (cases "n = 0")
    case False
    then have "ulpExp 24 (- 126) (of_int n) \<le> 0"
      using ulpExp_le [of "of_int n" 23 "- 126" 24] n' by simp
    then show ?thesis by (rule roundVal_exact [where m = n]) simp
  qed simp
  then show ?thesis using round32_Fin [of "of_int n"] n' by simp
qed

end
