(* ===== verification/Quantize.thy ===== *)
theory Quantize
  imports Float_Model Kernel
begin

text \<open>
  \<open>Quantize\<close> and \<open>roundF32\<close> of \<open>internal/knn/knn.go\<close>: the fixed-point image of a feature
  vector. The conversion \<open>int16\<close> of NaN is implementation-dependent in Go; it is the value
  \<^const>\<open>None\<close> here, and NaN is shown to be the only input that reaches it.
\<close>

section \<open>The code\<close>

abbreviation (input) "QuantScale \<equiv> Fin 10000"
abbreviation (input) "QuantMax \<equiv> Fin 10000"

definition floor64 :: "fl \<Rightarrow> fl" where
  "floor64 = fl_map (\<lambda>x. Fin (of_int \<lfloor>x\<rfloor>))"

definition ceil64 :: "fl \<Rightarrow> fl" where
  "ceil64 = fl_map (\<lambda>x. Fin (of_int \<lceil>x\<rceil>))"

definition roundF32 :: "fl \<Rightarrow> fl" where
  "roundF32 x =
     (if fl_le (Fin 0) x then fl_map round32 (floor64 (fl_add round64 x (Fin (1 / 2))))
      else fl_map round32 (ceil64 (fl_add round64 x (Fin (- 1 / 2)))))"

definition quantOne :: "fl \<Rightarrow> int option" where
  "quantOne v =
     (let x = fl_mul round32 v QuantScale;
          x' = (if fl_less QuantMax x then QuantMax
                else if fl_less x (fl_neg QuantMax) then fl_neg QuantMax else x)
      in toInt16 (roundF32 x'))"

definition Quantize :: "fl list \<Rightarrow> int list option" where
  "Quantize v = do { xs \<leftarrow> those (map quantOne v); Some (xs @ replicate (PADDED_DIMS - DIMS) 0) }"

lemma those_None_mem: "None \<in> set xs \<Longrightarrow> those xs = None"
  by (induction xs) (auto split: option.splits)

lemma those_Some_nth: "those (map f xs) = Some ys \<Longrightarrow> length ys = length xs \<and> (\<forall>i<length xs. f (xs ! i) = Some (ys ! i))"
proof (induction xs arbitrary: ys)
  case (Cons x xs)
  then obtain y zs where "f x = Some y" "those (map f xs) = Some zs" "ys = y # zs"
    by (auto split: option.splits)
  then show ?case using Cons.IH [of zs] by (auto simp: less_Suc_eq_0_disj nth_Cons split: nat.splits)
qed simp

section \<open>Rounding to an integer\<close>

text \<open>On the clamped range the two 64-bit steps of \<open>roundF32\<close> yield an integer within a hair of
  a half of the argument.\<close>

lemma powi_39: "(2::rat) powi (- 39) / 2 = 1 / 2 ^ 40"
  by (simp add: power_int_minus divide_simps)

lemma near_up: "\<bar>y - (x + 1 / 2)\<bar> \<le> d \<Longrightarrow> n \<le> y \<Longrightarrow> y < n + 1 \<Longrightarrow> \<bar>n - x\<bar> \<le> 1 / 2 + d" for x y :: rat
  by linarith

lemma near_down: "\<bar>y - (x + - 1 / 2)\<bar> \<le> d \<Longrightarrow> y \<le> n \<Longrightarrow> n - 1 < y \<Longrightarrow> \<bar>n - x\<bar> \<le> 1 / 2 + d" for x y :: rat
  by linarith

lemma near_trans: "\<bar>n - x\<bar> \<le> a \<Longrightarrow> \<bar>x - z\<bar> \<le> b \<Longrightarrow> \<bar>n - z\<bar> \<le> a + b" for x :: rat
  by linarith

lemma small24: "- 10000 \<le> n \<Longrightarrow> n \<le> 0 \<Longrightarrow> \<bar>n\<bar> < 2 ^ 24" for n :: int
  by simp

lemma half_up:
  assumes "0 \<le> x" "x \<le> 10000"
  shows "\<exists>n. roundF32 (Fin x) = Fin (of_int n) \<and> 0 \<le> n \<and> n \<le> 10000 \<and> \<bar>of_int n - x\<bar> \<le> 1 / 2 + 1 / 2 ^ 40"
proof -
  let ?y = "roundVal 53 (- 1022) (x + 1 / 2)" and ?n = "\<lfloor>roundVal 53 (- 1022) (x + 1 / 2)\<rfloor>"
  have nz: "x + 1 / 2 \<noteq> 0" and ab: "\<bar>x + 1 / 2\<bar> = x + 1 / 2" using assms by auto
  have u: "ulpExp 53 (- 1022) (x + 1 / 2) \<le> - 39"
    using ulpExp_le [OF nz, of 13 "- 1022" 53] ab assms(2) by simp
  then have "(2::rat) powi ulpExp 53 (- 1022) (x + 1 / 2) \<le> 2 powi (- 39)" by (intro power_int_increasing) simp_all
  then have "(2::rat) powi ulpExp 53 (- 1022) (x + 1 / 2) / 2 \<le> 1 / 2 ^ 40" using powi_39 by linarith
  then have err: "\<bar>?y - (x + 1 / 2)\<bar> \<le> 1 / 2 ^ 40"
    using roundVal_error [of 53 "- 1022" "x + 1 / 2"] by linarith
  have "?y \<le> of_int 20001 * 2 powi (- 1)"
    using u assms by (intro roundVal_bound(1) [OF nz]) (simp_all add: power_int_def)
  then have hi: "?n \<le> 10000" by (simp add: power_int_def floor_le_iff)
  have lo: "0 \<le> ?n" using roundVal_nonneg [of "x + 1 / 2" 53 "- 1022"] assms(1) by simp
  have fl: "of_int ?n \<le> ?y" "?y < of_int ?n + 1" by linarith+
  have "\<bar>of_int ?n - x\<bar> \<le> 1 / 2 + 1 / 2 ^ 40" by (rule near_up [OF err fl])
  moreover have "roundF32 (Fin x) = Fin (of_int ?n)"
    using assms hi lo round64_Fin [of "x + 1 / 2"] round32_int [of ?n]
    by (simp add: roundF32_def fl_le_def floor64_def)
  ultimately show ?thesis using hi lo by blast
qed

lemma half_down:
  assumes "- 10000 \<le> x" "x < 0"
  shows "\<exists>n. roundF32 (Fin x) = Fin (of_int n) \<and> - 10000 \<le> n \<and> n \<le> 0 \<and> \<bar>of_int n - x\<bar> \<le> 1 / 2 + 1 / 2 ^ 40"
proof -
  let ?y = "roundVal 53 (- 1022) (x + - 1 / 2)" and ?n = "\<lceil>roundVal 53 (- 1022) (x + - 1 / 2)\<rceil>"
  have nz: "x + - 1 / 2 \<noteq> 0" and ab: "\<bar>x + - 1 / 2\<bar> = - x + 1 / 2" using assms by auto
  have u: "ulpExp 53 (- 1022) (x + - 1 / 2) \<le> - 39"
    using ulpExp_le [OF nz, of 13 "- 1022" 53] ab assms(1) by simp
  then have "(2::rat) powi ulpExp 53 (- 1022) (x + - 1 / 2) \<le> 2 powi (- 39)" by (intro power_int_increasing) simp_all
  then have "(2::rat) powi ulpExp 53 (- 1022) (x + - 1 / 2) / 2 \<le> 1 / 2 ^ 40" using powi_39 by linarith
  then have err: "\<bar>?y - (x + - 1 / 2)\<bar> \<le> 1 / 2 ^ 40"
    using roundVal_error [of 53 "- 1022" "x + - 1 / 2"] by linarith
  have "of_int (- 20001) * 2 powi (- 1) \<le> ?y"
    using u assms by (intro roundVal_bound(2) [OF nz]) (simp_all add: power_int_def)
  then have lo: "- 10000 \<le> ?n" by (simp add: power_int_def le_ceiling_iff)
  have hi: "?n \<le> 0" using roundVal_nonpos [of "x + - 1 / 2" 53 "- 1022"] assms(2) by simp
  have fl: "?y \<le> of_int ?n" "of_int ?n - 1 < ?y" by linarith+
  have "\<bar>of_int ?n - x\<bar> \<le> 1 / 2 + 1 / 2 ^ 40" by (rule near_down [OF err fl])
  moreover have "round32 (of_int ?n) = Fin (of_int ?n)" by (rule round32_int [OF small24 [OF lo hi]])
  then have "roundF32 (Fin x) = Fin (of_int ?n)"
    using assms round64_Fin [of "x + - 1 / 2"]
    by (simp add: roundF32_def fl_le_def ceil64_def)
  ultimately show ?thesis using hi lo by blast
qed

lemma roundF32_range:
  assumes "- 10000 \<le> x" "x \<le> 10000"
  shows "\<exists>n. toInt16 (roundF32 (Fin x)) = Some n \<and> - 10000 \<le> n \<and> n \<le> 10000 \<and> \<bar>of_int n - x\<bar> \<le> 1 / 2 + 1 / 2 ^ 40"
proof -
  obtain n where n: "roundF32 (Fin x) = Fin (of_int n)" "- 10000 \<le> n" "n \<le> 10000" "\<bar>of_int n - x\<bar> \<le> 1 / 2 + 1 / 2 ^ 40"
    using half_up [of x] half_down [of x] assms by (cases "0 \<le> x") force+
  then show ?thesis by (intro exI [of _ n]) (simp add: truncQ_def)
qed

lemma clamp_cases:
  assumes "y \<noteq> NaN"
  shows "\<exists>x. (if fl_less (Fin 10000) y then Fin 10000
      else if fl_less y (fl_neg (Fin 10000)) then fl_neg (Fin 10000) else y) = Fin x \<and> - 10000 \<le> x \<and> x \<le> 10000"
  using assms by (cases y) auto

lemma round32_not_NaN [simp]: "round32 x \<noteq> NaN"
  by (simp add: round32_def roundTo_def Let_def)

lemma quantOne_range:
  assumes "v \<noteq> NaN"
  shows "\<exists>n. quantOne v = Some n \<and> - 10000 \<le> n \<and> n \<le> 10000"
proof -
  let ?x = "fl_mul round32 v (Fin 10000)"
  have "?x \<noteq> NaN" using assms by (cases v) auto
  from clamp_cases [OF this] obtain x where "(if fl_less (Fin 10000) ?x then Fin 10000
      else if fl_less ?x (fl_neg (Fin 10000)) then fl_neg (Fin 10000) else ?x) = Fin x" "- 10000 \<le> x" "x \<le> 10000"
    by blast
  then show ?thesis using roundF32_range [of x] unfolding quantOne_def Let_def by auto
qed

lemma quantOne_NaN: "quantOne NaN = None"
  by (simp add: quantOne_def roundF32_def fl_le_def ceil64_def Let_def)

lemma quantOne_error:
  assumes "\<bar>r\<bar> \<le> 1"
  shows "\<exists>n. quantOne (Fin r) = Some n \<and> \<bar>of_int n - 10000 * r\<bar> \<le> 501 / 1000"
proof -
  let ?x = "roundVal 24 (- 126) (r * 10000)"
  have r: "- 10000 \<le> r * 10000" "r * 10000 \<le> 10000" using assms by auto
  have "- 10000 \<le> ?x \<and> ?x \<le> 10000 \<and> \<bar>?x - r * 10000\<bar> \<le> 1 / 2 ^ 11"
  proof (cases "r * 10000 = 0")
    case False
    have u: "ulpExp 24 (- 126) (r * 10000) \<le> - 10"
      using ulpExp_le [OF False, of 13 "- 126" 24] r by simp
    then have "(2::rat) powi ulpExp 24 (- 126) (r * 10000) \<le> 2 powi (- 10)" by (intro power_int_increasing) simp_all
    moreover have "(2::rat) powi (- 10) / 2 = 1 / 2 ^ 11" by (simp add: power_int_minus divide_simps)
    ultimately have "\<bar>?x - r * 10000\<bar> \<le> 1 / 2 ^ 11"
      using roundVal_error [of 24 "- 126" "r * 10000"] by linarith
    moreover have "?x \<le> of_int 10000 * 2 powi 0" using u r by (intro roundVal_bound(1) [OF False]) simp_all
    moreover have "of_int (- 10000) * 2 powi 0 \<le> ?x" using u r by (intro roundVal_bound(2) [OF False]) simp_all
    ultimately show ?thesis by simp
  qed simp
  then have x: "- 10000 \<le> ?x" "?x \<le> 10000" "\<bar>?x - r * 10000\<bar> \<le> 1 / 2 ^ 11" by simp_all
  obtain n where n: "toInt16 (roundF32 (Fin ?x)) = Some n" "\<bar>of_int n - ?x\<bar> \<le> 1 / 2 + 1 / 2 ^ 40"
    using roundF32_range [OF x(1,2)] by blast
  have "round32 (r * 10000) = Fin ?x" using r by (intro round32_Fin) (simp add: abs_le_iff)
  then have "quantOne (Fin r) = Some n" using x n(1) by (simp add: quantOne_def Let_def)
  moreover have "\<bar>of_int n - 10000 * r\<bar> \<le> (1 / 2 + 1 / 2 ^ 40) + 1 / 2 ^ 11"
    using near_trans [OF n(2) x(3)] by (simp add: mult.commute)
  then have "\<bar>of_int n - 10000 * r\<bar> \<le> 501 / 1000" by (rule order_trans) simp
  ultimately show ?thesis by blast
qed

text \<open>Rounding to 32 bits keeps a product on its side of the bounds of the clamp.\<close>

lemma roundVal_beyond:
  assumes "10000 \<le> \<bar>x\<bar>"
  shows "0 < x \<Longrightarrow> 10000 \<le> roundVal 24 (- 126) x" "x < 0 \<Longrightarrow> roundVal 24 (- 126) x \<le> - 10000"
proof -
  have nz: "x \<noteq> 0" and pos: "0 < \<bar>x\<bar>" using assms by auto
  note f = flog2_bounds [OF pos]
  have "13 \<le> flog2 \<bar>x\<bar>"
  proof (rule ccontr)
    assume "\<not> 13 \<le> flog2 \<bar>x\<bar>"
    then have "(2::rat) powi (flog2 \<bar>x\<bar> + 1) \<le> 2 powi 13" by (intro power_int_increasing) simp_all
    then show False using f(2) assms by simp
  qed
  then consider "flog2 \<bar>x\<bar> = 13" | "14 \<le> flog2 \<bar>x\<bar>" by linarith
  then have "\<exists>m e. ulpExp 24 (- 126) x \<le> e \<and> of_int m * (2::rat) powi e \<le> \<bar>x\<bar> \<and> 10000 \<le> of_int m * (2::rat) powi e"
  proof cases
    case 1
    then show ?thesis using assms by (intro exI [of _ 10000] exI [of _ 0]) (simp add: ulpExp_def)
  next
    case 2
    have "(2::rat) powi 14 \<le> 2 powi flog2 \<bar>x\<bar>" using 2 by (intro power_int_increasing) simp_all
    then show ?thesis using 2 f(1) by (intro exI [of _ 1] exI [of _ "flog2 \<bar>x\<bar>"]) (simp add: ulpExp_def)
  qed
  then obtain m e where m: "ulpExp 24 (- 126) x \<le> e" "of_int m * (2::rat) powi e \<le> \<bar>x\<bar>" "10000 \<le> of_int m * (2::rat) powi e"
    by blast
  show "0 < x \<Longrightarrow> 10000 \<le> roundVal 24 (- 126) x"
    using roundVal_bound(2) [OF nz m(1), of m] m(2,3) by simp
  show "x < 0 \<Longrightarrow> roundVal 24 (- 126) x \<le> - 10000"
    using roundVal_bound(1) [OF nz m(1), of "- m"] m(2,3) by simp
qed

lemma clamp_beyond:
  assumes "10000 \<le> \<bar>x\<bar>"
  shows "(if fl_less (Fin 10000) (round32 x) then Fin 10000
    else if fl_less (round32 x) (fl_neg (Fin 10000)) then fl_neg (Fin 10000) else round32 x) = Fin (if 0 < x then 10000 else - 10000)"
proof -
  have "x \<noteq> 0" using assms by auto
  then consider "0 < x" "10000 \<le> roundVal 24 (- 126) x" | "x < 0" "roundVal 24 (- 126) x \<le> - 10000"
    using roundVal_beyond [OF assms] by linarith
  then show ?thesis by cases (simp_all add: round32_def roundTo_def Let_def)
qed

lemma roundF32_bounds: "toInt16 (roundF32 (Fin 10000)) = Some 10000" "toInt16 (roundF32 (Fin (- 10000))) = Some (- 10000)"
proof -
  obtain n where n: "toInt16 (roundF32 (Fin 10000)) = Some n" "\<bar>of_int n - (10000 :: rat)\<bar> \<le> 1 / 2 + 1 / 2 ^ 40"
    using roundF32_range [of 10000] by auto
  have "of_int \<bar>n - 10000\<bar> < (1 :: rat)" using n(2) by simp
  then have "\<bar>n - 10000\<bar> < 1" by linarith
  then show "toInt16 (roundF32 (Fin 10000)) = Some 10000" using n(1) by simp
  obtain n where n: "toInt16 (roundF32 (Fin (- 10000))) = Some n" "\<bar>of_int n - (- 10000 :: rat)\<bar> \<le> 1 / 2 + 1 / 2 ^ 40"
    using roundF32_range [of "- 10000"] by auto
  have "of_int \<bar>n + 10000\<bar> < (1 :: rat)" using n(2) by simp
  then have "\<bar>n + 10000\<bar> < 1" by linarith
  then show "toInt16 (roundF32 (Fin (- 10000))) = Some (- 10000)" using n(1) by simp
qed

lemma quantOne_beyond:
  assumes "1 \<le> \<bar>r\<bar>"
  shows "quantOne (Fin r) = Some (if 0 < r then 10000 else - 10000)"
proof -
  have "10000 \<le> \<bar>r * 10000\<bar>" using assms by simp
  then show ?thesis using clamp_beyond [of "r * 10000"] by (simp add: quantOne_def Let_def roundF32_bounds)
qed

lemma quantOne_clamped: "\<exists>n. quantOne (Fin r) = Some n \<and> \<bar>of_int n - 10000 * max (- 1) (min 1 r)\<bar> \<le> 501 / 1000"
proof (cases "\<bar>r\<bar> \<le> 1")
  case True
  then have "max (- 1) (min 1 r) = r" by (auto simp: max_def min_def)
  then show ?thesis using quantOne_error [OF True] by simp
next
  case False
  then have "10000 * max (- 1) (min 1 r) = of_int (if 0 < r then 10000 else - 10000)" by (auto simp: max_def min_def)
  then show ?thesis using quantOne_beyond [of r] False by simp
qed

lemma quantOne_Inf: "quantOne (Inf s) = Some (if s then - 10000 else 10000)"
  by (simp add: quantOne_def Let_def roundF32_bounds)

lemma Quantize_range:
  assumes "length v = 14"
  shows "if NaN \<in> set v then Quantize v = None
    else \<exists>q. Quantize v = Some q \<and> query_ok q \<and> q ! 14 = 0 \<and> q ! 15 = 0"
proof (cases "NaN \<in> set v")
  case True
  then have "None \<in> set (map quantOne v)" using quantOne_NaN by force
  then have "those (map quantOne v) = None" by (metis those_None_mem)
  then show ?thesis using True by (simp add: Quantize_def)
next
  case False
  have "x \<noteq> NaN" if "x \<in> set v" for x using False that by metis
  then have q: "\<exists>n. quantOne x = Some n \<and> - 10000 \<le> n \<and> n \<le> 10000" if "x \<in> set v" for x
    using quantOne_range that by blast
  have "those (map quantOne v) = Some (map (\<lambda>x. the (quantOne x)) v)"
    using q by (intro those_map_Some) fastforce
  moreover have "in_range (map (\<lambda>x. the (quantOne x)) v)"
    using q by (fastforce simp: in_range_def)
  ultimately show ?thesis
    using assms False by (simp add: Quantize_def query_ok_def in_range_def nth_append numeral_2_eq_2)
qed

section \<open>Properties\<close>

text \<open>A quantized query is within the kernels' range: whatever the fourteen features are, as
  long as none is NaN, \<open>Quantize\<close> returns sixteen values between $-10000$ and $10000$, the
  last two of them zero; it meets an implementation-dependent conversion exactly when a feature
  is NaN.\<close>

theorem Quantize_in_range:
  assumes "length v = 14"
  shows "if NaN \<in> set v then Quantize v = None
    else \<exists>q. Quantize v = Some q \<and> query_ok q \<and> q ! 14 = 0 \<and> q ! 15 = 0"
  using assms by (rule Quantize_range)

text \<open>(C36) Accuracy of the quantization, for every feature: a finite feature $r$, however large, becomes an integer within
  $0.501$ of $10000$ times $r$ clamped to $[-1, 1]$, all rounding of the 32-bit product and of the 64-bit
  half addition included; an infinite one becomes the bound of its sign.\<close>

theorem Quantize_error:
  assumes "Quantize v = Some q" "i < length v"
  shows "case v ! i of NaN \<Rightarrow> False | Inf s \<Rightarrow> q ! i = (if s then - 10000 else 10000)
    | Fin r \<Rightarrow> \<bar>of_int (q ! i) - 10000 * max (- 1) (min 1 r)\<bar> \<le> 501 / 1000"
proof -
  obtain xs where xs: "those (map quantOne v) = Some xs" "q = xs @ replicate 2 0"
    using assms(1) by (auto simp: Quantize_def split: bind_splits)
  have len: "length xs = length v" and nth: "quantOne (v ! i) = Some (xs ! i)"
    using those_Some_nth [OF xs(1)] assms(2) by auto
  have q: "q ! i = xs ! i" using len assms(2) by (simp add: xs(2) nth_append)
  show ?thesis
  proof (cases "v ! i")
    case NaN
    then show ?thesis using nth quantOne_NaN by simp
  next
    case (Inf s)
    then show ?thesis using nth q by (simp add: quantOne_Inf)
  next
    case (Fin r)
    then show ?thesis using quantOne_clamped [of r] nth q by auto
  qed
qed

definition v_mixed :: "fl list" where
  "v_mixed = [Fin 1, Fin (1 / 4), Fin (- 7), Inf False] @ replicate 10 (Fin 0)"

theorem Quantize_in_range_witness: "\<exists>q. Quantize v_mixed = Some q \<and> query_ok q"
  using Quantize_in_range [of v_mixed] by (auto simp: v_mixed_def)

theorem Quantize_error_witness:
  "\<exists>q. Quantize v_mixed = Some q \<and> \<bar>of_int (q ! 2) - - 10000\<bar> \<le> (501 / 1000 :: rat) \<and> q ! 3 = 10000"
proof -
  obtain q where q: "Quantize v_mixed = Some q" using Quantize_range [of v_mixed] by (auto simp: v_mixed_def)
  show ?thesis using q Quantize_error [OF q, of 2] Quantize_error [OF q, of 3] by (simp add: v_mixed_def)
qed

end
