(* ===== verification/Jsonp.thy ===== *)
theory Jsonp
  imports Float_Model
begin

text \<open>
  The request parser (\<open>internal/jsonp/json.go\<close>). The Go code walks an index through a buffer;
  here every function takes the rest of the buffer and returns what is left of it, so that
  \<open>buf[start:i]\<close> is a prefix of the argument. \<open>ErrMalformed\<close> is the left side of a sum.

  The five object readers have the same loop around a switch over the key. The loop
  \<open>readFields\<close> is defined once, with the switch as an argument and a bound on its iterations;
  a value of \<^const>\<open>None\<close> would mean that the bound was too small. The locale
  \<open>field_reader\<close> states what the loop needs of a switch, and in it the length of the rest of
  the buffer is shown to be enough.
\<close>

section \<open>The payload\<close>

record Payload =
  Amount :: fl
  Installments :: nat
  RequestedAt :: bytes
  AvgAmount :: fl
  TxCount24h :: nat
  KnownMerchants :: "bytes list"
  KnownN :: nat
  MerchantID :: bytes
  MCC :: bytes
  MerchantAvgAmount :: fl
  IsOnline :: bool
  CardPresent :: bool
  KmFromHome :: fl
  HasLast :: bool
  LastTimestamp :: bytes
  LastKmFromCurrent :: fl

definition Payload0 :: Payload where
  "Payload0 = \<lparr>Amount = Fin 0, Installments = 0, RequestedAt = [], AvgAmount = Fin 0, TxCount24h = 0,
     KnownMerchants = replicate 16 [], KnownN = 0, MerchantID = [], MCC = [], MerchantAvgAmount = Fin 0,
     IsOnline = False, CardPresent = False, KmFromHome = Fin 0, HasLast = False, LastTimestamp = [],
     LastKmFromCurrent = Fin 0\<rparr>"

datatype Malformed = ErrMalformed

type_synonym 'a reader = "bytes \<Rightarrow> Malformed + ('a \<times> bytes)"

section \<open>Tokens\<close>

definition isWs :: "char \<Rightarrow> bool" where
  "isWs c \<longleftrightarrow> c = CHR '' '' \<or> c = CHR 0x09 \<or> c = CHR 0x0D \<or> c = CHR 0x0A"

definition skipWs :: "bytes \<Rightarrow> bytes" where
  "skipWs s = dropWhile isWs s"

definition expect :: "char \<Rightarrow> bytes \<Rightarrow> Malformed + bytes" where
  "expect c s = (case skipWs s of [] \<Rightarrow> Inl ErrMalformed | x # r \<Rightarrow> if x = c then Inr r else Inl ErrMalformed)"

definition readStr :: "bytes reader" where
  "readStr s =
     (case skipWs s of
        [] \<Rightarrow> Inl ErrMalformed
      | x # r \<Rightarrow>
          if x \<noteq> CHR 0x22 then Inl ErrMalformed
          else (case dropWhile (\<lambda>c. c \<noteq> CHR 0x22) r of
                  [] \<Rightarrow> Inl ErrMalformed
                | _ # r' \<Rightarrow> Inr (takeWhile (\<lambda>c. c \<noteq> CHR 0x22) r, r')))"

definition readKey :: "bytes reader" where
  "readKey s = readStr s"

definition readBool :: "bool reader" where
  "readBool s =
     (let r = skipWs s
      in if take 4 r = ''true'' then Inr (True, drop 4 r)
         else if take 5 r = ''false'' then Inr (False, drop 5 r)
         else Inl ErrMalformed)"

definition isDigit :: "char \<Rightarrow> bool" where
  "isDigit c \<longleftrightarrow> (48::nat) \<le> of_char c \<and> (of_char c :: nat) \<le> 57"

definition readU32 :: "nat reader" where
  "readU32 s =
     (let r = skipWs s; ds = takeWhile isDigit r
      in if ds = [] then Inl ErrMalformed
         else Inr (foldl (\<lambda>v c. u32 (u32 (v * 10) + byte_sub c CHR ''0'')) 0 ds, dropWhile isDigit r))"

section \<open>Numbers\<close>

text \<open>The extent of a number: an optional sign, then digits, dots, exponent letters and, once an
  exponent letter was seen, signs.\<close>

fun numTail :: "bool \<Rightarrow> bytes \<Rightarrow> bytes \<times> bool \<times> bytes" where
  "numTail hasExp [] = ([], hasExp, [])"
| "numTail hasExp (c # r) =
     (if isDigit c \<or> c = CHR ''.'' then (case numTail hasExp r of (t, e, r') \<Rightarrow> (c # t, e, r'))
      else if c = CHR ''e'' \<or> c = CHR ''E'' then (case numTail True r of (t, e, r') \<Rightarrow> (c # t, e, r'))
      else if (c = CHR ''+'' \<or> c = CHR ''-'') \<and> hasExp then (case numTail hasExp r of (t, e, r') \<Rightarrow> (c # t, e, r'))
      else ([], hasExp, c # r))"

definition isSign :: "char \<Rightarrow> bool" where
  "isSign c \<longleftrightarrow> c = CHR ''-'' \<or> c = CHR ''+''"

definition numToken :: "bytes \<Rightarrow> bytes \<times> bool \<times> bytes" where
  "numToken s =
     (case s of
        c # r \<Rightarrow> if isSign c then (case numTail False r of (t, e, r') \<Rightarrow> (c # t, e, r')) else numTail False s
      | [] \<Rightarrow> ([], False, []))"

definition u64 :: "nat \<Rightarrow> nat" where
  "u64 n = n mod 2 ^ 64"

definition accDigits :: "nat \<Rightarrow> bytes \<Rightarrow> nat" where
  "accDigits v ds = foldl (\<lambda>v c. u64 (v * 10 + byte_sub c CHR ''0'')) v ds"

definition plainF32 :: "bytes \<Rightarrow> fl" where
  "plainF32 s =
     (let neg = (s \<noteq> [] \<and> hd s = CHR ''-'');
          t = (if s \<noteq> [] \<and> isSign (hd s) then tl s else s);
          intPart = accDigits 0 (takeWhile (\<lambda>c. c \<noteq> CHR ''.'') t);
          frac = (case dropWhile (\<lambda>c. c \<noteq> CHR ''.'') t of [] \<Rightarrow> [] | _ # r \<Rightarrow> r);
          fracPart = accDigits 0 frac;
          fracPow = foldl (\<lambda>v c. u64 (v * 10)) 1 frac;
          v = fl_add round32 (round32 (of_nat intPart)) (fl_div round32 (round32 (of_nat fracPart)) (round32 (of_nat fracPow)))
      in if neg then fl_neg v else v)"

text \<open>\<open>strconv.ParseFloat\<close> (with the rounding of the width) on the characters a number can have: a decimal mantissa with at
  least one digit and at most one dot, an exponent that stops growing at 10000, nothing left
  over; the correctly rounded value, or a range error when it overflows.\<close>

definition digitsVal :: "bytes \<Rightarrow> nat" where
  "digitsVal ds = foldl (\<lambda>v c. v * 10 + byte_sub c CHR ''0'') 0 ds"

definition expVal :: "bytes \<Rightarrow> nat" where
  "expVal ds = foldl (\<lambda>e c. if e < 10000 then e * 10 + byte_sub c CHR ''0'' else e) 0 ds"

definition parseExp :: "bytes \<Rightarrow> int option" where
  "parseExp s =
     (case s of
        [] \<Rightarrow> Some 0
      | c # r \<Rightarrow>
          if c = CHR ''e'' \<or> c = CHR ''E'' then
            let neg = (r \<noteq> [] \<and> hd r = CHR ''-'');
                ds = (if r \<noteq> [] \<and> isSign (hd r) then tl r else r)
            in if ds \<noteq> [] \<and> list_all isDigit ds
               then Some (if neg then - int (expVal ds) else int (expVal ds)) else None
          else None)"

definition ParseFloat :: "(rat \<Rightarrow> fl) \<Rightarrow> bytes \<Rightarrow> fl option" where
  "ParseFloat rnd s =
     (let neg = (s \<noteq> [] \<and> hd s = CHR ''-'');
          t = (if s \<noteq> [] \<and> isSign (hd s) then tl s else s);
          ip = takeWhile isDigit t; r = dropWhile isDigit t;
          fp = (case r of c # r' \<Rightarrow> if c = CHR ''.'' then takeWhile isDigit r' else [] | [] \<Rightarrow> []);
          r2 = (case r of c # r' \<Rightarrow> if c = CHR ''.'' then dropWhile isDigit r' else r | [] \<Rightarrow> [])
      in if ip = [] \<and> fp = [] then None
         else case parseExp r2 of
             None \<Rightarrow> None
           | Some e \<Rightarrow>
               (case rnd (of_nat (digitsVal (ip @ fp)) * 10 powi (e - int (length fp))) of
                  Fin x \<Rightarrow> Some (Fin (if neg then - x else x))
                | _ \<Rightarrow> None))"

definition ParseFloat32 :: "bytes \<Rightarrow> fl option" where
  "ParseFloat32 = ParseFloat round32"

definition readF32 :: "fl reader" where
  "readF32 s =
     (case numToken (skipWs s) of (tok, hasExp, r) \<Rightarrow>
        if tok = [] then Inl ErrMalformed
        else if hasExp then (case ParseFloat32 tok of None \<Rightarrow> Inl ErrMalformed | Some f \<Rightarrow> Inr (f, r))
        else Inr (plainF32 tok, r))"

section \<open>Skipping a value\<close>

fun skipNest :: "char \<Rightarrow> char \<Rightarrow> nat \<Rightarrow> bytes \<Rightarrow> bytes" where
  "skipNest c closer depth [] = []"
| "skipNest c closer depth (x # r) =
     (if depth = 0 then x # r
      else skipNest c closer (if x = c then depth + 1 else if x = closer then depth - 1 else depth) r)"

definition skipVal :: "bytes \<Rightarrow> bytes" where
  "skipVal s =
     (case skipWs s of
        [] \<Rightarrow> []
      | c # r \<Rightarrow>
          if c = CHR 0x22 then (case dropWhile (\<lambda>x. x \<noteq> CHR 0x22) r of [] \<Rightarrow> [] | _ # r' \<Rightarrow> r')
          else if c = CHR ''{'' then skipNest c (CHR ''}'') 1 r
          else if c = CHR ''['' then skipNest c (CHR '']'') 1 r
          else dropWhile (\<lambda>x. x \<noteq> CHR '','' \<and> x \<noteq> CHR ''}'' \<and> x \<noteq> CHR '']'') (c # r))"

section \<open>The object loop\<close>

type_synonym 'p outcome = "(Malformed + ('p \<times> bytes)) option"

definition optComma :: "bytes \<Rightarrow> bytes" where
  "optComma s = (case skipWs s of [] \<Rightarrow> [] | c # r \<Rightarrow> if c = CHR '','' then r else c # r)"

fun readFields :: "(bytes \<Rightarrow> bytes \<Rightarrow> 'p \<Rightarrow> 'p outcome) \<Rightarrow> nat \<Rightarrow> bytes \<Rightarrow> 'p \<Rightarrow> 'p outcome" where
  "readFields sw 0 s p = None"
| "readFields sw (Suc n) s p =
     (case skipWs s of
        c # r \<Rightarrow> if c = CHR ''}'' then Some (Inr (p, r)) else
          (case readKey s of
             Inl e \<Rightarrow> Some (Inl e)
           | Inr (k, s1) \<Rightarrow>
               (case expect CHR '':'' s1 of
                  Inl e \<Rightarrow> Some (Inl e)
                | Inr s2 \<Rightarrow>
                    (case sw k (skipWs s2) p of
                       None \<Rightarrow> None
                     | Some (Inl e) \<Rightarrow> Some (Inl e)
                     | Some (Inr (p', s3)) \<Rightarrow> readFields sw n (optComma s3) p')))
      | [] \<Rightarrow> Some (Inl ErrMalformed))"

declare readFields.simps(2) [simp del]

definition object :: "(bytes \<Rightarrow> bytes \<Rightarrow> 'p \<Rightarrow> 'p outcome) \<Rightarrow> bytes \<Rightarrow> 'p \<Rightarrow> 'p outcome" where
  "object sw s p =
     (case expect CHR ''{'' s of
        Inl e \<Rightarrow> Some (Inl e)
      | Inr r \<Rightarrow> readFields sw (Suc (length r)) r p)"

definition store :: "(Malformed + ('a \<times> bytes)) \<Rightarrow> ('a \<Rightarrow> 'p) \<Rightarrow> 'p outcome" where
  "store r f = Some (case r of Inl e \<Rightarrow> Inl e | Inr (v, s) \<Rightarrow> Inr (f v, s))"

section \<open>The readers\<close>

definition txField :: "bytes \<Rightarrow> bytes \<Rightarrow> Payload \<Rightarrow> Payload outcome" where
  "txField k s p =
     (if k = ''amount'' then store (readF32 s) (\<lambda>v. p\<lparr>Amount := v\<rparr>)
      else if k = ''installments'' then store (readU32 s) (\<lambda>v. p\<lparr>Installments := v\<rparr>)
      else if k = ''requested_at'' then store (readStr s) (\<lambda>v. p\<lparr>RequestedAt := v\<rparr>)
      else Some (Inr (p, skipVal s)))"

definition readTx :: "bytes \<Rightarrow> Payload \<Rightarrow> Payload outcome" where
  "readTx = object txField"

fun knownLoop :: "nat \<Rightarrow> bytes \<Rightarrow> Payload \<Rightarrow> Payload outcome" where
  "knownLoop 0 s p = None"
| "knownLoop (Suc n) s p =
     (case skipWs s of
        c # r \<Rightarrow> if c = CHR '']'' then Some (Inr (p, r)) else
          (case readStr s of
             Inl e \<Rightarrow> Some (Inl e)
           | Inr (m, s1) \<Rightarrow>
               knownLoop n (optComma s1)
                 (if KnownN p < 16
                  then p\<lparr>KnownMerchants := (KnownMerchants p)[KnownN p := m], KnownN := KnownN p + 1\<rparr> else p))
      | [] \<Rightarrow> Some (Inl ErrMalformed))"

declare knownLoop.simps(2) [simp del]

definition readKnown :: "bytes \<Rightarrow> Payload \<Rightarrow> Payload outcome" where
  "readKnown s p =
     (case expect CHR ''['' s of
        Inl e \<Rightarrow> Some (Inl e)
      | Inr r \<Rightarrow> knownLoop (Suc (length r)) r (p\<lparr>KnownN := 0\<rparr>))"

definition custField :: "bytes \<Rightarrow> bytes \<Rightarrow> Payload \<Rightarrow> Payload outcome" where
  "custField k s p =
     (if k = ''avg_amount'' then store (readF32 s) (\<lambda>v. p\<lparr>AvgAmount := v\<rparr>)
      else if k = ''tx_count_24h'' then store (readU32 s) (\<lambda>v. p\<lparr>TxCount24h := v\<rparr>)
      else if k = ''known_merchants'' then readKnown s p
      else Some (Inr (p, skipVal s)))"

definition readCust :: "bytes \<Rightarrow> Payload \<Rightarrow> Payload outcome" where
  "readCust = object custField"

definition merField :: "bytes \<Rightarrow> bytes \<Rightarrow> Payload \<Rightarrow> Payload outcome" where
  "merField k s p =
     (if k = ''id'' then store (readStr s) (\<lambda>v. p\<lparr>MerchantID := v\<rparr>)
      else if k = ''mcc'' then store (readStr s) (\<lambda>v. p\<lparr>MCC := v\<rparr>)
      else if k = ''avg_amount'' then store (readF32 s) (\<lambda>v. p\<lparr>MerchantAvgAmount := v\<rparr>)
      else Some (Inr (p, skipVal s)))"

definition readMer :: "bytes \<Rightarrow> Payload \<Rightarrow> Payload outcome" where
  "readMer = object merField"

definition termField :: "bytes \<Rightarrow> bytes \<Rightarrow> Payload \<Rightarrow> Payload outcome" where
  "termField k s p =
     (if k = ''is_online'' then store (readBool s) (\<lambda>v. p\<lparr>IsOnline := v\<rparr>)
      else if k = ''card_present'' then store (readBool s) (\<lambda>v. p\<lparr>CardPresent := v\<rparr>)
      else if k = ''km_from_home'' then store (readF32 s) (\<lambda>v. p\<lparr>KmFromHome := v\<rparr>)
      else Some (Inr (p, skipVal s)))"

definition readTerm :: "bytes \<Rightarrow> Payload \<Rightarrow> Payload outcome" where
  "readTerm = object termField"

definition lastField :: "bytes \<Rightarrow> bytes \<Rightarrow> Payload \<Rightarrow> Payload outcome" where
  "lastField k s p =
     (if k = ''timestamp'' then store (readStr s) (\<lambda>v. p\<lparr>LastTimestamp := v\<rparr>)
      else if k = ''km_from_current'' then store (readF32 s) (\<lambda>v. p\<lparr>LastKmFromCurrent := v\<rparr>)
      else Some (Inr (p, skipVal s)))"

definition readLast :: "bytes \<Rightarrow> Payload \<Rightarrow> Payload outcome" where
  "readLast s p =
     (if take 4 s = ''null'' then Some (Inr (p\<lparr>HasLast := False\<rparr>, drop 4 s))
      else object lastField s (p\<lparr>HasLast := True\<rparr>))"

definition topField :: "bytes \<Rightarrow> bytes \<Rightarrow> Payload \<Rightarrow> Payload outcome" where
  "topField k s p =
     (if k = ''transaction'' then readTx s p
      else if k = ''customer'' then readCust s p
      else if k = ''merchant'' then readMer s p
      else if k = ''terminal'' then readTerm s p
      else if k = ''last_transaction'' then readLast s p
      else Some (Inr (p, skipVal s)))"

definition Parse :: "bytes \<Rightarrow> (Malformed + Payload) option" where
  "Parse buf = map_option (map_sum id fst) (object topField buf Payload0)"

section \<open>The loops end\<close>

lemma length_skipWs: "length (skipWs s) \<le> length s"
  by (simp add: skipWs_def length_dropWhile_le)

lemma length_optComma: "length (optComma s) \<le> length s"
  using length_skipWs [of s] by (auto simp: optComma_def split: list.splits)

lemma expect_shrinks: "expect c s = Inr r \<Longrightarrow> length r < length s"
  using length_skipWs [of s] by (auto simp: expect_def split: list.splits if_splits)

lemma readStr_shrinks:
  assumes "readStr s = Inr (k, r)"
  shows "length r < length s"
proof -
  obtain x y where x: "skipWs s = x # y" "\<exists>c. dropWhile (\<lambda>c. c \<noteq> CHR 0x22) y = c # r"
    using assms by (auto simp: readStr_def split: list.splits if_splits)
  then have "length r < length y"
    by (metis length_Cons length_dropWhile_le less_eq_Suc_le)
  then show ?thesis using length_skipWs [of s] x(1) by simp
qed

lemma readBool_shrinks: "readBool s = Inr (v, r) \<Longrightarrow> length r \<le> length s"
  using length_skipWs [of s] by (auto simp: readBool_def Let_def split: if_splits)

lemma readU32_shrinks: "readU32 s = Inr (v, r) \<Longrightarrow> length r \<le> length s"
  using length_skipWs [of s] length_dropWhile_le [of isDigit "skipWs s"]
  by (auto simp: readU32_def Let_def split: if_splits)

lemma numTail_split: "numTail e s = (t, e', r) \<Longrightarrow> s = t @ r"
  by (induction e s arbitrary: t e' r rule: numTail.induct) (auto split: if_splits prod.splits)

lemma numToken_split: "numToken s = (t, e', r) \<Longrightarrow> s = t @ r"
  by (auto simp: numToken_def dest: numTail_split split: list.splits if_splits prod.splits)

lemma readF32_shrinks: "readF32 s = Inr (v, r) \<Longrightarrow> length r \<le> length s"
  using length_skipWs [of s]
  by (auto simp: readF32_def dest!: numToken_split split: prod.splits if_splits option.splits)

lemma length_skipNest: "length (skipNest c d n s) \<le> length s"
  by (induction c d n s rule: skipNest.induct) (auto simp: le_SucI)

lemma length_if: "length a \<le> n \<Longrightarrow> length b \<le> n \<Longrightarrow> length (if c then a else b) \<le> n"
  by simp

lemma length_skipVal: "length (skipVal s) \<le> length s"
proof (cases "skipWs s")
  case (Cons c r)
  have d: "length (case dropWhile P r of [] \<Rightarrow> [] | _ # r' \<Rightarrow> r') \<le> length r" for P
  proof (cases "dropWhile P r")
    case (Cons a l)
    show ?thesis unfolding Cons using length_dropWhile_le [of P r, unfolded Cons] by simp
  next
    case Nil
    show ?thesis unfolding Nil by simp
  qed
  have "length (skipVal s) \<le> length (c # r)"
    unfolding skipVal_def Cons list.case
    by (intro length_if length_dropWhile_le) (simp_all only: length_Cons le_SucI d length_skipNest)
  then show ?thesis using length_skipWs [of s] Cons by simp
qed (simp add: skipVal_def)

text \<open>A reader is fine when it returns and does not give back more than it was given.\<close>

definition fine :: "bytes \<Rightarrow> 'p outcome \<Rightarrow> bool" where
  "fine s r \<longleftrightarrow> (\<exists>x. r = Some x \<and> (\<forall>p' s'. x = Inr (p', s') \<longrightarrow> length s' \<le> length s))"

named_theorems fine_intros \<open>readers that return and shrink\<close>

lemma fine_if [fine_intros]: "fine s a \<Longrightarrow> fine s b \<Longrightarrow> fine s (if c then a else b)"
  by simp

lemma fine_store: "(\<And>v s'. r = Inr (v, s') \<Longrightarrow> length s' \<le> length s) \<Longrightarrow> fine s (store r f)"
  by (auto simp: fine_def store_def split: sum.splits)

lemma fine_stores [fine_intros]:
  "fine s (store (readStr s) f)" "fine s (store (readBool s) g)" "fine s (store (readU32 s) h)" "fine s (store (readF32 s) i)"
  using readStr_shrinks readBool_shrinks readU32_shrinks readF32_shrinks
  by (auto intro!: fine_store intro: less_imp_le)

lemma fine_skip [fine_intros]: "fine s (Some (Inr (p, skipVal s)))"
  by (simp add: fine_def length_skipVal)

lemma fine_error [fine_intros]: "fine s (Some (Inl e))"
  by (simp add: fine_def)

lemma fine_mono: "fine s' r \<Longrightarrow> length s' \<le> length s \<Longrightarrow> fine s r"
  by (fastforce simp: fine_def)

locale field_reader =
  fixes sw :: "bytes \<Rightarrow> bytes \<Rightarrow> 'p \<Rightarrow> 'p outcome"
  assumes sw_fine: "fine s (sw k s p)"
begin

lemma fields_fine: "length s < n \<Longrightarrow> fine s (readFields sw n s p)"
proof (induction n arbitrary: s p)
  case (Suc n)
  show ?case
  proof (cases "skipWs s")
    case (Cons c r)
    have r: "length r \<le> length s" using length_skipWs [of s] Cons by simp
    show ?thesis
    proof (cases "c = CHR ''}''")
      case True
      then show ?thesis using Cons r by (simp add: fine_def readFields.simps(2))
    next
      case nb: False
      show ?thesis
      proof (cases "readKey s")
        case (Inr ks)
        obtain k s1 where k: "ks = (k, s1)" by force
        have l1: "length s1 < length s" using readStr_shrinks [of s k s1] Inr k by (simp add: readKey_def)
        show ?thesis
        proof (cases "expect CHR '':'' s1")
          case e: (Inr s2)
          have l2: "length (skipWs s2) < length s" using expect_shrinks [OF e] length_skipWs [of s2] l1 by simp
          obtain x where x: "sw k (skipWs s2) p = Some x" "\<And>p' s'. x = Inr (p', s') \<Longrightarrow> length s' \<le> length (skipWs s2)"
            using sw_fine [of "skipWs s2" k p] unfolding fine_def by blast
          show ?thesis
          proof (cases x)
            case (Inl er)
            then show ?thesis using Cons nb Inr k e x(1) by (simp add: fine_error readFields.simps(2))
          next
            case xr: (Inr ps)
            obtain p' s3 where ps: "ps = (p', s3)" by force
            have l3: "length (optComma s3) < length s" using x(2) [of p' s3] xr ps length_optComma [of s3] l2 by simp
            have "fine (optComma s3) (readFields sw n (optComma s3) p')" by (rule Suc.IH) (use l3 Suc.prems in linarith)
            from fine_mono [OF this less_imp_le [OF l3]] show ?thesis using Cons nb Inr k e x(1) xr ps by (simp add: readFields.simps(2))
          qed
        qed (use Cons nb Inr k in \<open>simp add: fine_error readFields.simps(2)\<close>)
      qed (use Cons nb in \<open>simp add: fine_error readFields.simps(2)\<close>)
    qed
  qed (simp add: fine_error readFields.simps(2))
qed simp

lemma object_fine: "fine s (object sw s p)"
proof (cases "expect CHR ''{'' s")
  case (Inr r)
  then show ?thesis
    using fine_mono [OF fields_fine [OF lessI] less_imp_le [OF expect_shrinks [OF Inr]]] by (simp add: object_def)
qed (simp add: object_def fine_error)

end

lemma knownLoop_fine: "length s < n \<Longrightarrow> fine s (knownLoop n s p)"
proof (induction n arbitrary: s p)
  case (Suc n)
  show ?case
  proof (cases "skipWs s")
    case (Cons c r)
    have "length r \<le> length s" using length_skipWs [of s] Cons by simp
    then have r: "fine s (Some (Inr (p, r)))" by (simp add: fine_def)
    show ?thesis
    proof (cases "readStr s")
      case (Inr ms)
      obtain m s1 where m: "ms = (m, s1)" by force
      have lt: "length (optComma s1) < length s" using readStr_shrinks [of s m s1] Inr m length_optComma [of s1] by simp
      have "fine (optComma s1) (knownLoop n (optComma s1) q)" for q by (rule Suc.IH) (use lt Suc.prems in linarith)
      from fine_mono [OF this less_imp_le [OF lt]] show ?thesis unfolding knownLoop.simps(2) Cons Inr m list.case sum.case prod.case by (rule fine_if [OF r])
    qed (simp add: knownLoop.simps(2) Cons r fine_error)
  qed (simp add: fine_error knownLoop.simps(2))
qed simp

lemma readKnown_fine [fine_intros]: "fine s (readKnown s p)"
proof (cases "expect CHR ''['' s")
  case (Inr r)
  then show ?thesis
    using fine_mono [OF knownLoop_fine [OF lessI] less_imp_le [OF expect_shrinks [OF Inr]]] by (simp add: readKnown_def)
qed (simp add: readKnown_def fine_error)

interpretation tx: field_reader txField
  by unfold_locales (unfold txField_def, intro fine_intros)

interpretation cust: field_reader custField
  by unfold_locales (unfold custField_def, intro fine_intros)

interpretation mer: field_reader merField
  by unfold_locales (unfold merField_def, intro fine_intros)

interpretation trm: field_reader termField
  by unfold_locales (unfold termField_def, intro fine_intros)

interpretation lst: field_reader lastField
  by unfold_locales (unfold lastField_def, intro fine_intros)

lemma readLast_fine [fine_intros]: "fine s (readLast s p)"
proof -
  have "fine s (Some (Inr (p\<lparr>HasLast := False\<rparr>, drop 4 s)))" by (simp add: fine_def)
  then show ?thesis unfolding readLast_def by (intro fine_if lst.object_fine)
qed

lemmas object_readers_fine [fine_intros] =
  tx.object_fine [folded readTx_def] cust.object_fine [folded readCust_def]
  mer.object_fine [folded readMer_def] trm.object_fine [folded readTerm_def]

interpretation top: field_reader topField
  by unfold_locales (unfold topField_def, intro fine_intros)

section \<open>The payload stays well formed\<close>

definition payload_ok :: "Payload \<Rightarrow> bool" where
  "payload_ok p \<longleftrightarrow> length (KnownMerchants p) = 16 \<and> KnownN p \<le> 16"

text \<open>A switch keeps a property of the payload when every successful branch does; then so does the
  loop around it.\<close>

locale field_keeper =
  fixes sw :: "bytes \<Rightarrow> bytes \<Rightarrow> 'p \<Rightarrow> 'p outcome"
    and keep :: "'p \<Rightarrow> bool"
  assumes sw_keeps: "keep p \<Longrightarrow> sw k s p = Some (Inr (p', r)) \<Longrightarrow> keep p'"
begin

lemma fields_keep: "keep p \<Longrightarrow> readFields sw n s p = Some (Inr (p', r)) \<Longrightarrow> keep p'"
proof (induction n arbitrary: s p)
  case (Suc n)
  from Suc.prems(2) consider "p' = p" | p1 s1 k s2 where "sw k s2 p = Some (Inr (p1, s1))"
    "readFields sw n (optComma s1) p1 = Some (Inr (p', r))"
    unfolding readFields.simps(2) by (auto split: list.splits if_splits sum.splits option.splits prod.splits)
  then show ?case
  proof cases
    case 1
    then show ?thesis using Suc.prems(1) by simp
  next
    case 2
    then show ?thesis using Suc.IH [OF sw_keeps [OF Suc.prems(1)]] by blast
  qed
qed simp

lemma object_keep: "keep p \<Longrightarrow> object sw s p = Some (Inr (p', r)) \<Longrightarrow> keep p'"
  using fields_keep by (auto simp: object_def split: sum.splits)

end

definition keeps :: "Payload \<Rightarrow> Payload outcome \<Rightarrow> bool" where
  "keeps p r \<longleftrightarrow> (payload_ok p \<longrightarrow> (\<forall>p' s. r = Some (Inr (p', s)) \<longrightarrow> payload_ok p'))"

named_theorems keep_intros \<open>readers that keep the payload well formed\<close>

lemma keeps_if [keep_intros]: "keeps p a \<Longrightarrow> keeps p b \<Longrightarrow> keeps p (if c then a else b)"
  by simp

lemma keeps_skip [keep_intros]: "keeps p (Some (Inr (p, s)))"
  by (simp add: keeps_def)

lemma keeps_store: "(\<And>v. payload_ok p \<Longrightarrow> payload_ok (f v)) \<Longrightarrow> keeps p (store r f)"
  by (auto simp: keeps_def store_def split: sum.splits)

lemma keeps_stores [keep_intros]:
  "keeps p (store a (\<lambda>v. p\<lparr>Amount := v\<rparr>))" "keeps p (store b (\<lambda>v. p\<lparr>Installments := v\<rparr>))"
  "keeps p (store c (\<lambda>v. p\<lparr>RequestedAt := v\<rparr>))" "keeps p (store a (\<lambda>v. p\<lparr>AvgAmount := v\<rparr>))"
  "keeps p (store b (\<lambda>v. p\<lparr>TxCount24h := v\<rparr>))" "keeps p (store c (\<lambda>v. p\<lparr>MerchantID := v\<rparr>))"
  "keeps p (store c (\<lambda>v. p\<lparr>MCC := v\<rparr>))" "keeps p (store a (\<lambda>v. p\<lparr>MerchantAvgAmount := v\<rparr>))"
  "keeps p (store d (\<lambda>v. p\<lparr>IsOnline := v\<rparr>))" "keeps p (store d (\<lambda>v. p\<lparr>CardPresent := v\<rparr>))"
  "keeps p (store a (\<lambda>v. p\<lparr>KmFromHome := v\<rparr>))" "keeps p (store c (\<lambda>v. p\<lparr>LastTimestamp := v\<rparr>))"
  "keeps p (store a (\<lambda>v. p\<lparr>LastKmFromCurrent := v\<rparr>))"
  by (auto intro!: keeps_store simp: payload_ok_def)

lemma knownLoop_keeps: "payload_ok p \<Longrightarrow> knownLoop n s p = Some (Inr (p', r)) \<Longrightarrow> payload_ok p'"
proof (induction n arbitrary: s p)
  case (Suc n)
  let ?q = "\<lambda>m. if KnownN p < 16 then p\<lparr>KnownMerchants := (KnownMerchants p)[KnownN p := m], KnownN := KnownN p + 1\<rparr> else p"
  have q: "payload_ok (?q m)" for m using Suc.prems(1) by (simp add: payload_ok_def)
  from Suc.prems(2) consider "p' = p" | m s1 where "knownLoop n (optComma s1) (?q m) = Some (Inr (p', r))"
    unfolding knownLoop.simps(2) by (auto split: list.splits if_splits sum.splits prod.splits)
  then show ?case
  proof cases
    case 1
    then show ?thesis using Suc.prems(1) by simp
  next
    case 2
    then show ?thesis using Suc.IH [OF q] by blast
  qed
qed simp

lemma readKnown_keeps [keep_intros]: "keeps p (readKnown s p)"
proof -
  have "payload_ok p \<Longrightarrow> payload_ok (p\<lparr>KnownN := 0\<rparr>)" by (simp add: payload_ok_def)
  then show ?thesis
    using knownLoop_keeps by (auto simp: keeps_def readKnown_def split: sum.splits)
qed

lemma keeperI: "(\<And>k s p. keeps p (sw k s p)) \<Longrightarrow> field_keeper sw payload_ok"
  unfolding keeps_def by unfold_locales blast

interpretation tx_keep: field_keeper txField payload_ok
  by (rule keeperI) (unfold txField_def, intro keep_intros)

interpretation cust_keep: field_keeper custField payload_ok
  by (rule keeperI) (unfold custField_def, intro keep_intros)

interpretation mer_keep: field_keeper merField payload_ok
  by (rule keeperI) (unfold merField_def, intro keep_intros)

interpretation term_keep: field_keeper termField payload_ok
  by (rule keeperI) (unfold termField_def, intro keep_intros)

interpretation last_keep: field_keeper lastField payload_ok
  by (rule keeperI) (unfold lastField_def, intro keep_intros)

lemma object_readers_keep [keep_intros]:
  "keeps p (readTx s p)" "keeps p (readCust s p)" "keeps p (readMer s p)" "keeps p (readTerm s p)"
  unfolding keeps_def readTx_def readCust_def readMer_def readTerm_def
  using tx_keep.object_keep cust_keep.object_keep mer_keep.object_keep term_keep.object_keep by blast+

lemma readLast_keeps [keep_intros]: "keeps p (readLast s p)"
proof -
  have h: "payload_ok p \<Longrightarrow> payload_ok (p\<lparr>HasLast := b\<rparr>)" for b by (simp add: payload_ok_def)
  show ?thesis unfolding readLast_def
  proof (rule keeps_if)
    show "keeps p (Some (Inr (p\<lparr>HasLast := False\<rparr>, drop 4 s)))" using h by (simp add: keeps_def)
    show "keeps p (object lastField s (p\<lparr>HasLast := True\<rparr>))"
      unfolding keeps_def using last_keep.object_keep [OF h] by blast
  qed
qed

interpretation top_keep: field_keeper topField payload_ok
  by (rule keeperI) (unfold topField_def, intro keep_intros)

section \<open>Printing\<close>

definition quote :: "bytes \<Rightarrow> bytes" where
  "quote s = CHR 0x22 # s @ [CHR 0x22]"

fun join :: "bytes list \<Rightarrow> bytes" where
  "join [] = []"
| "join [x] = x"
| "join (x # y # xs) = x @ CHR '','' # join (y # xs)"

fun dec :: "nat \<Rightarrow> bytes" where
  "dec n = (if n < 10 then [char_of (48 + n)] else dec (n div 10) @ [char_of (48 + n mod 10)])"

declare dec.simps [simp del]

definition field :: "bytes \<Rightarrow> bytes \<Rightarrow> bytes" where
  "field k v = quote k @ CHR '':'' # v"

definition braces :: "bytes list \<Rightarrow> bytes" where
  "braces fs = CHR ''{'' # join fs @ ''}''"

definition bool_text :: "bool \<Rightarrow> bytes" where
  "bool_text b = (if b then ''true'' else ''false'')"

section \<open>Reading back what was printed\<close>

definition delim :: "bytes \<Rightarrow> bool" where
  "delim r \<longleftrightarrow> r \<noteq> [] \<and> (hd r = CHR '','' \<or> hd r = CHR ''}'' \<or> hd r = CHR '']'')"

definition nows :: "bytes \<Rightarrow> bool" where
  "nows t \<longleftrightarrow> t \<noteq> [] \<and> \<not> isWs (hd t)"

definition unquoted :: "bytes \<Rightarrow> bool" where
  "unquoted s \<longleftrightarrow> CHR 0x22 \<notin> set s"

definition plain_number :: "bytes \<Rightarrow> bool" where
  "plain_number t \<longleftrightarrow> t \<noteq> [] \<and>
     (\<forall>c \<in> set (if isSign (hd t) then tl t else t). isDigit c \<or> c = CHR ''.'')"

lemma skipWs_nows: "nows t \<Longrightarrow> skipWs (t @ r) = t @ r"
  by (cases t) (simp_all add: nows_def skipWs_def)

lemma skipWs_Cons: "\<not> isWs c \<Longrightarrow> skipWs (c # r) = c # r"
  by (simp add: skipWs_def)

lemma ws_marks [simp]: "\<not> isWs CHR 0x22" "\<not> isWs CHR ''{''" "\<not> isWs CHR ''}''" "\<not> isWs CHR ''[''" "\<not> isWs CHR '']''"
    "\<not> isWs CHR '',''" "\<not> isWs CHR '':''"
  by (simp_all add: isWs_def)

lemma readStr_quote: "unquoted s \<Longrightarrow> readStr (quote s @ r) = Inr (s, r)"
proof -
  assume s: "unquoted s"
  have "dropWhile (\<lambda>c. c \<noteq> CHR 0x22) (s @ CHR 0x22 # r) = CHR 0x22 # r"
    "takeWhile (\<lambda>c. c \<noteq> CHR 0x22) (s @ CHR 0x22 # r) = s"
    using s by (auto simp: unquoted_def dropWhile_append takeWhile_append)
  then show ?thesis by (simp add: readStr_def quote_def skipWs_Cons)
qed

lemma readBool_text: "readBool (bool_text b @ r) = Inr (b, r)"
  by (cases b) (simp_all add: readBool_def bool_text_def skipWs_Cons isWs_def)

lemma numTail_plain:
  "\<forall>c \<in> set t. isDigit c \<or> c = CHR ''.'' \<Longrightarrow> delim r \<Longrightarrow> numTail False (t @ r) = (t, False, r)"
proof (induction t)
  case Nil
  then show ?case by (cases r) (auto simp: delim_def isDigit_def)
qed simp

lemma sign_not_numeric: "isSign c \<Longrightarrow> \<not> isDigit c \<and> c \<noteq> CHR ''.'' \<and> \<not> isWs c"
  by (auto simp: isSign_def isDigit_def isWs_def)

lemma numeric_not_ws: "isDigit c \<or> c = CHR ''.'' \<Longrightarrow> \<not> isWs c \<and> \<not> isSign c"
  by (auto simp: isSign_def isDigit_def isWs_def)

lemma plain_number_nows: "plain_number t \<Longrightarrow> nows t"
proof -
  assume p: "plain_number t"
  then obtain c u where t: "t = c # u" by (cases t) (auto simp: plain_number_def)
  have "\<not> isWs c"
  proof (cases "isSign c")
    case True
    then show ?thesis by (blast dest: sign_not_numeric)
  next
    case False
    then have "isDigit c \<or> c = CHR ''.''" using p by (simp add: plain_number_def t)
    then show ?thesis using numeric_not_ws [of c] by blast
  qed
  then show ?thesis by (simp add: nows_def t)
qed

lemma readF32_plain:
  assumes "plain_number t" "delim r"
  shows "readF32 (t @ r) = Inr (plainF32 t, r)"
proof -
  obtain c u where t: "t = c # u" using assms(1) by (cases t) (auto simp: plain_number_def)
  have "numToken (t @ r) = (t, False, r)"
  proof (cases "isSign c")
    case True
    then show ?thesis using assms numTail_plain [of u r] by (simp add: t numToken_def plain_number_def)
  next
    case False
    then show ?thesis using assms numTail_plain [of t r] by (simp add: t numToken_def plain_number_def)
  qed
  then show ?thesis using skipWs_nows [OF plain_number_nows [OF assms(1)], of r] by (simp add: readF32_def t)
qed

lemma isDigit_char_of: "n < 10 \<Longrightarrow> isDigit (char_of (48 + n))" "n < 10 \<Longrightarrow> byte_sub (char_of (48 + n)) CHR ''0'' = n"
  by (simp_all add: isDigit_def byte_sub_def)

lemma dec_digits: "list_all isDigit (dec n) \<and> dec n \<noteq> [] \<and> digitsVal (dec n) = n"
proof (induction n rule: dec.induct)
  case (1 n)
  show ?case
  proof (cases "n < 10")
    case True
    then show ?thesis by (simp add: dec.simps [of n] isDigit_char_of digitsVal_def)
  next
    case False
    then have "digitsVal (dec (n div 10)) = n div 10" "list_all isDigit (dec (n div 10))" using 1 by simp_all
    then show ?thesis using False
      by (simp add: dec.simps [of n] isDigit_char_of digitsVal_def)
  qed
qed

lemma foldl_wrap:
  fixes m :: nat
  shows "foldl (\<lambda>v c. (v * 10 + f c) mod m) (a mod m) ds = foldl (\<lambda>v c. v * 10 + f c) a ds mod m"
proof (induction ds arbitrary: a)
  case (Cons c ds)
  have "((a mod m) * 10 + f c) mod m = (a * 10 + f c) mod m"
    by (metis mod_add_left_eq mod_mult_left_eq)
  then show ?case using Cons.IH [of "a * 10 + f c"] by simp
qed simp

lemma readU32_value:
  "readU32 s = (let r = skipWs s; ds = takeWhile isDigit r
     in if ds = [] then Inl ErrMalformed else Inr (digitsVal ds mod 2 ^ 32, dropWhile isDigit r))"
proof -
  have "u32 (u32 (v * 10) + b) = (v * 10 + b) mod 2 ^ 32" for v b by (simp add: u32_def mod_simps)
  then show ?thesis
    using foldl_wrap [of "\<lambda>c. byte_sub c CHR ''0''" "2 ^ 32" 0] by (simp add: readU32_def digitsVal_def Let_def)
qed

lemma delim_not_digit: "delim r \<Longrightarrow> takeWhile isDigit r = [] \<and> dropWhile isDigit r = r"
  by (cases r) (auto simp: delim_def isDigit_def)

lemma readU32_dec:
  assumes "n < 2 ^ 32" "delim r"
  shows "readU32 (dec n @ r) = Inr (n, r)"
proof -
  have d: "\<forall>c \<in> set (dec n). isDigit c" "dec n \<noteq> []" "digitsVal (dec n) = n"
    using dec_digits [of n] by (simp_all add: list_all_iff)
  then have "isDigit (hd (dec n))" by simp
  then have "nows (dec n)" using d(2) numeric_not_ws [of "hd (dec n)"] by (simp add: nows_def)
  then have "skipWs (dec n @ r) = dec n @ r" by (rule skipWs_nows)
  moreover have "takeWhile isDigit (dec n @ r) = dec n" "dropWhile isDigit (dec n @ r) = r"
    using d(1) delim_not_digit [OF assms(2)] by (simp_all add: takeWhile_append dropWhile_append)
  ultimately show ?thesis using d assms(1) by (simp add: readU32_value)
qed

text \<open>A printed field: its key, its text, and what reading it does to a payload that satisfies
  \<open>keep\<close>.\<close>

definition reads ::
  "('p \<Rightarrow> bool) \<Rightarrow> (bytes \<Rightarrow> bytes \<Rightarrow> 'p \<Rightarrow> 'p outcome) \<Rightarrow> bytes \<times> bytes \<times> ('p \<Rightarrow> 'p) \<Rightarrow> bool" where
  "reads keep sw f \<longleftrightarrow> (case f of (k, t, u) \<Rightarrow>
     unquoted k \<and> nows t \<and>
     (\<forall>p. keep p \<longrightarrow> keep (u p) \<and> (\<forall>r. delim r \<longrightarrow> sw k (t @ r) p = Some (Inr (u p, r)))))"

definition text_of :: "bytes \<times> bytes \<times> ('p \<Rightarrow> 'p) \<Rightarrow> bytes" where
  "text_of f = (case f of (k, t, u) \<Rightarrow> field k t)"

definition apply_fields :: "(bytes \<times> bytes \<times> ('p \<Rightarrow> 'p)) list \<Rightarrow> 'p \<Rightarrow> 'p" where
  "apply_fields fs p = foldl (\<lambda>p f. snd (snd f) p) p fs"

lemma fields_step:
  assumes "reads keep sw (k, t, u)" "delim r" "keep p"
  shows "readFields sw (Suc n) (field k t @ r) p = readFields sw n (optComma r) (u p)"
proof -
  have k: "unquoted k" "nows t" "sw k (t @ r) p = Some (Inr (u p, r))" using assms by (auto simp: reads_def)
  have key: "readKey (field k t @ r) = Inr (k, CHR '':'' # t @ r)"
    using readStr_quote [OF k(1), of "CHR '':'' # t @ r"] by (simp add: readKey_def field_def)
  have colon: "expect CHR '':'' (CHR '':'' # t @ r) = Inr (t @ r)" by (simp add: expect_def skipWs_Cons)
  have ws: "skipWs (field k t @ r) = CHR 0x22 # k @ CHR 0x22 # CHR '':'' # t @ r"
    by (simp add: field_def quote_def skipWs_Cons)
  show ?thesis unfolding readFields.simps(2) ws key
    by (simp add: colon skipWs_nows [OF k(2)] k(3))
qed

lemma fields_join:
  assumes "\<forall>f \<in> set fs. reads keep sw f" "length fs < n" "keep p"
  shows "readFields sw n (join (map text_of fs) @ CHR ''}'' # r) p = Some (Inr (apply_fields fs p, r)) \<and>
    keep (apply_fields fs p)"
  using assms
proof (induction fs arbitrary: n p)
  case Nil
  then obtain m where "n = Suc m" by (cases n) auto
  then show ?case using Nil.prems(3) by (simp add: readFields.simps(2) skipWs_Cons apply_fields_def)
next
  case (Cons f fs)
  obtain k t u where f: "f = (k, t, u)" by (metis prod_cases3)
  from Cons.prems(2) obtain m where n: "n = Suc m" "length fs < m" by (cases n) auto
  have rd: "reads keep sw (k, t, u)" using Cons.prems(1) f by simp
  let ?rest = "(if fs = [] then [] else CHR '','' # join (map text_of fs)) @ CHR ''}'' # r"
  have jn: "join (map text_of (f # fs)) @ CHR ''}'' # r = field k t @ ?rest"
    by (cases fs) (simp_all add: f text_of_def)
  have d: "delim ?rest" and c: "optComma ?rest = join (map text_of fs) @ CHR ''}'' # r"
    by (auto simp: delim_def optComma_def skipWs_Cons)
  have "keep (u p)" using rd Cons.prems(3) by (simp add: reads_def)
  then show ?case unfolding jn n(1) fields_step [OF rd d Cons.prems(3)] c
    using Cons.IH [of m "u p"] Cons.prems(1) n(2) by (simp add: apply_fields_def f)
qed

lemma length_join: "length fs \<le> Suc (length (join (map text_of fs)))"
proof (induction fs)
  case (Cons f fs)
  have "1 \<le> length (text_of f)" by (cases f) (simp add: text_of_def field_def quote_def)
  then show ?case using Cons.IH by (cases fs) simp_all
qed simp

lemma object_braces:
  assumes "\<forall>f \<in> set fs. reads keep sw f" "keep p"
  shows "object sw (braces (map text_of fs) @ r) p = Some (Inr (apply_fields fs p, r)) \<and> keep (apply_fields fs p)"
proof -
  let ?s = "join (map text_of fs) @ CHR ''}'' # r"
  have "expect CHR ''{'' (braces (map text_of fs) @ r) = Inr ?s"
    by (simp add: braces_def expect_def skipWs_Cons)
  moreover have "length fs < Suc (length ?s)" using length_join [of fs] by simp
  ultimately show ?thesis using fields_join [OF assms(1) _ assms(2)] by (simp add: object_def del: length_append)
qed

lemma nows_braces: "nows (braces fs)"
  by (simp add: nows_def braces_def)

lemma reads_object:
  assumes "\<forall>f \<in> set fs. reads keep sw f" "unquoted k" "\<And>s p. sw' k s p = object sw s p"
  shows "reads keep sw' (k, braces (map text_of fs), apply_fields fs)"
  using object_braces [OF assms(1)] assms(2,3) by (simp add: reads_def nows_braces)

lemma nows_quote: "nows (quote s)"
  by (simp add: nows_def quote_def)

section \<open>The whole request body\<close>

record doc =
  dAmount :: bytes
  dInstallments :: nat
  dRequestedAt :: bytes
  dAvg :: bytes
  dCount :: nat
  dKnown :: "bytes list"
  dMerchant :: bytes
  dMcc :: bytes
  dMerchantAvg :: bytes
  dOnline :: bool
  dPresent :: bool
  dKmHome :: bytes
  dLast :: "(bytes \<times> bytes) option"

definition doc_ok :: "doc \<Rightarrow> bool" where
  "doc_ok d \<longleftrightarrow> plain_number (dAmount d) \<and> plain_number (dAvg d) \<and> plain_number (dMerchantAvg d) \<and>
     plain_number (dKmHome d) \<and> dInstallments d < 2 ^ 32 \<and> dCount d < 2 ^ 32 \<and>
     unquoted (dRequestedAt d) \<and> unquoted (dMerchant d) \<and> unquoted (dMcc d) \<and>
     list_all unquoted (dKnown d) \<and> length (dKnown d) \<le> 16 \<and>
     (case dLast d of None \<Rightarrow> True | Some (t, km) \<Rightarrow> unquoted t \<and> plain_number km)"

definition tx_fields :: "doc \<Rightarrow> (bytes \<times> bytes \<times> (Payload \<Rightarrow> Payload)) list" where
  "tx_fields d =
     [(''amount'', dAmount d, \<lambda>p. p\<lparr>Amount := plainF32 (dAmount d)\<rparr>),
      (''installments'', dec (dInstallments d), \<lambda>p. p\<lparr>Installments := dInstallments d\<rparr>),
      (''requested_at'', quote (dRequestedAt d), \<lambda>p. p\<lparr>RequestedAt := dRequestedAt d\<rparr>)]"

definition known_text :: "bytes list \<Rightarrow> bytes" where
  "known_text ms = CHR ''['' # join (map quote ms) @ '']''"

definition set_known :: "bytes list \<Rightarrow> Payload \<Rightarrow> Payload" where
  "set_known ms p = p\<lparr>KnownMerchants := ms @ drop (length ms) (KnownMerchants p), KnownN := length ms\<rparr>"

definition cust_fields :: "doc \<Rightarrow> (bytes \<times> bytes \<times> (Payload \<Rightarrow> Payload)) list" where
  "cust_fields d =
     [(''avg_amount'', dAvg d, \<lambda>p. p\<lparr>AvgAmount := plainF32 (dAvg d)\<rparr>),
      (''tx_count_24h'', dec (dCount d), \<lambda>p. p\<lparr>TxCount24h := dCount d\<rparr>),
      (''known_merchants'', known_text (dKnown d), set_known (dKnown d))]"

definition mer_fields :: "doc \<Rightarrow> (bytes \<times> bytes \<times> (Payload \<Rightarrow> Payload)) list" where
  "mer_fields d =
     [(''id'', quote (dMerchant d), \<lambda>p. p\<lparr>MerchantID := dMerchant d\<rparr>),
      (''mcc'', quote (dMcc d), \<lambda>p. p\<lparr>MCC := dMcc d\<rparr>),
      (''avg_amount'', dMerchantAvg d, \<lambda>p. p\<lparr>MerchantAvgAmount := plainF32 (dMerchantAvg d)\<rparr>)]"

definition term_fields :: "doc \<Rightarrow> (bytes \<times> bytes \<times> (Payload \<Rightarrow> Payload)) list" where
  "term_fields d =
     [(''is_online'', bool_text (dOnline d), \<lambda>p. p\<lparr>IsOnline := dOnline d\<rparr>),
      (''card_present'', bool_text (dPresent d), \<lambda>p. p\<lparr>CardPresent := dPresent d\<rparr>),
      (''km_from_home'', dKmHome d, \<lambda>p. p\<lparr>KmFromHome := plainF32 (dKmHome d)\<rparr>)]"

definition last_fields :: "bytes \<times> bytes \<Rightarrow> (bytes \<times> bytes \<times> (Payload \<Rightarrow> Payload)) list" where
  "last_fields l =
     [(''timestamp'', quote (fst l), \<lambda>p. p\<lparr>LastTimestamp := fst l\<rparr>),
      (''km_from_current'', snd l, \<lambda>p. p\<lparr>LastKmFromCurrent := plainF32 (snd l)\<rparr>)]"

lemma nows_texts: "nows (dec n)" "nows (bool_text b)"
proof -
  have "isDigit (hd (dec n))" "dec n \<noteq> []" using dec_digits [of n] by (cases "dec n"; simp)+
  then show "nows (dec n)" using numeric_not_ws [of "hd (dec n)"] by (simp add: nows_def)
  show "nows (bool_text b)" by (simp add: nows_def bool_text_def isWs_def)
qed

lemmas token_reads = readF32_plain readU32_dec readStr_quote readBool_text nows_texts nows_quote plain_number_nows

lemma tx_reads: "doc_ok d \<Longrightarrow> \<forall>f \<in> set (tx_fields d). reads payload_ok txField f"
  by (simp add: tx_fields_def reads_def payload_ok_def txField_def store_def doc_ok_def token_reads unquoted_def [of "_ # _"])

lemma mer_reads: "doc_ok d \<Longrightarrow> \<forall>f \<in> set (mer_fields d). reads payload_ok merField f"
  by (simp add: mer_fields_def reads_def payload_ok_def merField_def store_def doc_ok_def token_reads unquoted_def [of "_ # _"])

lemma term_reads: "doc_ok d \<Longrightarrow> \<forall>f \<in> set (term_fields d). reads payload_ok termField f"
  by (simp add: term_fields_def reads_def payload_ok_def termField_def store_def doc_ok_def token_reads unquoted_def [of "_ # _"])

lemma last_reads: "doc_ok d \<Longrightarrow> dLast d = Some l \<Longrightarrow> \<forall>f \<in> set (last_fields l). reads payload_ok lastField f"
  by (cases l) (simp add: last_fields_def reads_def payload_ok_def lastField_def store_def doc_ok_def token_reads unquoted_def [of "_ # _"])

lemma knownLoop_join:
  assumes "list_all unquoted ms" "length ms < n" "KnownN p + length ms \<le> 16" "length (KnownMerchants p) = 16"
  shows "knownLoop n (join (map quote ms) @ CHR '']'' # r) p =
    Some (Inr (p\<lparr>KnownMerchants := take (KnownN p) (KnownMerchants p) @ ms @ drop (KnownN p + length ms) (KnownMerchants p),
                 KnownN := KnownN p + length ms\<rparr>, r))"
  using assms
proof (induction ms arbitrary: n p)
  case Nil
  then obtain m where "n = Suc m" by (cases n) auto
  then show ?case by (simp add: knownLoop.simps(2) skipWs_Cons)
next
  case (Cons x ms)
  from Cons.prems(2) obtain m where n: "n = Suc m" "length ms < m" by (cases n) auto
  let ?rest = "(if ms = [] then [] else CHR '','' # join (map quote ms)) @ CHR '']'' # r"
  let ?p = "p\<lparr>KnownMerchants := (KnownMerchants p)[KnownN p := x], KnownN := KnownN p + 1\<rparr>"
  have jn: "join (map quote (x # ms)) @ CHR '']'' # r = quote x @ ?rest" by (cases ms) simp_all
  have c: "optComma ?rest = join (map quote ms) @ CHR '']'' # r" by (auto simp: optComma_def skipWs_Cons)
  have rd: "readStr (quote x @ ?rest) = Inr (x, ?rest)" using Cons.prems(1) by (intro readStr_quote) simp
  have ws: "skipWs (quote x @ ?rest) = CHR 0x22 # x @ CHR 0x22 # ?rest" by (simp add: quote_def skipWs_Cons)
  have lt: "KnownN p < 16" using Cons.prems(3) by simp
  have step: "knownLoop n (quote x @ ?rest) p = knownLoop m (join (map quote ms) @ CHR '']'' # r) ?p"
    unfolding n(1) knownLoop.simps(2) ws rd list.case sum.case prod.case c using lt by simp
  have upd: "take (Suc (KnownN p)) ((KnownMerchants p)[KnownN p := x]) = take (KnownN p) (KnownMerchants p) @ [x]"
    using lt Cons.prems(4) by (simp add: take_Suc_conv_app_nth)
  show ?case unfolding jn step
    using Cons.IH [of m ?p] Cons.prems n(2) lt upd by simp
qed

lemma readKnown_text:
  assumes "list_all unquoted ms" "length ms \<le> 16" "length (KnownMerchants p) = 16"
  shows "readKnown (known_text ms @ r) p = Some (Inr (set_known ms p, r))"
proof -
  let ?s = "join (map quote ms) @ CHR '']'' # r"
  have len: "length ms \<le> Suc (length (join (map quote ms)))"
  proof (induction ms)
    case (Cons m ms)
    then show ?case by (cases ms) (simp_all add: quote_def)
  qed simp
  have "expect CHR ''['' (known_text ms @ r) = Inr ?s"
    by (simp add: known_text_def expect_def skipWs_Cons)
  moreover have "knownLoop (Suc (length ?s)) ?s (p\<lparr>KnownN := 0\<rparr>) = Some (Inr (set_known ms p, r))"
    using knownLoop_join [of ms "Suc (length ?s)" "p\<lparr>KnownN := 0\<rparr>" r] assms len by (simp add: set_known_def)
  ultimately show ?thesis by (simp add: readKnown_def)
qed

lemma nows_known: "nows (known_text ms)"
  by (simp add: nows_def known_text_def)

lemma set_known_ok: "payload_ok p \<Longrightarrow> length ms \<le> 16 \<Longrightarrow> payload_ok (set_known ms p)"
  by (simp add: payload_ok_def set_known_def)

lemma cust_reads:
  assumes "doc_ok d"
  shows "\<forall>f \<in> set (cust_fields d). reads payload_ok custField f"
proof -
  have "reads payload_ok custField (''known_merchants'', known_text (dKnown d), set_known (dKnown d))"
    using assms readKnown_text [of "dKnown d"] set_known_ok
    by (simp add: reads_def custField_def nows_known unquoted_def [of "_ # _"] doc_ok_def payload_ok_def [of p for p])
  then show ?thesis using assms
    by (simp add: cust_fields_def reads_def custField_def store_def doc_ok_def token_reads unquoted_def [of "_ # _"]
        payload_ok_def)
qed

definition last_text :: "(bytes \<times> bytes) option \<Rightarrow> bytes" where
  "last_text l = (case l of None \<Rightarrow> ''null'' | Some x \<Rightarrow> braces (map text_of (last_fields x)))"

definition set_last :: "(bytes \<times> bytes) option \<Rightarrow> Payload \<Rightarrow> Payload" where
  "set_last l p = (case l of None \<Rightarrow> p\<lparr>HasLast := False\<rparr> | Some x \<Rightarrow> apply_fields (last_fields x) (p\<lparr>HasLast := True\<rparr>))"

lemma last_text_reads:
  assumes "doc_ok d"
  shows "reads payload_ok topField (''last_transaction'', last_text (dLast d), set_last (dLast d))"
proof (cases "dLast d")
  case None
  then show ?thesis
    by (simp add: reads_def topField_def readLast_def last_text_def set_last_def nows_def isWs_def
        unquoted_def [of "_ # _"] payload_ok_def)
next
  case (Some x)
  have "take 4 (braces fs @ r) \<noteq> ''null''" for fs r by (simp add: braces_def)
  moreover have "payload_ok (p\<lparr>HasLast := True\<rparr>)" if "payload_ok p" for p using that by (simp add: payload_ok_def)
  ultimately show ?thesis
    using object_braces [OF last_reads [OF assms Some]]
    by (simp add: Some reads_def topField_def readLast_def last_text_def set_last_def nows_braces
        unquoted_def [of "_ # _"])
qed

definition body_fields :: "doc \<Rightarrow> (bytes \<times> bytes \<times> (Payload \<Rightarrow> Payload)) list" where
  "body_fields d =
     [(''transaction'', braces (map text_of (tx_fields d)), apply_fields (tx_fields d)),
      (''customer'', braces (map text_of (cust_fields d)), apply_fields (cust_fields d)),
      (''merchant'', braces (map text_of (mer_fields d)), apply_fields (mer_fields d)),
      (''terminal'', braces (map text_of (term_fields d)), apply_fields (term_fields d)),
      (''last_transaction'', last_text (dLast d), set_last (dLast d))]"

definition render_body :: "doc \<Rightarrow> bytes" where
  "render_body d = braces (map text_of (body_fields d))"

definition payload_of :: "doc \<Rightarrow> Payload" where
  "payload_of d =
     \<lparr>Amount = plainF32 (dAmount d), Installments = dInstallments d, RequestedAt = dRequestedAt d,
      AvgAmount = plainF32 (dAvg d), TxCount24h = dCount d,
      KnownMerchants = dKnown d @ replicate (16 - length (dKnown d)) [], KnownN = length (dKnown d),
      MerchantID = dMerchant d, MCC = dMcc d, MerchantAvgAmount = plainF32 (dMerchantAvg d),
      IsOnline = dOnline d, CardPresent = dPresent d, KmFromHome = plainF32 (dKmHome d),
      HasLast = (dLast d \<noteq> None),
      LastTimestamp = (case dLast d of None \<Rightarrow> [] | Some (t, km) \<Rightarrow> t),
      LastKmFromCurrent = (case dLast d of None \<Rightarrow> Fin 0 | Some (t, km) \<Rightarrow> plainF32 km)\<rparr>"

lemma body_reads:
  assumes "doc_ok d"
  shows "\<forall>f \<in> set (body_fields d). reads payload_ok topField f"
proof -
  have "reads payload_ok topField (''transaction'', braces (map text_of (tx_fields d)), apply_fields (tx_fields d))"
    by (rule reads_object [OF tx_reads [OF assms]]) (simp_all add: unquoted_def topField_def readTx_def)
  moreover have "reads payload_ok topField (''customer'', braces (map text_of (cust_fields d)), apply_fields (cust_fields d))"
    by (rule reads_object [OF cust_reads [OF assms]]) (simp_all add: unquoted_def topField_def readCust_def)
  moreover have "reads payload_ok topField (''merchant'', braces (map text_of (mer_fields d)), apply_fields (mer_fields d))"
    by (rule reads_object [OF mer_reads [OF assms]]) (simp_all add: unquoted_def topField_def readMer_def)
  moreover have "reads payload_ok topField (''terminal'', braces (map text_of (term_fields d)), apply_fields (term_fields d))"
    by (rule reads_object [OF term_reads [OF assms]]) (simp_all add: unquoted_def topField_def readTerm_def)
  ultimately show ?thesis using last_text_reads [OF assms] by (simp add: body_fields_def)
qed

lemma body_payload: "apply_fields (body_fields d) Payload0 = payload_of d"
  by (cases "dLast d")
     (simp_all add: apply_fields_def body_fields_def tx_fields_def cust_fields_def mer_fields_def term_fields_def
       last_fields_def set_last_def set_known_def payload_of_def Payload0_def split: prod.splits)

section \<open>Properties\<close>

lemma Parse_returns: "\<exists>r. Parse buf = Some r"
  using top.object_fine [of buf Payload0] by (auto simp: Parse_def fine_def)

lemma Parse_body:
  assumes "doc_ok d"
  shows "Parse (render_body d @ rest) = Some (Inr (payload_of d))"
proof -
  have "payload_ok Payload0" by (simp add: payload_ok_def Payload0_def)
  from object_braces [OF body_reads [OF assms] this, of rest]
  show ?thesis by (simp add: Parse_def render_body_def body_payload)
qed

text \<open>(C33) Round trip of the request body: for every document whose strings hold no quotes, whose
  numbers are plain decimals and whose counters fit 32 bits, parsing the printed body, whatever
  follows it, gives the payload with exactly those fields.\<close>

theorem Parse_render:
  assumes "doc_ok d"
  shows "Parse (render_body d @ rest) = Some (Inr (payload_of d))"
  using assms by (rule Parse_body)

text \<open>The parser is total: on every buffer, malformed or not, all its loops end, within the length
  of the buffer, and it returns a payload or \<open>ErrMalformed\<close>.\<close>

theorem Parse_total: "\<exists>r. Parse buf = Some r"
  by (rule Parse_returns)

lemma Parse_keeps_ok:
  assumes "Parse buf = Some (Inr p)"
  shows "length (KnownMerchants p) = 16 \<and> KnownN p \<le> 16"
proof -
  obtain x where x: "object topField buf Payload0 = Some x" "map_sum id fst x = Inr p"
    using assms unfolding Parse_def map_option_eq_Some by blast
  then obtain y where "x = Inr y" "fst y = p" by (cases x) simp_all
  then have "object topField buf Payload0 = Some (Inr (p, snd y))" using x(1) by (cases y) simp
  moreover have "payload_ok Payload0" by (simp add: payload_ok_def Payload0_def)
  ultimately have "payload_ok p" using top_keep.object_keep by blast
  then show ?thesis by (simp add: payload_ok_def)
qed

text \<open>Invariant of the payload: whatever the parser accepts, the array of known merchants has its
  sixteen entries and the counter of used entries never exceeds sixteen, however many merchants
  the request lists.\<close>

theorem Parse_payload_ok:
  assumes "Parse buf = Some (Inr p)"
  shows "length (KnownMerchants p) = 16 \<and> KnownN p \<le> 16"
  using assms by (rule Parse_keeps_ok)

section \<open>Witnesses\<close>

definition doc_ex :: doc where
  "doc_ex = \<lparr>dAmount = ''384.88'', dInstallments = 3, dRequestedAt = ''2026-03-11T20:23:35Z'', dAvg = ''769.76'',
     dCount = 3, dKnown = [''MERC-009'', ''MERC-001''], dMerchant = ''MERC-001'', dMcc = ''5912'',
     dMerchantAvg = ''298.95'', dOnline = False, dPresent = True, dKmHome = ''13.7090520965'',
     dLast = Some (''2026-03-11T14:58:35Z'', ''18.8626479774'')\<rparr>"

lemma doc_ok_ex: "doc_ok doc_ex"
  by (simp add: doc_ok_def doc_ex_def plain_number_def isSign_def isDigit_def unquoted_def)

theorem Parse_render_witness: "Parse (render_body doc_ex @ []) = Some (Inr (payload_of doc_ex))"
  by (rule Parse_render [OF doc_ok_ex])

theorem Parse_payload_ok_witness: "length (KnownMerchants (payload_of doc_ex)) = 16"
proof -
  have "\<forall>f \<in> set (body_fields doc_ex). reads payload_ok topField f" by (rule body_reads [OF doc_ok_ex])
  moreover have "payload_ok Payload0" by (simp add: payload_ok_def Payload0_def)
  ultimately have "Parse (render_body doc_ex @ []) = Some (Inr (payload_of doc_ex))"
    using object_braces [of "body_fields doc_ex" payload_ok topField Payload0 "[]"]
    by (simp add: Parse_def render_body_def body_payload)
  then show ?thesis using Parse_payload_ok by blast
qed

end
