(* ===== verification/Jsonp_Numbers.thy ===== *)
theory Jsonp_Numbers
  imports Jsonp
begin

text \<open>
  How exact the hand-written number reader \<open>readF32\<close> is. It accumulates the digits before and
  after the dot in two 64-bit integers and combines them in 32-bit floating point: five roundings
  in all, so the result is within five units in the 24th place as long as the accumulators do not
  wrap. A fraction of twenty digits does wrap them.
\<close>

section \<open>Relative error of a rounding\<close>

definition u24 :: rat where
  "u24 = 1 / 2 ^ 24"

lemma roundVal_rel:
  assumes "x = 0 \<or> 2 powi (- 126) \<le> \<bar>x\<bar>"
  shows "\<bar>roundVal 24 (- 126) x - x\<bar> \<le> \<bar>x\<bar> * u24"
proof (cases "x = 0")
  case False
  then have pos: "0 < \<bar>x\<bar>" and big: "2 powi (- 126) \<le> \<bar>x\<bar>" using assms by auto
  have "- 126 \<le> flog2 \<bar>x\<bar>"
  proof (rule ccontr)
    assume "\<not> - 126 \<le> flog2 \<bar>x\<bar>"
    then have "(2::rat) powi (flog2 \<bar>x\<bar> + 1) \<le> 2 powi (- 126)" by (intro power_int_increasing) simp_all
    then show False using flog2_bounds(2) [OF pos] big by simp
  qed
  then have "ulpExp 24 (- 126) x = flog2 \<bar>x\<bar> - 23" by (simp add: ulpExp_def)
  moreover have "(2::rat) powi (flog2 \<bar>x\<bar> - 23) / 2 = 2 powi flog2 \<bar>x\<bar> * u24"
    by (simp add: power_int_diff u24_def)
  ultimately have "\<bar>roundVal 24 (- 126) x - x\<bar> \<le> 2 powi flog2 \<bar>x\<bar> * u24"
    using roundVal_error [of 24 "- 126" x] by simp
  also have "\<dots> \<le> \<bar>x\<bar> * u24"
    using flog2_bounds(1) [OF pos] by (intro mult_right_mono) (simp_all add: u24_def)
  finally show ?thesis .
qed simp

lemma round32_rel:
  assumes "0 \<le> x" "x = 0 \<or> 1 / 2 ^ 100 \<le> x" "x \<le> 2 ^ 100"
  obtains y where "round32 x = Fin y" "x * (1 - u24) \<le> y" "y \<le> x * (1 + u24)"
proof
  have e: "(2::rat) powi 100 = 2 ^ 100" "(2::rat) powi (- 126) \<le> 1 / 2 ^ 100"
    by (simp_all add: power_int_minus divide_simps)
  show "round32 x = Fin (roundVal 24 (- 126) x)"
    using roundTo_Fin [of x 100 "- 126" 127 24] assms e(1) by (simp add: round32_def)
  have "\<bar>roundVal 24 (- 126) x - x\<bar> \<le> x * u24"
    using roundVal_rel [of x] assms(1,2) e(2) by auto
  then show "x * (1 - u24) \<le> roundVal 24 (- 126) x" "roundVal 24 (- 126) x \<le> x * (1 + u24)"
    by (simp_all add: algebra_simps abs_le_iff)
qed

section \<open>The accumulators\<close>

lemma accDigits_eq: "accDigits 0 ds = digitsVal ds mod 2 ^ 64"
  using foldl_wrap [of "\<lambda>c. byte_sub c CHR ''0''" "2 ^ 64" 0 ds] by (simp add: accDigits_def digitsVal_def u64_def)

lemma fracPow_eq: "foldl (\<lambda>v c. u64 (v * 10)) 1 ds = 10 ^ length ds mod 2 ^ 64"
proof -
  have "foldl (\<lambda>v c. v * 10 + 0) a ds = a * 10 ^ length ds" for a :: nat
    by (induction ds arbitrary: a) simp_all
  then show ?thesis using foldl_wrap [of "\<lambda>c. 0" "2 ^ 64" 1 ds] by (simp add: u64_def)
qed

lemma digitsVal_less: "list_all isDigit ds \<Longrightarrow> digitsVal ds < 10 ^ length ds"
proof (induction ds rule: rev_induct)
  case (snoc c ds)
  have "byte_sub c CHR ''0'' < 10"
    using snoc.prems by (auto simp: isDigit_def byte_sub_digit)
  then show ?case using snoc by (simp add: digitsVal_def)
qed (simp add: digitsVal_def)

lemma plainF32_dot:
  assumes "list_all isDigit ip" "list_all isDigit fp"
  shows "plainF32 (ip @ CHR ''.'' # fp) =
    fl_add round32 (round32 (of_nat (digitsVal ip mod 2 ^ 64)))
      (fl_div round32 (round32 (of_nat (digitsVal fp mod 2 ^ 64))) (round32 (of_nat (10 ^ length fp mod 2 ^ 64))))"
proof -
  let ?s = "ip @ CHR ''.'' # fp"
  have hd: "\<not> isSign (hd ?s)" "hd ?s \<noteq> CHR ''-''"
    using assms(1) by (cases ip; auto simp: isSign_def isDigit_def)+
  have nd: "\<forall>c \<in> set ip. c \<noteq> CHR ''.''" using assms(1) by (auto simp: list_all_iff isDigit_def)
  have t: "takeWhile (\<lambda>c. c \<noteq> CHR ''.'') ?s = ip" "dropWhile (\<lambda>c. c \<noteq> CHR ''.'') ?s = CHR ''.'' # fp"
    using nd by (simp_all add: takeWhile_append dropWhile_append)
  show ?thesis unfolding plainF32_def Let_def using hd t
    by (simp add: accDigits_eq fracPow_eq [unfolded One_nat_def])
qed

section \<open>The five roundings\<close>

text \<open>The quotient of two numbers that are each off by one rounding.\<close>

lemma ratio_rel:
  assumes "0 \<le> b" "1 \<le> c" "b * (1 - u24) \<le> b'" "b' \<le> b * (1 + u24)" "c * (1 - u24) \<le> c'" "c' \<le> c * (1 + u24)"
  shows "1 / 2 \<le> c'" "b' / c' \<le> b / c * (1 + 9 / 4 * u24)" "b / c * (1 - 9 / 4 * u24) \<le> b' / c'"
proof -
  have u: "0 < u24" "u24 \<le> 1 / 1000" by (simp_all add: u24_def)
  have "1 * (1 - u24) \<le> c * (1 - u24)" using assms(2) u by (intro mult_right_mono) simp_all
  then have "1 - u24 \<le> c'" using assms(5) by (simp only: mult_1)
  then show cpos: "1 / 2 \<le> c'" using u by linarith
  define r where "r = b / c"
  have r: "0 \<le> r" and rc: "b = r * c" using assms(1,2) by (simp_all add: r_def)
  have "b' \<le> b * ((1 + 9 / 4 * u24) * (1 - u24))"
    by (rule order_trans [OF assms(4)]) (intro mult_left_mono assms(1), simp add: u24_def)
  also have "\<dots> = r * (1 + 9 / 4 * u24) * (c * (1 - u24))" unfolding rc by (simp add: algebra_simps)
  also have "\<dots> \<le> r * (1 + 9 / 4 * u24) * c'" using assms(5) r u by (intro mult_left_mono) simp_all
  finally show "b' / c' \<le> b / c * (1 + 9 / 4 * u24)" using cpos by (simp add: divide_le_eq r_def)
  have "r * (1 - 9 / 4 * u24) * c' \<le> r * (1 - 9 / 4 * u24) * (c * (1 + u24))"
    using assms(6) r u by (intro mult_left_mono) simp_all
  also have "\<dots> = b * ((1 - 9 / 4 * u24) * (1 + u24))" unfolding rc by (simp add: algebra_simps)
  also have "\<dots> \<le> b * (1 - u24)" using assms(1) by (intro mult_left_mono) (simp_all add: u24_def)
  finally have "r * (1 - 9 / 4 * u24) * c' \<le> b'" using assms(3) by linarith
  then show "b / c * (1 - 9 / 4 * u24) \<le> b' / c'" using cpos by (simp add: le_divide_eq r_def)
qed

text \<open>Rounding a number that is already off by a factor: the two errors add up.\<close>

lemma round_again:
  assumes "0 \<le> e" "e = 0 \<or> 1 / 2 ^ 64 \<le> e" "e \<le> 2 ^ 65" "e * (1 - \<epsilon>) \<le> x" "x \<le> e * (1 + \<epsilon>)" "0 \<le> \<epsilon>" "\<epsilon> \<le> 1 / 2"
    "(1 + \<epsilon>) * (1 + u24) \<le> 1 + \<delta>" "1 - \<delta> \<le> (1 - \<epsilon>) * (1 - u24)"
  obtains v where "round32 x = Fin v" "e * (1 - \<delta>) \<le> v" "v \<le> e * (1 + \<delta>)"
proof -
  have u: "0 < u24" "u24 \<le> 1 / 1000" by (simp_all add: u24_def)
  have half: "e * (1 / 2) \<le> e * (1 - \<epsilon>)" "e * (1 + \<epsilon>) \<le> e * 2"
    by (rule mult_left_mono; use assms(1,6,7) in linarith)+
  have x: "e * (1 / 2) \<le> x" "x \<le> e * 2" by (rule order_trans [OF half(1) assms(4)], rule order_trans [OF assms(5) half(2)])
  have "0 \<le> x" using x(1) assms(1) by linarith
  moreover have "x = 0 \<or> 1 / 2 ^ 100 \<le> x"
  proof (cases "e = 0")
    case True
    then show ?thesis using x by simp
  next
    case False
    then have "1 / 2 ^ 64 * (1 / 2) \<le> e * (1 / 2)" using assms(2) by (intro mult_right_mono) auto
    moreover have "(1::rat) / 2 ^ 100 \<le> 1 / 2 ^ 64 * (1 / 2)" by simp
    ultimately show ?thesis using x(1) by linarith
  qed
  moreover have "x \<le> 2 ^ 100" using x(2) assms(3) by simp
  ultimately obtain v where v: "round32 x = Fin v" "x * (1 - u24) \<le> v" "v \<le> x * (1 + u24)" by (rule round32_rel)
  have "v \<le> e * (1 + \<epsilon>) * (1 + u24)" by (rule order_trans [OF v(3) mult_right_mono [OF assms(5)]]) (use u in simp)
  also have "\<dots> \<le> e * (1 + \<delta>)" unfolding mult.assoc using assms(1,8) by (rule mult_left_mono [rotated])
  finally have hi: "v \<le> e * (1 + \<delta>)" .
  have "e * (1 - \<delta>) \<le> e * (1 - \<epsilon>) * (1 - u24)" unfolding mult.assoc using assms(1,9) by (rule mult_left_mono [rotated])
  also have "\<dots> \<le> v" by (rule order_trans [OF mult_right_mono [OF assms(4)] v(2)]) (use u in simp)
  finally show ?thesis using that v(1) hi by blast
qed

text \<open>The quotient of two rounded numbers, rounded again.\<close>

lemma quotient_rel:
  assumes "0 \<le> b" "b = 0 \<or> 1 \<le> b" "b \<le> c" "1 \<le> c" "c \<le> 2 ^ 64"
  obtains q where "fl_div round32 (round32 b) (round32 c) = Fin q"
    "b / c * (1 - 7 / 2 * u24) \<le> q" "q \<le> b / c * (1 + 7 / 2 * u24)"
proof -
  have b2: "b \<le> 2 ^ 64" using assms by simp
  obtain b' where b': "round32 b = Fin b'" "b * (1 - u24) \<le> b'" "b' \<le> b * (1 + u24)"
    by (rule round32_rel [of b]) (use assms b2 in auto)
  obtain c' where c': "round32 c = Fin c'" "c * (1 - u24) \<le> c'" "c' \<le> c * (1 + u24)"
    by (rule round32_rel [of c]) (use assms in auto)
  note r = ratio_rel [OF assms(1,4) b'(2,3) c'(2,3)]
  have e: "0 \<le> b / c" "b / c \<le> 2 ^ 65" using assms by (simp_all add: divide_le_eq)
  have tiny: "b / c = 0 \<or> 1 / 2 ^ 64 \<le> b / c"
  proof (cases "b = 0")
    case False
    then have "1 / 2 ^ 64 \<le> b / c" using assms by (intro frac_le) auto
    then show ?thesis ..
  qed simp
  obtain q where "round32 (b' / c') = Fin q" "b / c * (1 - 7 / 2 * u24) \<le> q" "q \<le> b / c * (1 + 7 / 2 * u24)"
    by (rule round_again [OF e(1) tiny e(2) r(3,2), of "7 / 2 * u24"]) (simp_all add: u24_def)
  then show ?thesis using that b'(1) c'(1) r(1) by simp
qed

lemma sum_rel:
  assumes "0 \<le> a" "a = 0 \<or> 1 \<le> a" "a \<le> 2 ^ 64" "0 \<le> r" "r = 0 \<or> 1 / 2 ^ 64 \<le> r" "r \<le> 1"
    "r * (1 - 7 / 2 * u24) \<le> q" "q \<le> r * (1 + 7 / 2 * u24)"
  obtains v where "fl_add round32 (round32 a) (Fin q) = Fin v" "\<bar>v - (a + r)\<bar> \<le> 5 * u24 * (a + r)"
proof -
  have u: "0 < u24" by (simp add: u24_def)
  obtain a' where a': "round32 a = Fin a'" "a * (1 - u24) \<le> a'" "a' \<le> a * (1 + u24)"
    by (rule round32_rel [of a]) (use assms in auto)
  have "a * (1 - 7 / 2 * u24) \<le> a * (1 - u24)" "a * (1 + u24) \<le> a * (1 + 7 / 2 * u24)"
    using assms(1) u by (auto intro!: mult_left_mono)
  then have s: "(a + r) * (1 - 7 / 2 * u24) \<le> a' + q" "a' + q \<le> (a + r) * (1 + 7 / 2 * u24)"
    using a'(2,3) assms(7,8) by (simp_all add: distrib_right)
  have e: "0 \<le> a + r" "a + r = 0 \<or> 1 / 2 ^ 64 \<le> a + r" "a + r \<le> 2 ^ 65" using assms by auto
  obtain v where v: "round32 (a' + q) = Fin v" "(a + r) * (1 - 5 * u24) \<le> v" "v \<le> (a + r) * (1 + 5 * u24)"
    by (rule round_again [OF e s, of "5 * u24"]) (simp_all add: u24_def)
  show ?thesis
  proof
    show "fl_add round32 (round32 a) (Fin q) = Fin v" using a'(1) v(1) by simp
    show "\<bar>v - (a + r)\<bar> \<le> 5 * u24 * (a + r)" using v(2,3) by (simp add: algebra_simps abs_le_iff)
  qed
qed

section \<open>Properties\<close>

text \<open>(C37) Accuracy of the number reader: a decimal numeral with a dot, an integer part below $2^{64}$ and at
  most nineteen fraction digits is read with a relative error of at most $5 \cdot 2^{-24}$, all
  roundings of the 32-bit arithmetic included.\<close>

theorem plainF32_accurate:
  assumes "list_all isDigit ip" "digitsVal ip < 2 ^ 64" "list_all isDigit fp" "length fp \<le> 19"
  defines "exact \<equiv> of_nat (digitsVal ip) + of_nat (digitsVal fp) / 10 ^ length fp"
  shows "\<exists>x. plainF32 (ip @ CHR ''.'' # fp) = Fin x \<and> \<bar>x - exact\<bar> \<le> 5 / 2 ^ 24 * exact"
proof -
  let ?a = "of_nat (digitsVal ip) :: rat" and ?b = "of_nat (digitsVal fp) :: rat" and ?c = "10 ^ length fp :: rat"
  have lt: "digitsVal fp < 10 ^ length fp" by (rule digitsVal_less [OF assms(3)])
  have p: "(10::nat) ^ length fp \<le> 10 ^ 19" using assms(4) by (intro power_increasing) simp_all
  then have c64: "(10::nat) ^ length fp < 2 ^ 64" by simp
  have c1: "(1::nat) \<le> 10 ^ length fp" by simp
  have bc: "?b \<le> ?c" using lt by (metis less_imp_le of_nat_le_iff of_nat_numeral of_nat_power)
  have c: "1 \<le> ?c" "?c \<le> 2 ^ 64"
    using c1 less_imp_le [OF c64] by (metis of_nat_le_iff of_nat_1 of_nat_numeral of_nat_power)+
  have nat_cases: "(of_nat n :: rat) = 0 \<or> 1 \<le> (of_nat n :: rat)" for n by (cases n) simp_all
  have a: "?a \<le> 2 ^ 64" using assms(2) by (metis less_imp_le of_nat_le_iff of_nat_numeral of_nat_power)
  obtain q where q: "fl_div round32 (round32 ?b) (round32 ?c) = Fin q"
    "?b / ?c * (1 - 7 / 2 * u24) \<le> q" "q \<le> ?b / ?c * (1 + 7 / 2 * u24)"
    by (rule quotient_rel [OF of_nat_0_le_iff nat_cases bc c])
  have r: "0 \<le> ?b / ?c" "?b / ?c \<le> 1" using bc c(1) by simp_all
  have rt: "?b / ?c = 0 \<or> 1 / 2 ^ 64 \<le> ?b / ?c"
    using nat_cases [of "digitsVal fp"] c by (auto intro!: frac_le)
  obtain v where v: "fl_add round32 (round32 ?a) (Fin q) = Fin v" "\<bar>v - (?a + ?b / ?c)\<bar> \<le> 5 * u24 * (?a + ?b / ?c)"
    by (rule sum_rel [OF of_nat_0_le_iff nat_cases a r(1) rt r(2) q(2,3)])
  have m: "digitsVal ip mod 2 ^ 64 = digitsVal ip" "digitsVal fp mod 2 ^ 64 = digitsVal fp"
    "10 ^ length fp mod 2 ^ 64 = (10::nat) ^ length fp"
    using assms(2) lt c64 by (simp_all only: mod_less order.strict_trans)
  have "plainF32 (ip @ CHR ''.'' # fp) = Fin v"
    unfolding plainF32_dot [OF assms(1,3)] m of_nat_power of_nat_numeral q(1) v(1) ..
  then show ?thesis using v(2) by (simp add: exact_def u24_def)
qed

text \<open>The fraction accumulators wrap at $2^{64}$: the numeral \<open>0.30000000000000000000\<close>,
  with twenty fraction digits, is read as a number above $1.4$.\<close>

theorem plainF32_wraps:
  "\<exists>x. plainF32 ''0.30000000000000000000'' = Fin x \<and> 14 / 10 < x"
proof -
  let ?fp = "''30000000000000000000''"
  have s: "''0.30000000000000000000'' = ''0'' @ CHR ''.'' # ?fp" by simp
  have d: "list_all isDigit ?fp" "list_all isDigit ''0''" by (simp_all add: isDigit_def)
  have "digitsVal ?fp = 3 * 10 ^ 19" by (simp add: digitsVal_def byte_sub_def)
  then have b: "digitsVal ?fp mod 2 ^ 64 = 11553255926290448384" by simp
  have c: "10 ^ length ?fp mod 2 ^ 64 = (7766279631452241920::nat)" by simp
  have a: "digitsVal ''0'' mod 2 ^ 64 = 0" by (simp add: digitsVal_def byte_sub_def)
  obtain b' where b': "round32 11553255926290448384 = Fin b'" "11553255926290448384 * (1 - u24) \<le> b'"
    "b' \<le> 11553255926290448384 * (1 + u24)"
    by (rule round32_rel [of 11553255926290448384]) simp_all
  obtain c' where c': "round32 7766279631452241920 = Fin c'" "7766279631452241920 * (1 - u24) \<le> c'"
    "c' \<le> 7766279631452241920 * (1 + u24)"
    by (rule round32_rel [of 7766279631452241920]) simp_all
  have cpos: "0 < c'" and clo: "7000000000000000000 \<le> c'" and chi: "c' \<le> 7800000000000000000"
    using c'(2,3) by (simp_all add: u24_def)
  have blo: "11500000000000000000 \<le> b'" and bhi: "b' \<le> 12000000000000000000" using b'(2,3) by (simp_all add: u24_def)
  have q: "147 / 100 \<le> b' / c'" "b' / c' \<le> 2"
    using clo chi blo bhi cpos by (simp_all add: le_divide_eq divide_le_eq)
  have q3: "0 \<le> b' / c'" "1 / 2 ^ 100 \<le> b' / c'" "b' / c' \<le> 2 ^ 100"
    by (rule order_trans [OF _ q(1)], simp, rule order_trans [OF _ q(1)], simp, rule order_trans [OF q(2)], simp)
  obtain q' where q': "round32 (b' / c') = Fin q'" "b' / c' * (1 - u24) \<le> q'" "q' \<le> b' / c' * (1 + u24)"
    by (rule round32_rel [OF q3(1) disjI2 [OF q3(2)] q3(3)])
  have "147 / 100 * (1 - u24) \<le> b' / c' * (1 - u24)" "b' / c' * (1 + u24) \<le> 2 * (1 + u24)"
    using q by (intro mult_right_mono; simp add: u24_def)+
  then have q2: "146 / 100 \<le> q'" "q' \<le> 3" using q'(2,3) by (simp_all add: u24_def)
  obtain v where v: "round32 q' = Fin v" "q' * (1 - u24) \<le> v"
    by (rule round32_rel [of q']) (use q2 in auto)
  have "146 / 100 * (1 - u24) \<le> q' * (1 - u24)" using q2 by (intro mult_right_mono) (simp_all add: u24_def)
  then have "14 / 10 < v" using v(2) by (simp add: u24_def)
  moreover have "round32 0 = Fin 0" using round32_int [of 0] by simp
  then have "plainF32 ''0.30000000000000000000'' = Fin v"
    unfolding s plainF32_dot [OF d(2,1)] a b c using b'(1) c'(1) cpos q'(1) v(1) by simp
  ultimately show ?thesis by blast
qed

theorem plainF32_accurate_witness:
  "\<exists>x. plainF32 ''384.88'' = Fin x \<and> \<bar>x - (384 + 88 / 100)\<bar> \<le> 5 / 2 ^ 24 * (384 + 88 / 100)"
proof -
  have "digitsVal ''384'' = 384" "digitsVal ''88'' = 88" by (simp_all add: digitsVal_def byte_sub_def)
  then show ?thesis using plainF32_accurate [of "''384''" "''88''"] by (simp add: isDigit_def)
qed

end
