(* ===== verification/Jsonp_Cursor.thy ===== *)
theory Jsonp_Cursor
  imports Jsonp "HOL-Library.Sublist"
begin

text \<open>
  The request parser (\<open>internal/jsonp/json.go\<close>) as it is written, with an index that walks through the buffer. Every
  read of a byte and every slice is checked against the length, and one that is out of range is a
  panic, the value \<^const>\<open>None\<close>. The parser of \<open>Jsonp\<close> works on the rest of the buffer instead; each function here is
  shown to refine its counterpart there, where an index stands for the rest of the buffer from it on.
  The image is built without bounds checks, so the refinement is what keeps the parser inside
  the request.

  The locale \<open>cursor_switch\<close> carries the refinement through the loop that all object readers share.
\<close>

section \<open>Tokens\<close>

definition peek :: "bytes \<Rightarrow> nat \<Rightarrow> int" where
  "peek buf i = (if i < length buf then int (of_char (buf ! i)) else - 1)"

text \<open>Go's \<open>buf[a:b]\<close>.\<close>

definition slice_at :: "bytes \<Rightarrow> nat \<Rightarrow> nat \<Rightarrow> bytes option" where
  "slice_at buf a b = (if a \<le> b \<and> b \<le> length buf then Some (take (b - a) (drop a buf)) else None)"

text \<open>The loops that only move the index.\<close>

function scan :: "(char \<Rightarrow> bool) \<Rightarrow> bytes \<Rightarrow> nat \<Rightarrow> nat option" where
  "scan P buf i = (if i < length buf then do { c \<leftarrow> read_at buf i; if P c then scan P buf (i + 1) else Some i } else Some i)"
  by pat_completeness auto
termination by (relation "measure (\<lambda>(P, buf, i). length buf - i)") auto

declare scan.simps [simp del]

definition skipWs_at :: "bytes \<Rightarrow> nat \<Rightarrow> nat option" where
  "skipWs_at buf i = scan (\<lambda>c. c = CHR '' '' \<or> c = CHR 0x09 \<or> c = CHR 0x0D \<or> c = CHR 0x0A) buf i"

definition expect_at :: "bytes \<Rightarrow> nat \<Rightarrow> char \<Rightarrow> (Malformed + nat) option" where
  "expect_at buf i c =
     do {
       i \<leftarrow> skipWs_at buf i;
       if i \<ge> length buf then Some (Inl ErrMalformed)
       else do { x \<leftarrow> read_at buf i; Some (if x \<noteq> c then Inl ErrMalformed else Inr (i + 1)) }
     }"

fun eq_from :: "bytes \<Rightarrow> bytes \<Rightarrow> nat \<Rightarrow> nat \<Rightarrow> bool option" where
  "eq_from a b j 0 = Some True"
| "eq_from a b j (Suc n) = do { x \<leftarrow> read_at a j; y \<leftarrow> read_at b j; if x \<noteq> y then Some False else eq_from a b (j + 1) n }"

definition eq_at :: "bytes \<Rightarrow> bytes \<Rightarrow> bool option" where
  "eq_at a b = (if length a \<noteq> length b then Some False else eq_from a b 0 (length a))"

type_synonym 'a reader_at = "bytes \<Rightarrow> nat \<Rightarrow> (Malformed + ('a \<times> nat)) option"

definition readStr_at :: "bytes reader_at" where
  "readStr_at buf i =
     do {
       i \<leftarrow> skipWs_at buf i;
       if i \<ge> length buf then Some (Inl ErrMalformed)
       else do {
         x \<leftarrow> read_at buf i;
         if x \<noteq> CHR 0x22 then Some (Inl ErrMalformed)
         else do {
           j \<leftarrow> scan (\<lambda>c. c \<noteq> CHR 0x22) buf (i + 1);
           if j \<ge> length buf then Some (Inl ErrMalformed)
           else do { s \<leftarrow> slice_at buf (i + 1) j; Some (Inr (s, j + 1)) }
         }
       }
     }"

definition readKey_at :: "bytes reader_at" where
  "readKey_at buf i = readStr_at buf i"

definition word_at :: "bytes \<Rightarrow> nat \<Rightarrow> bytes \<Rightarrow> bool option" where
  "word_at buf i w =
     (if i + length w \<le> length buf then do { s \<leftarrow> slice_at buf i (i + length w); Some (s = w) } else Some False)"

definition readBool_at :: "bool reader_at" where
  "readBool_at buf i =
     do {
       i \<leftarrow> skipWs_at buf i;
       t \<leftarrow> word_at buf i ''true'';
       if t then Some (Inr (True, i + 4))
       else do {
         f \<leftarrow> word_at buf i ''false'';
         Some (if f then Inr (False, i + 5) else Inl ErrMalformed)
       }
     }"

function digits_at :: "bytes \<Rightarrow> nat \<Rightarrow> nat \<Rightarrow> bool \<Rightarrow> (nat \<times> bool \<times> nat) option" where
  "digits_at buf i v saw =
     (if i < length buf then
        do {
          c \<leftarrow> read_at buf i;
          if \<not> isDigit c then Some (v, saw, i)
          else digits_at buf (i + 1) (u32 (u32 (v * 10) + byte_sub c CHR ''0'')) True
        }
      else Some (v, saw, i))"
  by pat_completeness auto
termination by (relation "measure (\<lambda>(buf, i, v, saw). length buf - i)") auto

declare digits_at.simps [simp del]

definition readU32_at :: "nat reader_at" where
  "readU32_at buf i =
     do {
       i \<leftarrow> skipWs_at buf i;
       (v, saw, i) \<leftarrow> digits_at buf i 0 False;
       Some (if \<not> saw then Inl ErrMalformed else Inr (v, i))
     }"

section \<open>Cursors\<close>

text \<open>The index of the rest \<open>s\<close> of the buffer.\<close>

definition cur :: "bytes \<Rightarrow> bytes \<Rightarrow> nat" where
  "cur buf s = length buf - length s"

lemma cur_Nil [simp]: "cur buf [] = length buf"
  by (simp add: cur_def)

lemma cur_self [simp]: "cur buf buf = 0"
  by (simp add: cur_def)

lemma cur_le: "cur buf s \<le> length buf"
  by (simp add: cur_def)

lemma suffix_tl: "suffix (c # r) buf \<Longrightarrow> suffix r buf"
  by (metis suffix_ConsI suffix_order.order_refl suffix_order.trans)

lemma cur_Cons:
  assumes "suffix (c # r) buf"
  shows "cur buf (c # r) < length buf" "read_at buf (cur buf (c # r)) = Some c" "buf ! cur buf (c # r) = c" "Suc (cur buf (c # r)) = cur buf r"
    "\<not> length buf \<le> cur buf (c # r)"
proof -
  obtain a where "buf = a @ c # r" using assms by (auto simp: suffix_def)
  then show "cur buf (c # r) < length buf" "read_at buf (cur buf (c # r)) = Some c" "buf ! cur buf (c # r) = c" "Suc (cur buf (c # r)) = cur buf r"
      "\<not> length buf \<le> cur buf (c # r)"
    by (simp_all add: cur_def read_at_def)
qed

lemma cur_drop: "suffix s buf \<Longrightarrow> drop (cur buf s) buf = s"
  by (auto simp: suffix_def cur_def)

lemma suffix_drop': "suffix s buf \<Longrightarrow> suffix (drop n s) buf"
  by (metis suffix_drop suffix_order.trans)

lemma cur_plus: "suffix s buf \<Longrightarrow> n \<le> length s \<Longrightarrow> cur buf s + n = cur buf (drop n s)"
  by (auto simp: suffix_def cur_def)

lemma slice_cur: "suffix s buf \<Longrightarrow> suffix t s \<Longrightarrow> slice_at buf (cur buf s) (cur buf t) = Some (take (length s - length t) s)"
  by (auto simp: slice_at_def cur_def suffix_def)

lemma suffix_dropWhile: "suffix (dropWhile P s) s"
  by (metis suffixI takeWhile_dropWhile_id)

lemma scan_cur: "suffix s buf \<Longrightarrow> scan P buf (cur buf s) = Some (cur buf (dropWhile P s))"
proof (induction s)
  case (Cons c r)
  then show ?case using cur_Cons [OF Cons.prems] suffix_tl [OF Cons.prems] by (simp add: scan.simps [of P buf "cur buf (c # r)"])
qed (simp add: scan.simps)

definition follows :: "bytes \<Rightarrow> (Malformed + ('a \<times> nat)) option \<Rightarrow> Malformed + ('a \<times> bytes) \<Rightarrow> bool" where
  "follows buf x y \<longleftrightarrow> (case y of Inl e \<Rightarrow> x = Some (Inl e) | Inr (v, s) \<Rightarrow> x = Some (Inr (v, cur buf s)) \<and> suffix s buf)"

lemma isWs_fun: "(\<lambda>c. c = CHR '' '' \<or> c = CHR 0x09 \<or> c = CHR 0x0D \<or> c = CHR 0x0A) = isWs"
  by (simp add: fun_eq_iff isWs_def)

lemma skipWs_cur: "suffix s buf \<Longrightarrow> skipWs_at buf (cur buf s) = Some (cur buf (skipWs s)) \<and> suffix (skipWs s) buf"
  using scan_cur suffix_dropWhile suffix_order.trans unfolding skipWs_at_def isWs_fun skipWs_def by blast

lemma cur_end: "suffix s buf \<Longrightarrow> length buf \<le> cur buf s \<longleftrightarrow> s = []"
  by (cases s) (simp_all add: cur_Cons(5))

lemma peek_cur: "suffix s buf \<Longrightarrow> peek buf (cur buf s) = (case s of [] \<Rightarrow> - 1 | c # r \<Rightarrow> int (of_char c))"
  by (cases s) (simp_all add: peek_def cur_Cons)

lemma expect_cur:
  assumes "suffix s buf"
  shows "case expect c s of Inl e \<Rightarrow> expect_at buf (cur buf s) c = Some (Inl e)
    | Inr r \<Rightarrow> expect_at buf (cur buf s) c = Some (Inr (cur buf r)) \<and> suffix r buf"
proof -
  have w: "skipWs_at buf (cur buf s) = Some (cur buf (skipWs s))" "suffix (skipWs s) buf" using skipWs_cur [OF assms] by blast+
  show ?thesis
  proof (cases "skipWs s")
    case Nil
    then show ?thesis using w by (simp add: expect_at_def expect_def)
  next
    case (Cons x r)
    then have "suffix (x # r) buf" using w(2) by simp
    from cur_Cons [OF this] suffix_tl [OF this] show ?thesis using w(1) Cons by (cases "x = c") (simp_all add: expect_at_def expect_def)
  qed
qed

lemma eq_from_iff: "length a = j + n \<Longrightarrow> length b = j + n \<Longrightarrow> eq_from a b j n = Some (drop j a = drop j b)"
proof (induction n arbitrary: j)
  case (Suc n)
  have "drop j a = a ! j # drop (Suc j) a" "drop j b = b ! j # drop (Suc j) b" using Suc.prems by (simp_all add: Cons_nth_drop_Suc)
  then show ?case using Suc.IH [of "Suc j"] Suc.prems by (simp add: read_at_def)
qed simp

lemma eq_at_iff [simp]: "eq_at a b = Some (a = b)"
  using eq_from_iff [of a 0 "length a" b] by (auto simp: eq_at_def)

lemma readStr_cur: "suffix s buf \<Longrightarrow> follows buf (readStr_at buf (cur buf s)) (readStr s)"
proof -
  assume s: "suffix s buf"
  have w: "skipWs_at buf (cur buf s) = Some (cur buf (skipWs s))" "suffix (skipWs s) buf" using skipWs_cur [OF s] by blast+
  show ?thesis
  proof (cases "skipWs s")
    case Nil
    then show ?thesis using w by (simp add: readStr_at_def readStr_def follows_def)
  next
    case (Cons x r)
    note c = cur_Cons [OF w(2) [unfolded Cons]] and r = suffix_tl [OF w(2) [unfolded Cons]]
    define d where "d = dropWhile (\<lambda>c. c \<noteq> CHR 0x22) r"
    define t where "t = takeWhile (\<lambda>c. c \<noteq> CHR 0x22) r"
    have sc: "scan (\<lambda>c. c \<noteq> CHR 0x22) buf (cur buf r) = Some (cur buf d)" unfolding d_def by (rule scan_cur [OF r])
    have td: "r = t @ d" by (simp add: t_def d_def)
    then have d: "suffix d r" "suffix d buf" using r by (auto simp: suffix_def)
    have sl: "slice_at buf (cur buf r) (cur buf d) = Some t" using slice_cur [OF r d(1)] td by simp
    have rs: "readStr s = (if x \<noteq> CHR 0x22 then Inl ErrMalformed else case d of [] \<Rightarrow> Inl ErrMalformed | _ # r' \<Rightarrow> Inr (t, r'))"
      unfolding readStr_def Cons d_def t_def by simp
    have ra: "readStr_at buf (cur buf s) = (if x \<noteq> CHR 0x22 then Some (Inl ErrMalformed)
        else if length buf \<le> cur buf d then Some (Inl ErrMalformed) else Some (Inr (t, cur buf d + 1)))"
      using w(1) Cons c(2,4,5) sc sl by (cases "x = CHR 0x22") (simp_all add: readStr_at_def)
    show ?thesis unfolding rs ra follows_def
      using cur_end [OF d(2)] cur_Cons(4) d(2) suffix_tl by (cases d) auto
  qed
qed

lemma word_cur: "suffix s buf \<Longrightarrow> word_at buf (cur buf s) w = Some (take (length w) s = w)"
proof -
  assume s: "suffix s buf"
  have len: "cur buf s + length s = length buf" using suffix_length_le [OF s] by (simp add: cur_def)
  show ?thesis
  proof (cases "length w \<le> length s")
    case True
    then show ?thesis using slice_cur [OF s suffix_drop, of "length w"] cur_plus [OF s True] len by (simp add: word_at_def)
  next
    case False
    then have "take (length w) s \<noteq> w" by (metis length_take min_def nat_le_linear)
    then show ?thesis using False len by (simp add: word_at_def)
  qed
qed

lemma readBool_cur: "suffix s buf \<Longrightarrow> follows buf (readBool_at buf (cur buf s)) (readBool s)"
proof -
  assume s: "suffix s buf"
  have w: "skipWs_at buf (cur buf s) = Some (cur buf (skipWs s))" "suffix (skipWs s) buf" using skipWs_cur [OF s] by blast+
  have n: "cur buf (skipWs s) + 4 = cur buf (drop 4 (skipWs s))" if "take 4 (skipWs s) = ''true''"
    using arg_cong [OF that, of length] by (intro cur_plus [OF w(2)]) simp
  have n5: "cur buf (skipWs s) + 5 = cur buf (drop 5 (skipWs s))" if "take 5 (skipWs s) = ''false''"
    using arg_cong [OF that, of length] by (intro cur_plus [OF w(2)]) simp
  have "word_at buf (cur buf (skipWs s)) ''true'' = Some (take 4 (skipWs s) = ''true'')"
      "word_at buf (cur buf (skipWs s)) ''false'' = Some (take 5 (skipWs s) = ''false'')"
    using word_cur [OF w(2), of "''true''"] word_cur [OF w(2), of "''false''"] by (simp_all add: eval_nat_numeral)
  then have "readBool_at buf (cur buf s) = (if take 4 (skipWs s) = ''true'' then Some (Inr (True, cur buf (skipWs s) + 4))
      else Some (if take 5 (skipWs s) = ''false'' then Inr (False, cur buf (skipWs s) + 5) else Inl ErrMalformed))"
    using w(1) by (simp add: readBool_at_def)
  then show ?thesis using n n5 suffix_drop' [OF w(2)] by (simp add: readBool_def follows_def)
qed

lemma digits_cur:
  "suffix s buf \<Longrightarrow> digits_at buf (cur buf s) v saw =
     Some (foldl (\<lambda>v c. u32 (u32 (v * 10) + byte_sub c CHR ''0'')) v (takeWhile isDigit s), saw \<or> takeWhile isDigit s \<noteq> [], cur buf (dropWhile isDigit s))"
proof (induction s arbitrary: v saw)
  case (Cons c r)
  note c = cur_Cons [OF Cons.prems] and r = suffix_tl [OF Cons.prems]
  show ?case using c Cons.IH [OF r] by (simp add: digits_at.simps [of buf "cur buf (c # r)"])
qed (simp add: digits_at.simps)

lemma readU32_cur: "suffix s buf \<Longrightarrow> follows buf (readU32_at buf (cur buf s)) (readU32 s)"
proof -
  assume s: "suffix s buf"
  have w: "skipWs_at buf (cur buf s) = Some (cur buf (skipWs s))" "suffix (skipWs s) buf" using skipWs_cur [OF s] by blast+
  have d: "suffix (dropWhile isDigit (skipWs s)) buf" using w(2) suffix_dropWhile suffix_order.trans by blast
  show ?thesis unfolding readU32_at_def readU32_def follows_def Let_def
    using w(1) digits_cur [OF w(2), of 0 False] d by simp
qed

section \<open>Numbers\<close>

function number_at :: "bytes \<Rightarrow> nat \<Rightarrow> bool \<Rightarrow> (bool \<times> nat) option" where
  "number_at buf i hasExp =
     (if i < length buf then
        do {
          c \<leftarrow> read_at buf i;
          if isDigit c \<or> c = CHR ''.'' then number_at buf (i + 1) hasExp
          else if c = CHR ''e'' \<or> c = CHR ''E'' then number_at buf (i + 1) True
          else if (c = CHR ''+'' \<or> c = CHR ''-'') \<and> hasExp then number_at buf (i + 1) hasExp
          else Some (hasExp, i)
        }
      else Some (hasExp, i))"
  by pat_completeness auto
termination by (relation "measure (\<lambda>(buf, i, hasExp). length buf - i)") auto

declare number_at.simps [simp del]

text \<open>The two loops over the digits of the token.\<close>

function intPart_at :: "bytes \<Rightarrow> nat \<Rightarrow> nat \<Rightarrow> (nat \<times> nat) option" where
  "intPart_at s idx v =
     (if idx < length s then
        do { c \<leftarrow> read_at s idx; if c \<noteq> CHR ''.'' then intPart_at s (idx + 1) (u64 (v * 10 + byte_sub c CHR ''0'')) else Some (v, idx) }
      else Some (v, idx))"
  by pat_completeness auto
termination by (relation "measure (\<lambda>(s, idx, v). length s - idx)") auto

declare intPart_at.simps [simp del]

function fracPart_at :: "bytes \<Rightarrow> nat \<Rightarrow> nat \<Rightarrow> nat \<Rightarrow> (nat \<times> nat) option" where
  "fracPart_at s idx v pow10 =
     (if idx < length s then
        do { c \<leftarrow> read_at s idx; fracPart_at s (idx + 1) (u64 (v * 10 + byte_sub c CHR ''0'')) (u64 (pow10 * 10)) }
      else Some (v, pow10))"
  by pat_completeness auto
termination by (relation "measure (\<lambda>(s, idx, v, pow10). length s - idx)") auto

declare fracPart_at.simps [simp del]

definition plainF32_at :: "bytes \<Rightarrow> fl option" where
  "plainF32_at s =
     do {
       (neg, idx) \<leftarrow> (if length s > 0 then do { c \<leftarrow> read_at s 0; Some (if c = CHR ''-'' \<or> c = CHR ''+'' then (c = CHR ''-'', 1) else (False, 0)) }
                    else Some (False, 0));
       (ip, idx) \<leftarrow> intPart_at s idx 0;
       dot \<leftarrow> (if idx < length s then do { c \<leftarrow> read_at s idx; Some (c = CHR ''.'') } else Some False);
       (fp, pow10) \<leftarrow> (if dot then fracPart_at s (idx + 1) 0 1 else Some (0, 1));
       let v = fl_add round32 (round32 (of_nat ip)) (fl_div round32 (round32 (of_nat fp)) (round32 (of_nat pow10)));
       Some (if neg then fl_neg v else v)
     }"

definition readF32_at :: "fl reader_at" where
  "readF32_at buf i =
     do {
       start \<leftarrow> skipWs_at buf i;
       i \<leftarrow> (if start < length buf then do { c \<leftarrow> read_at buf start; Some (if c = CHR ''-'' \<or> c = CHR ''+'' then start + 1 else start) } else Some start);
       (hasExp, i) \<leftarrow> number_at buf i False;
       if i = start then Some (Inl ErrMalformed)
       else do {
         s \<leftarrow> slice_at buf start i;
         if hasExp then Some (case ParseFloat32 s of None \<Rightarrow> Inl ErrMalformed | Some f \<Rightarrow> Inr (f, i))
         else do { f \<leftarrow> plainF32_at s; Some (Inr (f, i)) }
       }
     }"

lemma number_cur:
  "suffix s buf \<Longrightarrow> numTail e s = (t, e', r) \<Longrightarrow> s = t @ r \<and> number_at buf (cur buf s) e = Some (e', cur buf r)"
proof (induction s arbitrary: e t)
  case (Cons c s)
  note c = cur_Cons [OF Cons.prems(1)] and s = suffix_tl [OF Cons.prems(1)]
  note step = number_at.simps [of buf "cur buf (c # s)" e]
  consider "isDigit c \<or> c = CHR ''.''" | "\<not> (isDigit c \<or> c = CHR ''.'')" "c = CHR ''e'' \<or> c = CHR ''E''"
    | "\<not> (isDigit c \<or> c = CHR ''.'')" "\<not> (c = CHR ''e'' \<or> c = CHR ''E'')" "(c = CHR ''+'' \<or> c = CHR ''-'') \<and> e"
    | "\<not> (isDigit c \<or> c = CHR ''.'')" "\<not> (c = CHR ''e'' \<or> c = CHR ''E'')" "\<not> ((c = CHR ''+'' \<or> c = CHR ''-'') \<and> e)"
    by blast
  then show ?case
  proof cases
    case 1
    then obtain t' where "numTail e s = (t', e', r)" "t = c # t'" using Cons.prems(2) by (auto split: prod.splits)
    then show ?thesis using Cons.IH [OF s] c 1 by (simp add: step)
  next
    case 2
    then obtain t' where "numTail True s = (t', e', r)" "t = c # t'" using Cons.prems(2) by (auto split: prod.splits)
    then show ?thesis using Cons.IH [OF s] c(1,2,4) 2 unfolding step by simp
  next
    case 3
    then obtain t' where "numTail e s = (t', e', r)" "t = c # t'" using Cons.prems(2) by (auto split: prod.splits)
    then show ?thesis using Cons.IH [OF s] c(1,2,4) 3 unfolding step by simp
  next
    case 4
    then have "t = []" "e' = e" "r = c # s" using Cons.prems(2) by (auto split: if_splits)
    then show ?thesis using c(1,2) 4 unfolding step by auto
  qed
qed (simp add: number_at.simps)

lemma intPart_cur:
  "suffix t s \<Longrightarrow> intPart_at s (cur s t) v = Some (accDigits v (takeWhile (\<lambda>c. c \<noteq> CHR ''.'') t), cur s (dropWhile (\<lambda>c. c \<noteq> CHR ''.'') t))"
proof (induction t arbitrary: v)
  case (Cons c r)
  note c = cur_Cons [OF Cons.prems] and r = suffix_tl [OF Cons.prems]
  show ?case using c Cons.IH [OF r] by (simp add: intPart_at.simps [of s "cur s (c # r)"] accDigits_def)
qed (simp add: intPart_at.simps accDigits_def)

lemma fracPart_cur:
  "suffix t s \<Longrightarrow> fracPart_at s (cur s t) v w = Some (accDigits v t, foldl (\<lambda>v c. u64 (v * 10)) w t)"
proof (induction t arbitrary: v w)
  case (Cons c r)
  note c = cur_Cons [OF Cons.prems] and r = suffix_tl [OF Cons.prems]
  show ?case using c Cons.IH [OF r] by (simp add: fracPart_at.simps [of s "cur s (c # r)"] accDigits_def)
qed (simp add: fracPart_at.simps accDigits_def)

lemma plainF32_cur: "plainF32_at s = Some (plainF32 s)"
proof -
  define t where "t = (if s \<noteq> [] \<and> isSign (hd s) then tl s else s)"
  define d where "d = dropWhile (\<lambda>c. c \<noteq> CHR ''.'') t"
  have t: "suffix t s" by (cases s) (auto simp: t_def intro: suffix_ConsI)
  then have d: "suffix d s" unfolding d_def using suffix_dropWhile suffix_order.trans by blast
  have sign: "(if length s > 0 then do { c \<leftarrow> read_at s 0; Some (if c = CHR ''-'' \<or> c = CHR ''+'' then (c = CHR ''-'', 1) else (False, 0)) }
      else Some (False, 0)) = Some (s \<noteq> [] \<and> hd s = CHR ''-'', cur s t)"
    by (cases s) (auto simp: t_def isSign_def read_at_def cur_def)
  have dot: "(if cur s d < length s then do { c \<leftarrow> read_at s (cur s d); Some (c = CHR ''.'') } else Some False) = Some (d \<noteq> [])"
  proof (cases d)
    case (Cons c r)
    then have "c = CHR ''.''" unfolding d_def by (simp add: dropWhile_eq_Cons_conv)
    then show ?thesis using Cons cur_Cons [OF d [unfolded Cons]] by simp
  qed simp
  have frac: "(if d \<noteq> [] then fracPart_at s (cur s d + 1) 0 1 else Some (0, 1)) =
      Some (accDigits 0 (case d of [] \<Rightarrow> [] | _ # r \<Rightarrow> r), foldl (\<lambda>v c. u64 (v * 10)) 1 (case d of [] \<Rightarrow> [] | _ # r \<Rightarrow> r))"
  proof (cases d)
    case (Cons c r)
    then show ?thesis using cur_Cons(4) [OF d [unfolded Cons]] fracPart_cur [OF suffix_tl [OF d [unfolded Cons]]] by simp
  qed (simp add: accDigits_def)
  have ip: "intPart_at s (cur s t) 0 = Some (accDigits 0 (takeWhile (\<lambda>c. c \<noteq> CHR ''.'') t), cur s d)"
    unfolding d_def by (rule intPart_cur [OF t])
  show ?thesis
    unfolding plainF32_at_def sign ip Option.bind.simps prod.case dot frac Let_def plainF32_def t_def [symmetric] d_def [symmetric] by simp
qed

lemma readF32_cur: "suffix s buf \<Longrightarrow> follows buf (readF32_at buf (cur buf s)) (readF32 s)"
proof -
  assume s: "suffix s buf"
  define w where "w = skipWs s"
  have w: "skipWs_at buf (cur buf s) = Some (cur buf w)" "suffix w buf" using skipWs_cur [OF s] by (simp_all add: w_def)
  define u where "u = (if w \<noteq> [] \<and> isSign (hd w) then tl w else w)"
  have u: "suffix u w" by (cases w) (auto simp: u_def intro: suffix_ConsI)
  have sign: "(if cur buf w < length buf then do { c \<leftarrow> read_at buf (cur buf w); Some (if c = CHR ''-'' \<or> c = CHR ''+'' then cur buf w + 1 else cur buf w) }
      else Some (cur buf w)) = Some (cur buf u)"
    using cur_Cons [of _ _ buf] w(2) by (cases w) (auto simp: u_def isSign_def)
  obtain t e r where n: "numTail False u = (t, e, r)" by (metis surj_pair)
  have ub: "suffix u buf" using u w(2) suffix_order.trans by blast
  note nc = number_cur [OF ub n]
  have tok: "numToken w = (take (length w - length r) w, e, r)" "suffix r w"
  proof -
    define k where "k = (if w \<noteq> [] \<and> isSign (hd w) then [hd w] else [])"
    have k: "w = k @ u" by (cases w) (simp_all add: k_def u_def)
    then have wr: "w = (k @ t) @ r" using nc by simp
    have "numToken w = (k @ t, e, r)"
      using n by (cases w) (auto simp: numToken_def k_def u_def simp del: numTail.simps(2))
    moreover have "take (length w - length r) w = k @ t" by (subst (1 2) wr) simp
    ultimately show "numToken w = (take (length w - length r) w, e, r)" by simp
    show "suffix r w" unfolding suffix_def using wr by blast
  qed
  have len: "cur buf r = cur buf w \<longleftrightarrow> take (length w - length r) w = []"
    using tok(2) suffix_length_le [OF tok(2)] suffix_length_le [OF w(2)] by (auto simp: cur_def)
  have sl: "slice_at buf (cur buf w) (cur buf r) = Some (take (length w - length r) w)" by (rule slice_cur [OF w(2) tok(2)])
  have rb: "suffix r buf" using tok(2) w(2) suffix_order.trans by blast
  show ?thesis
    unfolding readF32_at_def w(1) Option.bind.simps sign conjunct2 [OF nc] prod.case sl readF32_def w_def [symmetric] tok(1) len follows_def
    using plainF32_cur rb by (simp split: option.split)
qed

section \<open>Skipping a value\<close>

function nest_at :: "char \<Rightarrow> char \<Rightarrow> nat \<Rightarrow> bytes \<Rightarrow> nat \<Rightarrow> nat option" where
  "nest_at c closer depth buf i =
     (if i < length buf \<and> depth > 0 then
        do { x \<leftarrow> read_at buf i; nest_at c closer (if x = c then depth + 1 else if x = closer then depth - 1 else depth) buf (i + 1) }
      else Some i)"
  by pat_completeness auto
termination by (relation "measure (\<lambda>(c, closer, depth, buf, i). length buf - i)") auto

declare nest_at.simps [simp del]

definition skipVal_at :: "bytes \<Rightarrow> nat \<Rightarrow> nat option" where
  "skipVal_at buf i =
     do {
       i \<leftarrow> skipWs_at buf i;
       if i \<ge> length buf then Some i
       else do {
         c \<leftarrow> read_at buf i;
         if c = CHR 0x22 then do {
           j \<leftarrow> scan (\<lambda>x. x \<noteq> CHR 0x22) buf (i + 1);
           Some (if j < length buf then j + 1 else j)
         }
         else if c = CHR ''{'' \<or> c = CHR ''['' then nest_at c (if c = CHR ''{'' then CHR ''}'' else CHR '']'') 1 buf (i + 1)
         else scan (\<lambda>x. \<not> (x = CHR '','' \<or> x = CHR ''}'' \<or> x = CHR '']'')) buf i
       }
     }"

lemma nest_cur: "suffix s buf \<Longrightarrow> nest_at c closer d buf (cur buf s) = Some (cur buf (skipNest c closer d s)) \<and> suffix (skipNest c closer d s) buf"
proof (induction s arbitrary: d)
  case (Cons x r)
  note x = cur_Cons [OF Cons.prems] and r = suffix_tl [OF Cons.prems]
  show ?case using x Cons.IH [OF r] Cons.prems by (simp add: nest_at.simps [of c closer d buf "cur buf (x # r)"])
qed (simp add: nest_at.simps)

lemma skipVal_cur: "suffix s buf \<Longrightarrow> skipVal_at buf (cur buf s) = Some (cur buf (skipVal s)) \<and> suffix (skipVal s) buf"
proof -
  assume s: "suffix s buf"
  have w: "skipWs_at buf (cur buf s) = Some (cur buf (skipWs s))" "suffix (skipWs s) buf" using skipWs_cur [OF s] by blast+
  show ?thesis
  proof (cases "skipWs s")
    case Nil
    then show ?thesis using w by (simp add: skipVal_at_def skipVal_def)
  next
    case (Cons c r)
    note cs = w(2) [unfolded Cons]
    note c = cur_Cons [OF cs] and r = suffix_tl [OF cs]
    define d where "d = dropWhile (\<lambda>x. x \<noteq> CHR 0x22) r"
    have sc: "scan (\<lambda>x. x \<noteq> CHR 0x22) buf (cur buf r) = Some (cur buf d)" unfolding d_def by (rule scan_cur [OF r])
    have d: "suffix d buf" unfolding d_def using r suffix_dropWhile suffix_order.trans by blast
    have q: "(if cur buf d < length buf then cur buf d + 1 else cur buf d) = cur buf (case d of [] \<Rightarrow> [] | _ # r' \<Rightarrow> r') \<and>
        suffix (case d of [] \<Rightarrow> [] | _ # r' \<Rightarrow> r') buf"
      using d cur_Cons [of _ _ buf] suffix_tl [of _ _ buf] by (cases d) auto
    have sd: "scan (\<lambda>x. \<not> (x = CHR '','' \<or> x = CHR ''}'' \<or> x = CHR '']'')) buf (cur buf (c # r)) =
        Some (cur buf (dropWhile (\<lambda>x. x \<noteq> CHR '','' \<and> x \<noteq> CHR ''}'' \<and> x \<noteq> CHR '']'') (c # r)))"
      using scan_cur [OF cs, of "\<lambda>x. x \<noteq> CHR '','' \<and> x \<noteq> CHR ''}'' \<and> x \<noteq> CHR '']''"] by simp
    have ss: "suffix (dropWhile (\<lambda>x. x \<noteq> CHR '','' \<and> x \<noteq> CHR ''}'' \<and> x \<noteq> CHR '']'') (c # r)) buf"
      using cs suffix_dropWhile suffix_order.trans by blast
    have at: "skipVal_at buf (cur buf s) =
        (if c = CHR 0x22 then Some (if cur buf d < length buf then cur buf d + 1 else cur buf d)
         else if c = CHR ''{'' \<or> c = CHR ''['' then nest_at c (if c = CHR ''{'' then CHR ''}'' else CHR '']'') 1 buf (cur buf r)
         else scan (\<lambda>x. \<not> (x = CHR '','' \<or> x = CHR ''}'' \<or> x = CHR '']'')) buf (cur buf (c # r)))"
      unfolding skipVal_at_def w(1) Option.bind.simps Cons using c(2,4,5) sc
      by (cases "c = CHR 0x22"; cases "c = CHR ''{''"; cases "c = CHR ''[''") simp_all
    show ?thesis unfolding at skipVal_def Cons list.case d_def [symmetric] sd
      using q ss nest_cur [OF r, of c _ 1]
      by (cases "c = CHR ''{''"; cases "c = CHR ''[''"; cases "c = CHR 0x22") (simp_all del: dropWhile.simps)
  qed
qed

section \<open>The object loop\<close>

type_synonym 'p outcome_at = "(Malformed + ('p \<times> nat)) option"

text \<open>\<open>if err != nil { return err }\<close>.\<close>

definition andThen :: "('e + 'a) option \<Rightarrow> ('a \<Rightarrow> ('e + 'b) option) \<Rightarrow> ('e + 'b) option" where
  "andThen r f = do { x \<leftarrow> r; case x of Inl e \<Rightarrow> Some (Inl e) | Inr v \<Rightarrow> f v }"

definition optComma_at :: "bytes \<Rightarrow> nat \<Rightarrow> nat option" where
  "optComma_at buf i =
     do { i \<leftarrow> skipWs_at buf i; Some (if peek buf i = int (of_char CHR '','') then i + 1 else i) }"

fun fields_at :: "(bytes \<Rightarrow> bytes \<Rightarrow> nat \<Rightarrow> 'p \<Rightarrow> 'p outcome_at) \<Rightarrow> nat \<Rightarrow> bytes \<Rightarrow> nat \<Rightarrow> 'p \<Rightarrow> 'p outcome_at" where
  "fields_at sw 0 buf i p = None"
| "fields_at sw (Suc n) buf i p =
     do {
       i \<leftarrow> skipWs_at buf i;
       if peek buf i = int (of_char CHR ''}'') then Some (Inr (p, i + 1))
       else andThen (readKey_at buf i) (\<lambda>(k, i).
            andThen (expect_at buf i CHR '':'') (\<lambda>i. do {
              i \<leftarrow> skipWs_at buf i;
              andThen (sw k buf i p) (\<lambda>(p, i). do {
                i \<leftarrow> optComma_at buf i;
                fields_at sw n buf i p })}))
     }"

declare fields_at.simps(2) [simp del]

definition object_at :: "(bytes \<Rightarrow> bytes \<Rightarrow> nat \<Rightarrow> 'p \<Rightarrow> 'p outcome_at) \<Rightarrow> bytes \<Rightarrow> nat \<Rightarrow> 'p \<Rightarrow> 'p outcome_at" where
  "object_at sw buf i p =
     andThen (expect_at buf i CHR ''{'') (\<lambda>i. fields_at sw (Suc (length buf - i)) buf i p)"

text \<open>The \<open>switch\<close> over the key.\<close>

fun caseKey :: "bytes \<Rightarrow> (bytes \<times> 'r option) list \<Rightarrow> 'r option \<Rightarrow> 'r option" where
  "caseKey k [] d = d"
| "caseKey k ((w, r) # cs) d = do { b \<leftarrow> eq_at k w; if b then r else caseKey k cs d }"

definition store_at :: "(Malformed + ('a \<times> nat)) option \<Rightarrow> ('a \<Rightarrow> 'p) \<Rightarrow> 'p outcome_at" where
  "store_at r f = andThen r (\<lambda>(v, i). Some (Inr (f v, i)))"

definition skip_at :: "bytes \<Rightarrow> nat \<Rightarrow> 'p \<Rightarrow> 'p outcome_at" where
  "skip_at buf i p = do { i \<leftarrow> skipVal_at buf i; Some (Inr (p, i)) }"

section \<open>The readers\<close>

definition txField_at :: "bytes \<Rightarrow> bytes \<Rightarrow> nat \<Rightarrow> Payload \<Rightarrow> Payload outcome_at" where
  "txField_at k buf i p =
     caseKey k
       [(''amount'', store_at (readF32_at buf i) (\<lambda>v. p\<lparr>Amount := v\<rparr>)),
        (''installments'', store_at (readU32_at buf i) (\<lambda>v. p\<lparr>Installments := v\<rparr>)),
        (''requested_at'', store_at (readStr_at buf i) (\<lambda>v. p\<lparr>RequestedAt := v\<rparr>))]
       (skip_at buf i p)"

definition readTx_at :: "bytes \<Rightarrow> nat \<Rightarrow> Payload \<Rightarrow> Payload outcome_at" where
  "readTx_at = object_at txField_at"

fun knownLoop_at :: "nat \<Rightarrow> bytes \<Rightarrow> nat \<Rightarrow> Payload \<Rightarrow> Payload outcome_at" where
  "knownLoop_at 0 buf i p = None"
| "knownLoop_at (Suc n) buf i p =
     do {
       i \<leftarrow> skipWs_at buf i;
       if peek buf i = int (of_char CHR '']'') then Some (Inr (p, i + 1))
       else andThen (readStr_at buf i) (\<lambda>(m, i). do {
              i \<leftarrow> optComma_at buf i;
              knownLoop_at n buf i
                (if KnownN p < 16
                 then p\<lparr>KnownMerchants := (KnownMerchants p)[KnownN p := m], KnownN := KnownN p + 1\<rparr> else p) })
     }"

declare knownLoop_at.simps(2) [simp del]

definition readKnown_at :: "bytes \<Rightarrow> nat \<Rightarrow> Payload \<Rightarrow> Payload outcome_at" where
  "readKnown_at buf i p =
     andThen (expect_at buf i CHR ''['') (\<lambda>i. knownLoop_at (Suc (length buf - i)) buf i (p\<lparr>KnownN := 0\<rparr>))"

definition custField_at :: "bytes \<Rightarrow> bytes \<Rightarrow> nat \<Rightarrow> Payload \<Rightarrow> Payload outcome_at" where
  "custField_at k buf i p =
     caseKey k
       [(''avg_amount'', store_at (readF32_at buf i) (\<lambda>v. p\<lparr>AvgAmount := v\<rparr>)),
        (''tx_count_24h'', store_at (readU32_at buf i) (\<lambda>v. p\<lparr>TxCount24h := v\<rparr>)),
        (''known_merchants'', readKnown_at buf i p)]
       (skip_at buf i p)"

definition readCust_at :: "bytes \<Rightarrow> nat \<Rightarrow> Payload \<Rightarrow> Payload outcome_at" where
  "readCust_at = object_at custField_at"

definition merField_at :: "bytes \<Rightarrow> bytes \<Rightarrow> nat \<Rightarrow> Payload \<Rightarrow> Payload outcome_at" where
  "merField_at k buf i p =
     caseKey k
       [(''id'', store_at (readStr_at buf i) (\<lambda>v. p\<lparr>MerchantID := v\<rparr>)),
        (''mcc'', store_at (readStr_at buf i) (\<lambda>v. p\<lparr>MCC := v\<rparr>)),
        (''avg_amount'', store_at (readF32_at buf i) (\<lambda>v. p\<lparr>MerchantAvgAmount := v\<rparr>))]
       (skip_at buf i p)"

definition readMer_at :: "bytes \<Rightarrow> nat \<Rightarrow> Payload \<Rightarrow> Payload outcome_at" where
  "readMer_at = object_at merField_at"

definition termField_at :: "bytes \<Rightarrow> bytes \<Rightarrow> nat \<Rightarrow> Payload \<Rightarrow> Payload outcome_at" where
  "termField_at k buf i p =
     caseKey k
       [(''is_online'', store_at (readBool_at buf i) (\<lambda>v. p\<lparr>IsOnline := v\<rparr>)),
        (''card_present'', store_at (readBool_at buf i) (\<lambda>v. p\<lparr>CardPresent := v\<rparr>)),
        (''km_from_home'', store_at (readF32_at buf i) (\<lambda>v. p\<lparr>KmFromHome := v\<rparr>))]
       (skip_at buf i p)"

definition readTerm_at :: "bytes \<Rightarrow> nat \<Rightarrow> Payload \<Rightarrow> Payload outcome_at" where
  "readTerm_at = object_at termField_at"

definition lastField_at :: "bytes \<Rightarrow> bytes \<Rightarrow> nat \<Rightarrow> Payload \<Rightarrow> Payload outcome_at" where
  "lastField_at k buf i p =
     caseKey k
       [(''timestamp'', store_at (readStr_at buf i) (\<lambda>v. p\<lparr>LastTimestamp := v\<rparr>)),
        (''km_from_current'', store_at (readF32_at buf i) (\<lambda>v. p\<lparr>LastKmFromCurrent := v\<rparr>))]
       (skip_at buf i p)"

definition readLast_at :: "bytes \<Rightarrow> nat \<Rightarrow> Payload \<Rightarrow> Payload outcome_at" where
  "readLast_at buf i p =
     do {
       null \<leftarrow> word_at buf i ''null'';
       if null then Some (Inr (p\<lparr>HasLast := False\<rparr>, i + 4))
       else object_at lastField_at buf i (p\<lparr>HasLast := True\<rparr>)
     }"

definition topField_at :: "bytes \<Rightarrow> bytes \<Rightarrow> nat \<Rightarrow> Payload \<Rightarrow> Payload outcome_at" where
  "topField_at k buf i p =
     caseKey k
       [(''transaction'', readTx_at buf i p),
        (''customer'', readCust_at buf i p),
        (''merchant'', readMer_at buf i p),
        (''terminal'', readTerm_at buf i p),
        (''last_transaction'', readLast_at buf i p)]
       (skip_at buf i p)"

definition Parse_at :: "bytes \<Rightarrow> (Malformed + Payload) option" where
  "Parse_at buf = andThen (object_at topField_at buf 0 Payload0) (\<lambda>(p, i). Some (Inr p))"

section \<open>The loops refine\<close>

definition tracks :: "bytes \<Rightarrow> 'p outcome_at \<Rightarrow> 'p outcome \<Rightarrow> bool" where
  "tracks buf x y \<longleftrightarrow> (case y of None \<Rightarrow> True | Some r \<Rightarrow> follows buf x r)"

lemma tracks_simps [simp]:
  "tracks buf x None"
  "tracks buf x (Some (Inl e)) \<longleftrightarrow> x = Some (Inl e)"
  "tracks buf x (Some (Inr (v, s))) \<longleftrightarrow> x = Some (Inr (v, cur buf s)) \<and> suffix s buf"
  by (simp_all add: tracks_def follows_def)

lemma andThen_simps [simp]:
  "andThen None f = None" "andThen (Some (Inl e)) f = Some (Inl e)" "andThen (Some (Inr v)) f = f v"
  by (simp_all add: andThen_def)

lemma follows_cases:
  assumes "follows buf x y"
  obtains e where "y = Inl e" "x = Some (Inl e)" | v s where "y = Inr (v, s)" "x = Some (Inr (v, cur buf s))" "suffix s buf"
  using assms that by (cases y) (auto simp: follows_def)

lemma store_cur: "follows buf x y \<Longrightarrow> tracks buf (store_at x f) (store y f)"
  by (erule follows_cases) (simp_all add: store_at_def store_def)

lemma skip_cur: "suffix s buf \<Longrightarrow> skip_at buf (cur buf s) p = Some (Inr (p, cur buf (skipVal s))) \<and> suffix (skipVal s) buf"
  using skipVal_cur by (simp add: skip_at_def)

lemma skipWs_skipWs [simp]: "skipWs (skipWs s) = skipWs s"
  by (simp add: skipWs_def)

lemma readStr_skipWs [simp]: "readStr (skipWs s) = readStr s"
  by (simp add: readStr_def)

lemma peek_char:
  assumes "suffix s buf"
  shows "peek buf (cur buf s) = int (of_char c) \<longleftrightarrow> (\<exists>r. s = c # r)"
  using peek_cur [OF assms] by (cases s) auto

lemma optComma_cur:
  assumes "suffix s buf"
  shows "optComma_at buf (cur buf s) = Some (cur buf (optComma s)) \<and> suffix (optComma s) buf"
proof -
  have w: "skipWs_at buf (cur buf s) = Some (cur buf (skipWs s))" "suffix (skipWs s) buf" using skipWs_cur [OF assms] by blast+
  show ?thesis
    using w cur_Cons(4) [of _ _ buf] suffix_tl [of _ _ buf] peek_char [OF w(2), of "CHR '',''"]
    by (cases "skipWs s") (auto simp: optComma_at_def optComma_def)
qed

lemma cur_fuel: "suffix s buf \<Longrightarrow> length buf - cur buf s = length s"
  using suffix_length_le by (fastforce simp: cur_def)

lemma expect_cases:
  assumes "suffix s buf"
  obtains e where "expect c s = Inl e" "expect_at buf (cur buf s) c = Some (Inl e)"
    | r where "expect c s = Inr r" "expect_at buf (cur buf s) c = Some (Inr (cur buf r))" "suffix r buf"
  using expect_cur [OF assms, of c] that by (cases "expect c s") auto

locale cursor_switch =
  fixes sw :: "bytes \<Rightarrow> bytes \<Rightarrow> 'p \<Rightarrow> 'p outcome" and swI :: "bytes \<Rightarrow> bytes \<Rightarrow> nat \<Rightarrow> 'p \<Rightarrow> 'p outcome_at"
  assumes sw_cur: "suffix s buf \<Longrightarrow> tracks buf (swI k buf (cur buf s) p) (sw k s p)"
begin

lemma fields_cur: "suffix s buf \<Longrightarrow> tracks buf (fields_at swI n buf (cur buf s) p) (readFields sw n s p)"
proof (induction n arbitrary: s p)
  case (Suc n)
  have w: "skipWs_at buf (cur buf s) = Some (cur buf (skipWs s))" "suffix (skipWs s) buf" using skipWs_cur [OF Suc.prems] by blast+
  have key: "follows buf (readKey_at buf (cur buf (skipWs s))) (readKey s)"
    using readStr_cur [OF w(2)] by (simp add: readKey_at_def readKey_def)
  note step = fields_at.simps(2) [of swI n buf "cur buf s" p] readFields.simps(2) [of sw n s p]
  consider "skipWs s = []" | r where "skipWs s = CHR ''}'' # r" | c r where "skipWs s = c # r" "c \<noteq> CHR ''}''"
    by (cases "skipWs s") auto
  then show ?case
  proof cases
    case 1
    then have "readKey s = Inl ErrMalformed" by (simp add: readKey_def readStr_def)
    with key have k: "readKey_at buf (length buf) = Some (Inl ErrMalformed)" using 1 by (simp add: follows_def)
    have "peek buf (cur buf (skipWs s)) \<noteq> int (of_char CHR ''}'')" using 1 peek_char [OF w(2), of "CHR ''}''"] by simp
    then show ?thesis using w(1) 1 k by (simp add: step)
  next
    case 2
    have "suffix (CHR ''}'' # r) buf" using 2 w(2) by simp
    then show ?thesis using w 2 cur_Cons(4) suffix_tl peek_char [OF w(2), of "CHR ''}''"] by (simp add: step)
  next
    case 3
    have np: "peek buf (cur buf (skipWs s)) \<noteq> int (of_char CHR ''}'')" using 3 peek_char [OF w(2), of "CHR ''}''"] by simp
    have at: "fields_at swI (Suc n) buf (cur buf s) p = andThen (readKey_at buf (cur buf (skipWs s))) (\<lambda>(k, i).
        andThen (expect_at buf i CHR '':'') (\<lambda>i. do { i \<leftarrow> skipWs_at buf i;
          andThen (swI k buf i p) (\<lambda>(p, i). do { i \<leftarrow> optComma_at buf i; fields_at swI n buf i p })}))"
      using w(1) np by (simp add: step)
    from key show ?thesis
    proof (cases rule: follows_cases)
      case (2 k s1)
      from 2(3) show ?thesis
      proof (cases rule: expect_cases [where c = "CHR '':''"])
        case e: (2 s2)
        have v: "skipWs_at buf (cur buf s2) = Some (cur buf (skipWs s2))" "suffix (skipWs s2) buf" using skipWs_cur [OF e(3)] by blast+
        show ?thesis
          using sw_cur [OF v(2), of k p] v(1) optComma_cur Suc.IH 2(1,2) e(1,2) 3
          unfolding at step(2) by (auto split: option.split sum.split)
      qed (use 2 3 in \<open>simp add: at step(2)\<close>)
    qed (use 3 in \<open>simp add: at step(2)\<close>)
  qed
qed simp

lemma object_cur:
  assumes "suffix s buf"
  shows "tracks buf (object_at swI buf (cur buf s) p) (object sw s p)"
  using assms
proof (cases rule: expect_cases [where c = "CHR ''{''"])
  case (2 r)
  then show ?thesis using fields_cur [OF 2(3), of "Suc (length r)" p] cur_fuel [OF 2(3)] by (simp add: object_at_def object_def)
qed (simp add: object_at_def object_def)

end

lemma knownLoop_cur: "suffix s buf \<Longrightarrow> tracks buf (knownLoop_at n buf (cur buf s) p) (knownLoop n s p)"
proof (induction n arbitrary: s p)
  case (Suc n)
  have w: "skipWs_at buf (cur buf s) = Some (cur buf (skipWs s))" "suffix (skipWs s) buf" using skipWs_cur [OF Suc.prems] by blast+
  have str: "follows buf (readStr_at buf (cur buf (skipWs s))) (readStr s)" using readStr_cur [OF w(2)] by simp
  note step = knownLoop_at.simps(2) [of n buf "cur buf s" p] knownLoop.simps(2) [of n s p]
  show ?case
  proof (cases "\<exists>r. skipWs s = CHR '']'' # r")
    case True
    then obtain r where r: "skipWs s = CHR '']'' # r" by blast
    then have "suffix (CHR '']'' # r) buf" using w(2) by simp
    then show ?thesis using w r cur_Cons(4) suffix_tl peek_char [OF w(2), of "CHR '']''"] by (simp add: step)
  next
    case False
    then have np: "peek buf (cur buf (skipWs s)) \<noteq> int (of_char CHR '']'')" using peek_char [OF w(2), of "CHR '']''"] by simp
    have kl: "knownLoop (Suc n) s p = (case readStr s of Inl e \<Rightarrow> Some (Inl e) | Inr (m, s1) \<Rightarrow> knownLoop n (optComma s1)
        (if KnownN p < 16 then p\<lparr>KnownMerchants := (KnownMerchants p)[KnownN p := m], KnownN := KnownN p + 1\<rparr> else p))"
      using False by (cases "skipWs s") (auto simp: step readStr_def)
    from str show ?thesis
      by (cases rule: follows_cases) (use w(1) np optComma_cur Suc.IH in \<open>simp_all add: step(1) kl\<close>)
  qed
qed simp

lemma readKnown_cur:
  assumes "suffix s buf"
  shows "tracks buf (readKnown_at buf (cur buf s) p) (readKnown s p)"
  using assms
proof (cases rule: expect_cases [where c = "CHR ''[''"])
  case (2 r)
  then show ?thesis
    using knownLoop_cur [OF 2(3), of "Suc (length r)" "p\<lparr>KnownN := 0\<rparr>"] cur_fuel [OF 2(3)] by (simp add: readKnown_at_def readKnown_def)
qed (simp add: readKnown_at_def readKnown_def)

lemmas switch_cur = store_cur skip_cur readF32_cur readU32_cur readStr_cur readBool_cur

interpretation tx_cur: cursor_switch txField txField_at
  by unfold_locales (simp add: txField_def txField_at_def switch_cur)

interpretation mer_cur: cursor_switch merField merField_at
  by unfold_locales (simp add: merField_def merField_at_def switch_cur)

interpretation term_cur: cursor_switch termField termField_at
  by unfold_locales (simp add: termField_def termField_at_def switch_cur)

interpretation last_cur: cursor_switch lastField lastField_at
  by unfold_locales (simp add: lastField_def lastField_at_def switch_cur)

interpretation cust_cur: cursor_switch custField custField_at
  by unfold_locales (simp add: custField_def custField_at_def switch_cur readKnown_cur)

lemma readLast_cur:
  assumes "suffix s buf"
  shows "tracks buf (readLast_at buf (cur buf s) p) (readLast s p)"
proof -
  have "word_at buf (cur buf s) ''null'' = Some (take 4 s = ''null'')"
    using word_cur [OF assms, of "''null''"] by (simp add: eval_nat_numeral)
  moreover have "cur buf s + 4 = cur buf (drop 4 s)" if "take 4 s = ''null''"
    using arg_cong [OF that, of length] by (intro cur_plus [OF assms]) simp
  ultimately show ?thesis
    using last_cur.object_cur [OF assms] suffix_drop' [OF assms] by (simp add: readLast_at_def readLast_def)
qed

interpretation top_cur: cursor_switch topField topField_at
  by unfold_locales
    (simp add: topField_def topField_at_def skip_cur readLast_cur readTx_def readTx_at_def readCust_def readCust_at_def readMer_def
      readMer_at_def readTerm_def readTerm_at_def tx_cur.object_cur cust_cur.object_cur mer_cur.object_cur term_cur.object_cur)

section \<open>Properties\<close>

text \<open>(C35) The parser as it is written never leaves its buffer: on every input, malformed or not,
  each byte it reads and each slice it takes lies inside the buffer, all its loops end, and it
  returns just what the parser on the rest of the buffer returns, a payload or
  \<open>ErrMalformed\<close>.\<close>

theorem Parse_in_bounds: "Parse_at buf = Parse buf \<and> Parse_at buf \<noteq> None"
proof -
  have tr: "tracks buf (object_at topField_at buf 0 Payload0) (object topField buf Payload0)"
    using top_cur.object_cur [of buf buf Payload0] by simp
  obtain x where x: "object topField buf Payload0 = Some x" using Parse_returns [of buf] by (auto simp: Parse_def)
  have "Parse_at buf = Some (map_sum id fst x)"
    using tr x by (cases x) (auto simp: Parse_at_def)
  then show ?thesis using x by (simp add: Parse_def)
qed

end
