(* ===== verification/Normalize.thy ===== *)
theory Normalize
  imports Jsonp Timex
begin

text \<open>
  Package \<open>normalize\<close> (\<open>internal/normalize/normalize.go\<close>): the fourteen features of a
  transaction. \<open>Vectorize\<close> panics when \<open>DayOfWeek\<close> does; all other steps are total
  floating-point arithmetic.
\<close>

unbundle bit_operations_syntax

section \<open>The code\<close>

abbreviation (input) "MaxAmount \<equiv> Fin 10000"
abbreviation (input) "MaxInstallments \<equiv> Fin 12"
abbreviation (input) "AmountVsAvgRatio \<equiv> Fin 10"
abbreviation (input) "MaxMinutes \<equiv> Fin 1440"
abbreviation (input) "MaxKm \<equiv> Fin 1000"
abbreviation (input) "MaxTxCount24h \<equiv> Fin 20"
abbreviation (input) "MaxMerchantAvgAmount \<equiv> Fin 10000"

definition clamp01 :: "fl \<Rightarrow> fl" where
  "clamp01 x = (if fl_less x (Fin 0) then Fin 0 else if fl_less (Fin 1) x then Fin 1 else x)"

definition packLit :: "char \<Rightarrow> char \<Rightarrow> char \<Rightarrow> char \<Rightarrow> nat" where
  "packLit a b c d = push_bit 24 (of_char a) OR push_bit 16 (of_char b) OR push_bit 8 (of_char c) OR of_char d"

definition pack :: "bytes \<Rightarrow> nat" where
  "pack s = packLit (s ! 0) (s ! 1) (s ! 2) (s ! 3)"

definition mccRisk :: "bytes \<Rightarrow> fl" where
  "mccRisk mcc =
     (if length mcc \<noteq> 4 then round32 (50 / 100)
      else let x = pack mcc in
        if x = packLit CHR ''5'' CHR ''4'' CHR ''1'' CHR ''1'' then round32 (15 / 100)
        else if x = packLit CHR ''5'' CHR ''8'' CHR ''1'' CHR ''2'' then round32 (30 / 100)
        else if x = packLit CHR ''5'' CHR ''9'' CHR ''1'' CHR ''2'' then round32 (20 / 100)
        else if x = packLit CHR ''5'' CHR ''9'' CHR ''4'' CHR ''4'' then round32 (45 / 100)
        else if x = packLit CHR ''7'' CHR ''8'' CHR ''0'' CHR ''1'' then round32 (80 / 100)
        else if x = packLit CHR ''7'' CHR ''8'' CHR ''0'' CHR ''2'' then round32 (75 / 100)
        else if x = packLit CHR ''7'' CHR ''9'' CHR ''9'' CHR ''5'' then round32 (85 / 100)
        else if x = packLit CHR ''4'' CHR ''5'' CHR ''1'' CHR ''1'' then round32 (35 / 100)
        else if x = packLit CHR ''5'' CHR ''3'' CHR ''1'' CHR ''1'' then round32 (25 / 100)
        else if x = packLit CHR ''5'' CHR ''9'' CHR ''9'' CHR ''9'' then round32 (50 / 100)
        else round32 (50 / 100))"

text \<open>The search for the merchant; the inner loop over the bytes is list equality.\<close>

fun isKnown :: "Payload \<Rightarrow> nat list \<Rightarrow> bool option" where
  "isKnown p [] = Some False"
| "isKnown p (i # is) =
     do {
       m \<leftarrow> read_at (KnownMerchants p) i;
       if m = MerchantID p then Some True else isKnown p is
     }"

definition minutesSince :: "int \<Rightarrow> int \<Rightarrow> fl" where
  "minutesSince cur lastS =
     (let minsRaw = fl_div round32 (round32 (of_int (wrap64 (cur - lastS)))) (Fin 60);
          mins = (if fl_less minsRaw (Fin 0) then Fin 0 else minsRaw)
      in clamp01 (fl_div round32 mins MaxMinutes))"

definition b01 :: "bool \<Rightarrow> fl" where
  "b01 b = (if b then Fin 1 else Fin 0)"

definition Vectorize :: "Payload \<Rightarrow> fl list option" where
  "Vectorize p =
     do {
       let ts = timex_Parse (RequestedAt p);
       let cur = EpochSeconds ts;
       dow \<leftarrow> DayOfWeek (Year ts) (Month ts) (Day ts);
       known \<leftarrow> isKnown p [0..<KnownN p];
       let d5 = (if HasLast p then minutesSince cur (EpochSeconds (timex_Parse (LastTimestamp p))) else Fin (- 1));
       let d6 = (if HasLast p then clamp01 (fl_div round32 (LastKmFromCurrent p) MaxKm) else Fin (- 1));
       let avgAmount = (if AvgAmount p = Fin 0 then Fin 1 else AvgAmount p);
       Some
         [clamp01 (fl_div round32 (Amount p) MaxAmount),
          clamp01 (fl_div round32 (round32 (of_nat (Installments p))) MaxInstallments),
          clamp01 (fl_div round32 (fl_div round32 (Amount p) avgAmount) AmountVsAvgRatio),
          fl_div round32 (round32 (of_nat (Hour ts))) (Fin 23),
          fl_div round32 (round32 (of_nat dow)) (Fin 6),
          d5,
          d6,
          clamp01 (fl_div round32 (KmFromHome p) MaxKm),
          clamp01 (fl_div round32 (round32 (of_nat (TxCount24h p))) MaxTxCount24h),
          b01 (IsOnline p),
          b01 (CardPresent p),
          b01 (\<not> known),
          mccRisk (MCC p),
          clamp01 (fl_div round32 (MerchantAvgAmount p) MaxMerchantAvgAmount)]
     }"

section \<open>The merchant categories\<close>

definition mcc_table :: "(bytes \<times> rat) list" where
  "mcc_table =
     [(''5411'', 15 / 100), (''5812'', 30 / 100), (''5912'', 20 / 100), (''5944'', 45 / 100), (''7801'', 80 / 100),
      (''7802'', 75 / 100), (''7995'', 85 / 100), (''4511'', 35 / 100), (''5311'', 25 / 100), (''5999'', 50 / 100)]"

lemma byte_bits:
  "take_bit 8 (of_char a) = (of_char a :: nat)" "k \<ge> 8 \<Longrightarrow> drop_bit k (of_char a) = (0 :: nat)"
proof -
  show "take_bit 8 (of_char a) = (of_char a :: nat)" by (simp add: take_bit_nat_eq_self)
  assume "k \<ge> 8"
  then have "of_char a < (2 ^ k :: nat)"
    using order_less_le_trans [OF nat_of_char_less_256 [of a]] power_increasing [of 8 k "2::nat"] by simp
  then show "drop_bit k (of_char a) = (0 :: nat)" by (simp add: drop_bit_eq_div)
qed

lemma packLit_bytes:
  "take_bit 8 (packLit a b c d) = of_char d" "take_bit 8 (drop_bit 8 (packLit a b c d)) = of_char c"
  "take_bit 8 (drop_bit 16 (packLit a b c d)) = of_char b" "drop_bit 24 (packLit a b c d) = of_char a"
  by (simp_all add: packLit_def take_bit_or drop_bit_or take_bit_push_bit drop_bit_push_bit byte_bits)

lemma packLit_inject: "packLit a b c d = packLit a' b' c' d' \<longleftrightarrow> a = a' \<and> b = b' \<and> c = c' \<and> d = d'"
  using packLit_bytes [of a b c d] packLit_bytes [of a' b' c' d'] by (metis of_char_eq_iff)

lemma length_4_cases: "length s = 4 \<Longrightarrow> \<exists>a b c d. s = [a, b, c, d]"
  by (auto simp: length_Suc_conv numeral_eq_Suc)

lemma mccRisk_lookup:
  "mccRisk mcc = round32 (case map_of mcc_table mcc of Some r \<Rightarrow> r | None \<Rightarrow> 50 / 100)"
proof (cases "length mcc = 4")
  case True
  then obtain a b c d where m: "mcc = [a, b, c, d]" using length_4_cases by blast
  show ?thesis by (simp add: m mccRisk_def pack_def packLit_inject mcc_table_def Let_def)
next
  case False
  then have "mcc \<notin> fst ` set mcc_table" by (auto simp: mcc_table_def)
  then have "map_of mcc_table mcc = None" by (simp add: map_of_eq_None_iff)
  then show ?thesis using False by (simp add: mccRisk_def)
qed

section \<open>Ranges\<close>

definition unit_fl :: "fl \<Rightarrow> bool" where
  "unit_fl x \<longleftrightarrow> (\<exists>r. x = Fin r \<and> 0 \<le> r \<and> r \<le> 1)"

lemma unit_fl_not_NaN: "unit_fl x \<Longrightarrow> x \<noteq> NaN"
  by (auto simp: unit_fl_def)

lemma round32_unit: "0 \<le> x \<Longrightarrow> x \<le> 1 \<Longrightarrow> unit_fl (round32 x)"
proof -
  assume x: "0 \<le> x" "x \<le> 1"
  have "\<bar>roundVal 24 (- 126) x\<bar> \<le> 2 powi 0" by (rule roundVal_abs_le) (use x in simp_all)
  moreover have "0 \<le> roundVal 24 (- 126) x" by (rule roundVal_nonneg [OF x(1)])
  moreover have "round32 x = Fin (roundVal 24 (- 126) x)" by (rule round32_Fin) (use x in simp)
  ultimately show ?thesis by (simp add: unit_fl_def)
qed

lemma clamp01_unit: "x \<noteq> NaN \<Longrightarrow> unit_fl (clamp01 x)"
  by (cases x) (auto simp: clamp01_def unit_fl_def)

lemma round32_NaN [simp]: "round32 x \<noteq> NaN"
  by (simp add: round32_def roundTo_def Let_def)

lemma fl_div_NaN: "x \<noteq> NaN \<Longrightarrow> c \<noteq> 0 \<Longrightarrow> fl_div round32 x (Fin c) \<noteq> NaN"
  by (cases x) simp_all

lemma b01_unit: "unit_fl (b01 b)"
  by (simp add: b01_def unit_fl_def)

lemma mccRisk_unit: "unit_fl (mccRisk mcc)"
proof -
  have "\<forall>r \<in> snd ` set mcc_table. 0 \<le> r \<and> r \<le> 1" by (simp add: mcc_table_def)
  then have "0 \<le> (case map_of mcc_table mcc of Some r \<Rightarrow> r | None \<Rightarrow> 50 / 100) \<and>
      (case map_of mcc_table mcc of Some r \<Rightarrow> r | None \<Rightarrow> 50 / 100) \<le> 1"
    by (auto split: option.splits dest!: map_of_SomeD)
  then show ?thesis unfolding mccRisk_lookup by (intro round32_unit) simp_all
qed

lemma minutesSince_unit: "unit_fl (minutesSince a b)"
proof -
  have "fl_div round32 (round32 x) (Fin 60) \<noteq> NaN" for x by (rule fl_div_NaN) simp_all
  then show ?thesis unfolding minutesSince_def Let_def
    by (intro clamp01_unit fl_div_NaN) (simp_all split: if_splits)
qed

lemma ratio_unit: "n \<le> m \<Longrightarrow> 0 < m \<Longrightarrow> m < 2 ^ 24 \<Longrightarrow> unit_fl (fl_div round32 (round32 (of_nat n)) (Fin (of_nat m)))"
proof -
  assume n: "n \<le> m" "0 < m" "m < 2 ^ 24"
  have "round32 (of_nat n) = Fin (of_nat n)" using round32_int [of "int n"] n by simp
  then show ?thesis using n round32_unit [of "of_nat n / of_nat m"] by (simp add: divide_le_eq)
qed

lemma DayOfWeek_le_6: "DayOfWeek y m d = Some w \<Longrightarrow> w \<le> 6"
proof -
  assume "DayOfWeek y m d = Some w"
  then obtain s where "w = (s + 6) mod 7"
    unfolding DayOfWeek_def Let_def by (auto split: bind_splits)
  then show ?thesis by simp
qed

lemma isKnown_ok:
  "\<forall>i \<in> set is. i < length (KnownMerchants p) \<Longrightarrow>
     isKnown p is = Some (\<exists>i \<in> set is. KnownMerchants p ! i = MerchantID p)"
  by (induction "is") (simp_all add: panic_simps)

definition finite_payload :: "Payload \<Rightarrow> bool" where
  "finite_payload p \<longleftrightarrow> (\<forall>x \<in> {Amount p, AvgAmount p, MerchantAvgAmount p, KmFromHome p, LastKmFromCurrent p}.
     \<exists>r. x = Fin r)"

lemma dig_less: "dig s i < 256"
  by (simp add: dig_def byte_sub_less)

lemma Month_less: "Month (timex_Parse s) < 2 ^ 32"
  using dig_less [of s 5] dig_less [of s 6] by (simp add: timex_Parse_def Stamp0_def)

lemma Vectorize_cases:
  assumes "payload_ok p"
  shows "Vectorize p = None \<longleftrightarrow> Month (timex_Parse (RequestedAt p)) \<notin> {1..12}"
proof -
  have k: "isKnown p [0..<KnownN p] = Some (\<exists>i \<in> set [0..<KnownN p]. KnownMerchants p ! i = MerchantID p)"
    by (rule isKnown_ok) (use assms in \<open>auto simp: payload_ok_def\<close>)
  let ?ts = "timex_Parse (RequestedAt p)"
  have "Vectorize p = None \<longleftrightarrow> DayOfWeek (Year ?ts) (Month ?ts) (Day ?ts) = None"
    unfolding Vectorize_def Let_def k
    by (cases "DayOfWeek (Year ?ts) (Month ?ts) (Day ?ts)") simp_all
  then show ?thesis using DayOfWeek_None_iff [OF Month_less] by (auto simp: not_le)
qed

definition avg_or_one :: "Payload \<Rightarrow> fl" where
  "avg_or_one p = (if AvgAmount p = Fin 0 then Fin 1 else AvgAmount p)"

definition feature_list :: "Payload \<Rightarrow> Stamp \<Rightarrow> nat \<Rightarrow> bool \<Rightarrow> fl list" where
  "feature_list p ts dow known =
     [clamp01 (fl_div round32 (Amount p) (Fin 10000)),
      clamp01 (fl_div round32 (round32 (of_nat (Installments p))) (Fin 12)),
      clamp01 (fl_div round32 (fl_div round32 (Amount p) (avg_or_one p)) (Fin 10)),
      fl_div round32 (round32 (of_nat (Hour ts))) (Fin 23), fl_div round32 (round32 (of_nat dow)) (Fin 6),
      if HasLast p then minutesSince (EpochSeconds ts) (EpochSeconds (timex_Parse (LastTimestamp p))) else Fin (- 1),
      if HasLast p then clamp01 (fl_div round32 (LastKmFromCurrent p) (Fin 1000)) else Fin (- 1),
      clamp01 (fl_div round32 (KmFromHome p) (Fin 1000)),
      clamp01 (fl_div round32 (round32 (of_nat (TxCount24h p))) (Fin 20)),
      b01 (IsOnline p), b01 (CardPresent p), b01 (\<not> known), mccRisk (MCC p),
      clamp01 (fl_div round32 (MerchantAvgAmount p) (Fin 10000))]"

lemma Vectorize_values:
  assumes "Vectorize p = Some v" "ts = timex_Parse (RequestedAt p)"
  obtains dow known where "DayOfWeek (Year ts) (Month ts) (Day ts) = Some dow" "v = feature_list p ts dow known"
proof -
  obtain dow known where d: "DayOfWeek (Year ts) (Month ts) (Day ts) = Some dow" "isKnown p [0..<KnownN p] = Some known"
    using assms by (auto simp: Vectorize_def Let_def split: bind_splits)
  show ?thesis by (rule that [OF d(1), of known]) (use assms d in \<open>simp add: Vectorize_def Let_def avg_or_one_def feature_list_def\<close>)
qed

lemma Vectorize_range:
  assumes p: "finite_payload p" and v: "Vectorize p = Some v"
  shows "length v = 14 \<and> NaN \<notin> set v \<and>
    (\<forall>i<14. i \<noteq> 3 \<longrightarrow> unit_fl (v ! i) \<or> (i \<in> {5, 6} \<and> \<not> HasLast p \<and> v ! i = Fin (- 1)))"
proof -
  define ts where "ts = timex_Parse (RequestedAt p)"
  obtain dow known where d: "DayOfWeek (Year ts) (Month ts) (Day ts) = Some dow" and vs: "v = feature_list p ts dow known"
    using v ts_def by (rule Vectorize_values)
  have f: "Amount p \<noteq> NaN" "MerchantAvgAmount p \<noteq> NaN" "KmFromHome p \<noteq> NaN" "LastKmFromCurrent p \<noteq> NaN"
    using p by (auto simp: finite_payload_def)
  obtain c where "avg_or_one p = Fin c" "c \<noteq> 0"
    using p by (cases "AvgAmount p = Fin 0") (auto simp: avg_or_one_def finite_payload_def)
  then have avg: "fl_div round32 (Amount p) (avg_or_one p) \<noteq> NaN" using fl_div_NaN [OF f(1)] by simp
  have dow: "unit_fl (fl_div round32 (round32 (of_nat dow)) (Fin 6))"
    using ratio_unit [of dow 6] DayOfWeek_le_6 [OF d] by simp
  have hr: "fl_div round32 (round32 (of_nat (Hour ts))) (Fin 23) \<noteq> NaN" by (rule fl_div_NaN) simp_all
  note units = clamp01_unit [OF fl_div_NaN] minutesSince_unit b01_unit mccRisk_unit dow avg f
  define P where "P = (\<lambda>i. i \<noteq> 3 \<longrightarrow> unit_fl (v ! i) \<or> (i \<in> {5, 6} \<and> \<not> HasLast p \<and> v ! i = Fin (- 1)))"
  have "list_all P [0, 1, 2, 3, 4, 5, 6, 7, 8, 9, 10, 11, 12, 13]"
    unfolding P_def vs by (simp add: units feature_list_def del: fl_div.simps)
  moreover have "[0, 1, 2, 3, 4, 5, 6, 7, 8, 9, 10, 11, 12, 13] = [0..<14]" by (simp add: upt_rec)
  ultimately have "list_all P [0..<14]" by (simp only:)
  then have rng: "\<forall>i<14. i \<noteq> 3 \<longrightarrow> unit_fl (v ! i) \<or> (i \<in> {5, 6} \<and> \<not> HasLast p \<and> v ! i = Fin (- 1))"
    by (simp add: list_all_iff P_def)
  have len: "length v = 14" by (simp add: vs feature_list_def)
  have v3: "v ! 3 \<noteq> NaN" using hr by (simp add: vs feature_list_def del: fl_div.simps)
  have "v ! i \<noteq> NaN" if "i < length v" for i using that rng v3 len unit_fl_not_NaN fl.distinct by metis
  then have "NaN \<notin> set v" by (auto simp: in_set_conv_nth)
  then show ?thesis using rng len by simp
qed

section \<open>Properties\<close>

text \<open>The merchant-category switch on packed 32-bit keys is a table lookup: the risk of a listed
  four-character code, and one half for everything else.\<close>

theorem mccRisk_table:
  "mccRisk mcc = round32 (case map_of mcc_table mcc of Some r \<Rightarrow> r | None \<Rightarrow> 50 / 100)"
  by (rule mccRisk_lookup)

text \<open>(C34) Range of the features: from finite numbers \<open>Vectorize\<close> computes fourteen features, none of
  them NaN, each between 0 and 1 except for the hour, which is not clamped, and for the two
  features of the previous transaction, which are $-1$ when there is none.\<close>

theorem Vectorize_features:
  assumes "finite_payload p" "Vectorize p = Some v"
  shows "length v = 14 \<and> NaN \<notin> set v \<and>
    (\<forall>i<14. i \<noteq> 3 \<longrightarrow> (\<exists>r. v ! i = Fin r \<and> 0 \<le> r \<and> r \<le> 1) \<or> (i \<in> {5, 6} \<and> \<not> HasLast p \<and> v ! i = Fin (- 1)))"
  using Vectorize_range [OF assms] by (simp add: unit_fl_def)

definition first_payload :: Payload where
  "first_payload = Payload0\<lparr>RequestedAt := ''2026-03-15T14:30:00Z'', Amount := Fin 120, MCC := ''5411''\<rparr>"

theorem Vectorize_features_witness:
  "\<exists>v. Vectorize first_payload = Some v \<and> length v = 14 \<and> NaN \<notin> set v"
proof -
  have "payload_ok first_payload" "Month (timex_Parse (RequestedAt first_payload)) = 3"
    by (simp_all add: first_payload_def payload_ok_def Payload0_def timex_Parse_def Stamp0_def dig_def byte_sub_def u32_def)
  then obtain v where v: "Vectorize first_payload = Some v" using Vectorize_cases by fastforce
  have "finite_payload first_payload" by (simp add: finite_payload_def first_payload_def Payload0_def)
  from Vectorize_features [OF this v] v show ?thesis by blast
qed

text \<open>(C38) \<open>Vectorize\<close> panics exactly when the month of \<open>requested_at\<close> is not 1 to 12; in
  particular for every request whose timestamp is missing or shorter than 19 bytes.\<close>

theorem Vectorize_panic_iff:
  assumes "payload_ok p"
  shows "Vectorize p = None \<longleftrightarrow> Month (timex_Parse (RequestedAt p)) \<notin> {1..12}"
  by (rule Vectorize_cases [OF assms])


theorem Vectorize_panic_iff_witness: "Vectorize Payload0 = None"
proof -
  have "payload_ok Payload0" by (simp add: payload_ok_def Payload0_def)
  from Vectorize_panic_iff [OF this] show ?thesis by (simp add: timex_Parse_def Payload0_def Stamp0_def)
qed

end
