(* ===== verification/Http.thy ===== *)
theory Http
  imports Normalize Quantize Tree Knn
begin

text \<open>
  Package \<open>server\<close> (\<open>internal/server/http.go\<close>): framing of HTTP requests and the
  answer to a framed request. \<open>ParseRequest\<close> returns one of its two errors on the left; the
  slice expression it ends with can panic. An index of \<open>bytes.Index\<close> is a natural number, and
  \<open>-1\<close> is \<^const>\<open>None\<close>.
\<close>

section \<open>The code\<close>

abbreviation (input) "CR \<equiv> CHR 0x0D"
abbreviation (input) "LF \<equiv> CHR 0x0A"

definition crlf :: bytes where
  "crlf = [CR, LF]"

definition approvedHdr :: bytes where
  "approvedHdr = ''HTTP/1.1 200 OK'' @ crlf @ ''content-type: application/json'' @ crlf @
     ''content-length: 35'' @ crlf @ ''connection: keep-alive'' @ crlf @ crlf"

definition deniedHdr :: bytes where
  "deniedHdr = ''HTTP/1.1 200 OK'' @ crlf @ ''content-type: application/json'' @ crlf @
     ''content-length: 36'' @ crlf @ ''connection: keep-alive'' @ crlf @ crlf"

definition ReadyResp :: bytes where
  "ReadyResp = ''HTTP/1.1 200 OK'' @ crlf @ ''content-type: text/plain'' @ crlf @
     ''content-length: 2'' @ crlf @ ''connection: keep-alive'' @ crlf @ crlf @ ''ok''"

definition NotFoundResp :: bytes where
  "NotFoundResp = ''HTTP/1.1 404 Not Found'' @ crlf @ ''content-length: 0'' @ crlf @
     ''connection: keep-alive'' @ crlf @ crlf"

definition BadResp :: bytes where
  "BadResp = ''HTTP/1.1 400 Bad Request'' @ crlf @ ''content-length: 0'' @ crlf @
     ''connection: close'' @ crlf @ crlf"

definition scores :: "bytes list" where
  "scores =
     [approvedHdr @ ''{\"approved\":true,\"fraud_score\":0.0}'',
      approvedHdr @ ''{\"approved\":true,\"fraud_score\":0.2}'',
      approvedHdr @ ''{\"approved\":true,\"fraud_score\":0.4}'',
      deniedHdr @ ''{\"approved\":false,\"fraud_score\":0.6}'',
      deniedHdr @ ''{\"approved\":false,\"fraud_score\":0.8}'',
      deniedHdr @ ''{\"approved\":false,\"fraud_score\":1.0}'']"

datatype Method = MethodOther | MethodGetReady | MethodPostScore

datatype HttpError = ErrIncomplete | ErrBad

record Parsed =
  PM :: Method
  Body :: bytes
  PEnd :: nat

definition HasPrefix :: "bytes \<Rightarrow> bytes \<Rightarrow> bool" where
  "HasPrefix s p \<longleftrightarrow> take (length p) s = p"

fun bytes_Index :: "bytes \<Rightarrow> bytes \<Rightarrow> nat option" where
  "bytes_Index [] sep = (if sep = [] then Some 0 else None)"
| "bytes_Index (c # cs) sep =
     (if HasPrefix (c # cs) sep then Some 0 else map_option Suc (bytes_Index cs sep))"

definition lower :: "char \<Rightarrow> nat" where
  "lower x = (if of_char CHR ''A'' \<le> (of_char x :: nat) \<and> of_char x \<le> (of_char CHR ''Z'' :: nat)
     then (of_char x + 32) mod 256 else of_char x)"

definition asciiEqlIgnoreCase :: "bytes \<Rightarrow> bytes \<Rightarrow> bool" where
  "asciiEqlIgnoreCase a b \<longleftrightarrow> length a = length b \<and> list_all2 (\<lambda>x y. lower x = lower y) a b"

definition lengthValue :: "bytes \<Rightarrow> int" where
  "lengthValue s =
     foldl (\<lambda>v c. wrap64 (v * 10 + int (byte_sub c CHR ''0''))) 0
       (takeWhile isDigit (dropWhile (\<lambda>c. c = CHR '' '' \<or> c = CHR 0x09) s))"

function findContentLength :: "bytes \<Rightarrow> int option" where
  "findContentLength hdrs =
     (if hdrs = [] then None
      else case bytes_Index hdrs [LF] of
        None \<Rightarrow> None
      | Some nl \<Rightarrow>
          let lineEnd = (if nl > 0 \<and> hdrs ! (nl - 1) = CR then nl - 1 else nl);
              line = take lineEnd hdrs
          in if length line < 15 then findContentLength (drop (nl + 1) hdrs)
             else if asciiEqlIgnoreCase (take 15 line) ''content-length:''
             then Some (lengthValue (drop 15 line))
             else findContentLength (drop (nl + 1) hdrs))"
  by pat_completeness auto
termination
  by (relation "measure length") auto

declare findContentLength.simps [simp del]

definition ParseRequest :: "bytes \<Rightarrow> (HttpError + Parsed) option" where
  "ParseRequest buf =
     (if length buf < 16 then Some (Inl ErrIncomplete)
      else if HasPrefix buf ''POST /fraud-score'' then
        (case bytes_Index buf (crlf @ crlf) of
          None \<Rightarrow> Some (Inl ErrIncomplete)
        | Some hdrEnd \<Rightarrow>
            (case findContentLength (take (hdrEnd + 2) buf) of
              None \<Rightarrow> Some (Inl ErrBad)
            | Some cl \<Rightarrow>
                let bodyStart = hdrEnd + 4; end = wrap64 (int bodyStart + cl)
                in if int (length buf) < end then Some (Inl ErrIncomplete)
                   else if end < int bodyStart then None
                   else Some (Inr \<lparr>PM = MethodPostScore,
                                  Body = take (nat end - bodyStart) (drop bodyStart buf),
                                  PEnd = nat end\<rparr>)))
      else if HasPrefix buf ''GET /ready'' then
        (case bytes_Index buf (crlf @ crlf) of
          None \<Rightarrow> Some (Inl ErrIncomplete)
        | Some sep \<Rightarrow> Some (Inr \<lparr>PM = MethodGetReady, Body = [], PEnd = sep + 4\<rparr>))
      else
        (case bytes_Index buf (crlf @ crlf) of
          None \<Rightarrow> Some (Inl ErrIncomplete)
        | Some sep \<Rightarrow> Some (Inr \<lparr>PM = MethodOther, Body = [], PEnd = sep + 4\<rparr>)))"

definition decide :: "kernel \<Rightarrow> Index \<Rightarrow> int list \<Rightarrow> nat option" where
  "decide kern ix qq =
     do {
       tr \<leftarrow> Predict qq;
       safe \<leftarrow> LeafSafeA (LeafID tr);
       frauds \<leftarrow> (if safe then Some (Count tr) else ScoreQ kern ix qq);
       Some (if frauds > 5 then 5 else frauds)
     }"

definition Respond :: "kernel \<Rightarrow> Index \<Rightarrow> Parsed \<Rightarrow> bytes option" where
  "Respond kern ix p =
     (case PM p of
        MethodGetReady \<Rightarrow> Some ReadyResp
      | MethodPostScore \<Rightarrow>
          do {
            r \<leftarrow> Parse (Body p);
            (case r of
              Inl _ \<Rightarrow> read_at scores 0
            | Inr payload \<Rightarrow>
                do {
                  v \<leftarrow> Vectorize payload;
                  qq \<leftarrow> Quantize v;
                  frauds \<leftarrow> decide kern ix qq;
                  read_at scores frauds
                })
          }
      | MethodOther \<Rightarrow> Some NotFoundResp)"

section \<open>Searching\<close>

lemma HasPrefix_append: "length p \<le> length s \<Longrightarrow> HasPrefix (s @ t) p \<longleftrightarrow> HasPrefix s p"
  by (simp add: HasPrefix_def)

lemma HasPrefix_length: "HasPrefix s p \<Longrightarrow> length p \<le> length s"
  unfolding HasPrefix_def by (metis length_take min.cobounded1)

lemma HasPrefix_mono: "HasPrefix s p \<Longrightarrow> HasPrefix (s @ t) p"
  using HasPrefix_append HasPrefix_length by blast

lemma bytes_Index_SomeD:
  "bytes_Index s sep = Some n \<Longrightarrow> n + length sep \<le> length s \<and> HasPrefix (drop n s) sep"
proof (induction s arbitrary: n)
  case (Cons c s)
  then show ?case using HasPrefix_length [of "c # s" sep] by (auto split: if_splits)
qed (auto simp: HasPrefix_def split: if_splits)

lemma bytes_Index_least:
  "bytes_Index s sep = Some n \<Longrightarrow> m < n \<Longrightarrow> \<not> HasPrefix (drop m s) sep"
proof (induction s arbitrary: n m)
  case (Cons c s)
  then show ?case by (cases m) (auto split: if_splits)
qed (auto split: if_splits)

lemma bytes_Index_None: "sep \<noteq> [] \<Longrightarrow> bytes_Index s sep = None \<longleftrightarrow> (\<forall>m. \<not> HasPrefix (drop m s) sep)"
proof (induction s)
  case Nil
  then show ?case by (simp add: HasPrefix_def)
next
  case (Cons c s)
  have "(\<forall>m. \<not> HasPrefix (drop m (c # s)) sep) \<longleftrightarrow>
      \<not> HasPrefix (c # s) sep \<and> (\<forall>m. \<not> HasPrefix (drop m s) sep)"
    by (metis drop0 drop_Suc_Cons not0_implies_Suc)
  then show ?case using Cons by simp
qed

lemma bytes_Index_append: "bytes_Index s sep = Some n \<Longrightarrow> bytes_Index (s @ t) sep = Some n"
proof (induction s arbitrary: n)
  case (Cons c s)
  show ?case
  proof (cases "HasPrefix (c # s) sep")
    case True
    then show ?thesis using Cons.prems HasPrefix_mono [OF True, of t] by simp
  next
    case False
    then obtain m where m: "bytes_Index s sep = Some m" "n = Suc m" using Cons.prems by auto
    then have "length sep \<le> length (c # s)" using bytes_Index_SomeD by fastforce
    then have "\<not> HasPrefix ((c # s) @ t) sep" using False HasPrefix_append by blast
    then show ?thesis using Cons.IH [OF m(1)] m(2) by simp
  qed
next
  case Nil
  then show ?case by (cases t) (auto simp: HasPrefix_def split: if_splits)
qed

section \<open>Framing does not depend on what follows\<close>

lemma HasPrefix_late:
  assumes "HasPrefix (s @ t) p" "\<not> HasPrefix s p"
  shows "length s < length p \<and> s = take (length s) p"
proof -
  have "length s < length p" using assms HasPrefix_append [of p s t] by (meson not_le)
  then show ?thesis using assms(1) unfolding HasPrefix_def by (metis append_eq_conv_conj less_imp_le_nat take_append take_take min.absorb1)
qed

definition framePost :: "nat \<Rightarrow> int \<Rightarrow> bytes \<Rightarrow> (HttpError + Parsed) option" where
  "framePost k cl buf =
     (let end = wrap64 (int (k + 4) + cl)
      in if int (length buf) < end then Some (Inl ErrIncomplete)
         else if end < int (k + 4) then None
         else Some (Inr \<lparr>PM = MethodPostScore, Body = take (nat end - (k + 4)) (drop (k + 4) buf), PEnd = nat end\<rparr>))"

definition frame :: "nat \<Rightarrow> bytes \<Rightarrow> (HttpError + Parsed) option" where
  "frame k buf =
     (if HasPrefix buf ''POST /fraud-score''
      then (case findContentLength (take (k + 2) buf) of
          None \<Rightarrow> Some (Inl ErrBad) | Some cl \<Rightarrow> framePost k cl buf)
      else Some (Inr \<lparr>PM = (if HasPrefix buf ''GET /ready'' then MethodGetReady else MethodOther),
                      Body = [], PEnd = k + 4\<rparr>))"

lemma ParseRequest_frame:
  "16 \<le> length buf \<Longrightarrow> bytes_Index buf (crlf @ crlf) = Some k \<Longrightarrow> ParseRequest buf = frame k buf"
  unfolding ParseRequest_def frame_def framePost_def Let_def by (simp split: option.split del: One_nat_def)

lemma ParseRequest_cases:
  obtains (Short) "length buf < 16" "ParseRequest buf = Some (Inl ErrIncomplete)"
  | (Open) "16 \<le> length buf" "bytes_Index buf (crlf @ crlf) = None" "ParseRequest buf = Some (Inl ErrIncomplete)"
  | (Framed) k where "16 \<le> length buf" "bytes_Index buf (crlf @ crlf) = Some k" "k + 4 \<le> length buf"
    "ParseRequest buf = frame k buf"
proof (cases "length buf < 16")
  case True
  then show thesis by (intro Short) (simp_all add: ParseRequest_def)
next
  case False
  show thesis
  proof (cases "bytes_Index buf (crlf @ crlf)")
    case None
    then show thesis using False by (intro Open) (simp_all add: ParseRequest_def)
  next
    case (Some k)
    then show thesis using False bytes_Index_SomeD [OF Some] by (intro Framed ParseRequest_frame) (simp_all add: crlf_def)
  qed
qed

lemma framePost_append:
  "framePost k cl b \<noteq> Some (Inl ErrIncomplete) \<Longrightarrow> k + 4 \<le> length b \<Longrightarrow> framePost k cl (b @ t) = framePost k cl b"
  unfolding framePost_def Let_def by (auto split: if_splits)

lemma frame_append:
  assumes "frame k b \<noteq> Some (Inl ErrIncomplete)" "k + 4 \<le> length b"
    "HasPrefix (b @ t) ''POST /fraud-score'' \<longleftrightarrow> HasPrefix b ''POST /fraud-score''"
    "HasPrefix (b @ t) ''GET /ready'' \<longleftrightarrow> HasPrefix b ''GET /ready''"
  shows "frame k (b @ t) = frame k b"
proof -
  have "take (k + 2) (b @ t) = take (k + 2) b" using assms(2) by simp
  then show ?thesis
    using assms framePost_append [of k _ b t] unfolding frame_def
    by (cases "HasPrefix b ''POST /fraud-score''"; cases "findContentLength (take (k + 2) b)") simp_all
qed

lemma post_prefix_settled:
  assumes "16 \<le> length b" "bytes_Index b (crlf @ crlf) \<noteq> None"
  shows "HasPrefix (b @ t) ''POST /fraud-score'' \<longleftrightarrow> HasPrefix b ''POST /fraud-score''"
proof (rule ccontr)
  assume "\<not> ?thesis"
  then have b: "length b < 17" "b = take (length b) ''POST /fraud-score''"
    using HasPrefix_late [of b t "''POST /fraud-score''"] HasPrefix_mono by auto
  then have "length b = 16" using assms(1) by simp
  then have "b = ''POST /fraud-scor''" using b(2) by simp
  then have "bytes_Index b (crlf @ crlf) = None" by (simp add: crlf_def HasPrefix_def)
  then show False using assms(2) by simp
qed

lemma ParseRequest_append:
  assumes "ParseRequest b \<noteq> Some (Inl ErrIncomplete)"
  shows "ParseRequest (b @ t) = ParseRequest b"
proof (cases b rule: ParseRequest_cases)
  case (Framed k)
  have "ParseRequest (b @ t) = frame k (b @ t)"
    using Framed(1) by (intro ParseRequest_frame bytes_Index_append [OF Framed(2)]) simp
  also have "\<dots> = frame k b"
    using assms Framed post_prefix_settled [OF Framed(1)] HasPrefix_append [of "''GET /ready''" b t]
    by (intro frame_append) simp_all
  finally show ?thesis using Framed(4) by simp
qed (use assms in simp_all)

lemma framePost_bounds:
  assumes "framePost k cl b = Some (Inr p)"
  shows "k + 4 \<le> PEnd p" "PEnd p \<le> length b" "Body p = take (PEnd p - (k + 4)) (drop (k + 4) b)"
  using assms unfolding framePost_def Let_def by (auto split: if_splits)

lemma frame_bounds:
  assumes "frame k b = Some (Inr p)" "k + 4 \<le> length b"
  shows "k + 4 \<le> PEnd p \<and> PEnd p \<le> length b"
  using assms framePost_bounds(1,2) unfolding frame_def
  by (cases "HasPrefix b ''POST /fraud-score''"; cases "findContentLength (take (k + 2) b)") fastforce+

lemma ParseRequest_bounds:
  assumes "ParseRequest b = Some (Inr p)"
  shows "4 \<le> PEnd p \<and> PEnd p \<le> length b"
proof (cases b rule: ParseRequest_cases)
  case (Framed k)
  then show ?thesis using assms frame_bounds [of k b p] by simp
qed (use assms in simp_all)

section \<open>Reading back a rendered request\<close>

definition lines_text :: "bytes list \<Rightarrow> bytes" where
  "lines_text ls = concat (map (\<lambda>l. l @ crlf) ls)"

definition line_ok :: "bytes \<Rightarrow> bool" where
  "line_ok l \<longleftrightarrow> l \<noteq> [] \<and> CR \<notin> set l \<and> LF \<notin> set l"

definition isLength :: "bytes \<Rightarrow> bool" where
  "isLength l \<longleftrightarrow> 15 \<le> length l \<and> asciiEqlIgnoreCase (take 15 l) ''content-length:''"

lemma Index_skip:
  "c \<notin> set l \<Longrightarrow> bytes_Index (l @ s) (c # cs) = map_option ((+) (length l)) (bytes_Index s (c # cs))"
  by (cases "bytes_Index s (c # cs)"; induction l) (auto simp: HasPrefix_def)

lemma Index_lines:
  assumes "ls \<noteq> []" "\<forall>l \<in> set ls. line_ok l"
  shows "bytes_Index (lines_text ls @ crlf @ r) (crlf @ crlf) = Some (length (lines_text ls) - 2)"
  using assms
proof (induction ls)
  case (Cons l ls)
  have l: "bytes_Index (l @ s) (crlf @ crlf) = map_option ((+) (length l)) (bytes_Index s (crlf @ crlf))" for s
    using Cons.prems(2) Index_skip [of CR l s] by (simp add: crlf_def line_ok_def)
  show ?case
  proof (cases ls)
    case Nil
    then show ?thesis by (simp add: lines_text_def l) (simp add: crlf_def HasPrefix_def)
  next
    case (Cons m ms)
    then obtain c m' where m: "m = c # m'" "c \<noteq> CR" using Cons.prems(2) by (cases m) (auto simp: line_ok_def)
    have IH: "bytes_Index (lines_text ls @ crlf @ r) (crlf @ crlf) = Some (length (lines_text ls) - 2)"
      using Cons Cons.IH Cons.prems by simp
    have "lines_text ls = c # m' @ crlf @ lines_text ms" by (simp add: Cons m lines_text_def)
    then have "bytes_Index (crlf @ lines_text ls @ crlf @ r) (crlf @ crlf) = Some (length (lines_text ls))"
      using IH m(2) by (simp add: crlf_def HasPrefix_def)
    moreover have "lines_text (l # ls) @ crlf @ r = l @ crlf @ lines_text ls @ crlf @ r" by (simp add: lines_text_def)
    ultimately show ?thesis by (simp add: l) (simp add: lines_text_def crlf_def)
  qed
qed simp

lemma findContentLength_line:
  assumes "LF \<notin> set l"
  shows "findContentLength (l @ crlf @ r) = (if isLength l then Some (lengthValue (drop 15 l)) else findContentLength r)"
proof -
  have "bytes_Index (l @ crlf @ r) [LF] = Some (length l + 1)"
    using Index_skip [OF assms, of "crlf @ r" "[]"] by (simp add: crlf_def HasPrefix_def)
  then show ?thesis
    by (subst findContentLength.simps) (simp add: crlf_def nth_append isLength_def Let_def)
qed

lemma findContentLength_lines:
  assumes "\<forall>l \<in> set ls. LF \<notin> set l \<and> \<not> isLength l" "LF \<notin> set l" "isLength l"
  shows "findContentLength (lines_text (ls @ l # ls')) = Some (lengthValue (drop 15 l))"
  using assms
proof (induction ls)
  case Nil
  then show ?case using findContentLength_line [of l "lines_text ls'"] by (simp add: lines_text_def)
next
  case (Cons m ls)
  then show ?case using findContentLength_line [of m "lines_text (ls @ l # ls')"] by (simp add: lines_text_def)
qed

lemma wrap64_mod: "wrap64 v mod 2 ^ 64 = v mod 2 ^ 64"
  unfolding wrap64_def using take_bit_signed_take_bit [of 64 63 v] by (simp add: take_bit_eq_mod)

lemma wrap64_eqI: "u mod 2 ^ 64 = v mod 2 ^ 64 \<Longrightarrow> wrap64 u = wrap64 v"
  unfolding wrap64_def by (simp add: signed_take_bit_eq_iff_take_bit_eq take_bit_eq_mod)

lemma wrap64_digit: "wrap64 (wrap64 v * 10 + d) = wrap64 (v * 10 + d)"
  by (rule wrap64_eqI) (metis wrap64_mod mod_add_left_eq mod_mult_left_eq)

lemma lengthValue_digits:
  assumes "\<forall>c \<in> set ws. c = CHR '' '' \<or> c = CHR 0x09" "list_all isDigit ds" "ds \<noteq> []"
  shows "lengthValue (ws @ ds) = wrap64 (int (digitsVal ds))"
proof -
  have "\<not> (hd ds = CHR '' '' \<or> hd ds = CHR 0x09)" using assms(2,3) by (cases ds) (auto simp: isDigit_def)
  then have "dropWhile (\<lambda>c. c = CHR '' '' \<or> c = CHR 0x09) (ws @ ds) = ds"
    using assms(1,3) by (cases ds) (simp_all add: dropWhile_append3)
  moreover have "takeWhile isDigit ds = ds" using assms(2) by (simp add: list_all_iff takeWhile_eq_all_conv)
  moreover have "foldl (\<lambda>v c. wrap64 (v * 10 + int (byte_sub c CHR ''0''))) 0 ds = wrap64 (int (digitsVal ds))"
  proof (induction ds rule: rev_induct)
    case (snoc c ds)
    then show ?case by (simp add: digitsVal_def wrap64_digit)
  qed (simp add: digitsVal_def wrap64_def)
  ultimately show ?thesis unfolding lengthValue_def by (simp only:)
qed

text \<open>A scoring request: the request line, header lines, the length in any capitalization, more
  header lines, an empty line and the body.\<close>

record request =
  rqLine :: bytes
  rqBefore :: "bytes list"
  rqName :: bytes
  rqBlanks :: bytes
  rqAfter :: "bytes list"

definition request_ok :: "request \<Rightarrow> bool" where
  "request_ok q \<longleftrightarrow> HasPrefix (rqLine q) ''POST /fraud-score'' \<and> line_ok (rqLine q) \<and>
     (\<forall>l \<in> set (rqBefore q). line_ok l \<and> \<not> isLength l) \<and> (\<forall>l \<in> set (rqAfter q). line_ok l) \<and>
     asciiEqlIgnoreCase (rqName q) ''content-length:'' \<and> line_ok (rqName q) \<and>
     (\<forall>c \<in> set (rqBlanks q). c = CHR '' '' \<or> c = CHR 0x09)"

definition head_lines :: "request \<Rightarrow> nat \<Rightarrow> bytes list" where
  "head_lines q n = (rqLine q # rqBefore q) @ (rqName q @ rqBlanks q @ dec n) # rqAfter q"

definition render_head :: "request \<Rightarrow> nat \<Rightarrow> bytes" where
  "render_head q n = lines_text (head_lines q n) @ crlf"

lemma head_line_ok: "request_ok q \<Longrightarrow> l \<in> set (head_lines q n) \<Longrightarrow> line_ok l"
proof -
  assume q: "request_ok q" and l: "l \<in> set (head_lines q n)"
  have "CR \<notin> set (dec n)" "LF \<notin> set (dec n)"
    using dec_digits [of n] by (auto simp: list_all_iff isDigit_def)
  moreover have "CR \<notin> set (rqBlanks q)" "LF \<notin> set (rqBlanks q)"
    using q by (auto simp: request_ok_def)
  ultimately have "line_ok (rqName q @ rqBlanks q @ dec n)"
    using q by (simp add: request_ok_def line_ok_def)
  then show "line_ok l" using q l by (auto simp: request_ok_def head_lines_def)
qed

lemma isLength_post: "HasPrefix l ''POST /fraud-score'' \<Longrightarrow> \<not> isLength l"
proof
  assume l: "HasPrefix l ''POST /fraud-score''" "isLength l"
  have "take 17 l = ''POST /fraud-score''" using l(1) by (simp add: HasPrefix_def eval_nat_numeral)
  then have "take 15 (take 17 l) = ''POST /fraud-sco''" by (simp only:) simp
  moreover have "take 15 (take 17 l) = take 15 l" by simp
  ultimately have "take 15 l = ''POST /fraud-sco''" by (simp only:)
  then show False using l(2) by (simp add: isLength_def asciiEqlIgnoreCase_def lower_def)
qed

lemma head_length:
  assumes "request_ok q"
  shows "findContentLength (lines_text (head_lines q n)) = Some (wrap64 (int n))"
proof -
  have len: "length (rqName q) = 15" using assms by (simp add: request_ok_def asciiEqlIgnoreCase_def)
  have "\<forall>l \<in> set (rqLine q # rqBefore q). LF \<notin> set l \<and> \<not> isLength l"
    using assms isLength_post by (auto simp: request_ok_def line_ok_def)
  moreover have "LF \<notin> set (rqName q @ rqBlanks q @ dec n)"
    using head_line_ok [OF assms, of "rqName q @ rqBlanks q @ dec n" n] by (simp add: head_lines_def line_ok_def)
  moreover have "isLength (rqName q @ rqBlanks q @ dec n)"
    using assms len by (simp add: isLength_def request_ok_def)
  ultimately have "findContentLength (lines_text (head_lines q n)) = Some (lengthValue (rqBlanks q @ dec n))"
    unfolding head_lines_def using len by (subst findContentLength_lines) simp_all
  then show ?thesis
    using lengthValue_digits [of "rqBlanks q" "dec n"] assms dec_digits [of n] by (simp add: request_ok_def)
qed

lemma ParseRequest_head:
  assumes "request_ok q"
  shows "ParseRequest (render_head q n @ s) =
    framePost (length (render_head q n) - 4) (wrap64 (int n)) (render_head q n @ s)"
proof -
  let ?ls = "head_lines q n" and ?b = "render_head q n @ s"
  have ls: "?ls \<noteq> []" "\<forall>l \<in> set ?ls. line_ok l"
    using head_line_ok [OF assms] by (auto simp: head_lines_def)
  obtain r where line: "lines_text ?ls = rqLine q @ crlf @ r" by (simp add: head_lines_def lines_text_def)
  have pre: "HasPrefix ?b ''POST /fraud-score''"
    using assms HasPrefix_mono [of "rqLine q" "''POST /fraud-score''"]
    by (simp add: render_head_def line request_ok_def)
  have "17 \<le> length (rqLine q)" using assms HasPrefix_length [of "rqLine q" "''POST /fraud-score''"] by (simp add: request_ok_def)
  then have len: "17 \<le> length (lines_text ?ls)" by (simp add: line)
  have "bytes_Index ?b (crlf @ crlf) = Some (length (lines_text ?ls) - 2)"
    using Index_lines [OF ls, of s] by (simp add: render_head_def)
  then have "ParseRequest ?b = frame (length (lines_text ?ls) - 2) ?b"
    using len by (intro ParseRequest_frame) (simp_all add: render_head_def)
  moreover have "take (length (lines_text ?ls) - 2 + 2) ?b = lines_text ?ls"
    using len by (simp add: render_head_def)
  moreover have "length (render_head q n) - 4 = length (lines_text ?ls) - 2"
    by (simp add: render_head_def crlf_def)
  ultimately show ?thesis
    using pre head_length [OF assms] by (simp add: frame_def)
qed

lemma ParseRequest_rendered:
  assumes "request_ok q" "length (render_head q (length body)) + length body < 2 ^ 63"
  shows "ParseRequest (render_head q (length body) @ body @ rest) =
    Some (Inr \<lparr>PM = MethodPostScore, Body = body, PEnd = length (render_head q (length body) @ body)\<rparr>)"
proof -
  let ?h = "render_head q (length body)"
  have h: "4 \<le> length ?h" by (simp add: render_head_def head_lines_def lines_text_def crlf_def)
  have "wrap64 (int (length body)) = int (length body)" "wrap64 (int (length ?h + length body)) = int (length ?h + length body)"
    using assms(2) by (simp_all add: wrap_simps)
  then show ?thesis
    using ParseRequest_head [OF assms(1), of "length body" "body @ rest"] h
    by (simp add: framePost_def Let_def nat_plus_as_int)
qed

lemma ParseRequest_overflow:
  assumes "request_ok q" "2 ^ 63 \<le> n" "n < 2 ^ 64" "length (render_head q n) < 2 ^ 63"
  shows "ParseRequest (render_head q n @ s) = None"
proof -
  let ?h = "render_head q n"
  have h: "4 \<le> length ?h" by (simp add: render_head_def head_lines_def lines_text_def crlf_def)
  have n: "wrap64 (int n) = int n - 2 ^ 64"
  proof -
    have "wrap64 (int n) = wrap64 (int n - 2 ^ 64)" by (rule wrap64_eqI) simp
    also have "\<dots> = int n - 2 ^ 64" using assms(2,3) by (intro wrap64_id) simp_all
    finally show ?thesis .
  qed
  have "wrap64 (int (length ?h) + (int n - 2 ^ 64)) = int (length ?h) + (int n - 2 ^ 64)"
    using assms by (intro wrap64_id) simp_all
  then show ?thesis
    using ParseRequest_head [OF assms(1), of n s] h n assms(3) by (simp add: framePost_def Let_def)
qed

end
