(* ===== verification/Server.thy ===== *)
theory Server
  imports Http
begin

text \<open>
  \<open>Respond\<close> of \<open>internal/server/http.go\<close>: its answer over the specifications of the parser, the
  feature vector, the quantizer, the tree and the search, the framing of the responses, and the
  properties of the request path from the bytes of a request to the bytes of its response.
\<close>

section \<open>The answer to a request\<close>

lemma LeafSafeA_ok: "LeafID r < 512 \<Longrightarrow> \<exists>a. LeafSafeA (LeafID r) = Some a"
  by (simp add: LeafSafeA_def LeafCount_def read_at_def length_leafSafe)

context kernel_spec
begin

lemma decide_spec:
  assumes "wf_index ix" "query_ok q"
  shows "\<exists>tr n. Predict q = Some tr \<and> decide kern ix q = Some n \<and> n \<le> 5 \<and>
    n = (if LeafSafeA (LeafID tr) = Some True then Count tr else search_spec ix q)"
proof -
  have "length q = 16" using assms(2) by (simp add: query_ok_def)
  then obtain tr a where tr: "Predict q = Some tr" "Count tr \<le> 5" "LeafSafeA (LeafID tr) = Some a"
    using Predict_ok by blast
  then show ?thesis
    using ScoreQ_spec [OF assms] search_spec_le [OF assms] by (cases a) (simp_all add: decide_def)
qed

lemma Respond_spec:
  assumes "wf_index ix" "finite_payload pl" "payload_ok pl"
    "Month (timex_Parse (RequestedAt pl)) \<in> {1..12}"
    "PM p = MethodPostScore" "Parse (Body p) = Some (Inr pl)"
  shows "\<exists>v q tr n. Vectorize pl = Some v \<and> Quantize v = Some q \<and> query_ok q \<and> Predict q = Some tr \<and>
    n \<le> 5 \<and> n = (if LeafSafeA (LeafID tr) = Some True then Count tr else search_spec ix q) \<and>
    Respond kern ix p = Some (scores ! n)"
proof -
  obtain v where v: "Vectorize pl = Some v" using Vectorize_cases [OF assms(3)] assms(4) by fastforce
  then have "length v = 14" "NaN \<notin> set v" using Vectorize_range [OF assms(2) v] by auto
  then obtain q where q: "Quantize v = Some q" "query_ok q" using Quantize_range by fastforce
  obtain tr n where n: "Predict q = Some tr" "decide kern ix q = Some n" "n \<le> 5"
      "n = (if LeafSafeA (LeafID tr) = Some True then Count tr else search_spec ix q)"
    using decide_spec [OF assms(1) q(2)] by blast
  have "Respond kern ix p = Some (scores ! n)"
    using v q n(2,3) assms(5,6) by (simp add: Respond_def read_at_def scores_def)
  then show ?thesis using v q n by blast
qed

end

section \<open>The responses\<close>

definition framed_ok :: "bytes \<Rightarrow> bool" where
  "framed_ok r \<longleftrightarrow>
     (case bytes_Index r (crlf @ crlf) of
        None \<Rightarrow> False
      | Some k \<Rightarrow> findContentLength (take (k + 2) r) = Some (int (length r - (k + 4))))"

lemma framed_lines:
  assumes "\<forall>l \<in> set (ls @ (''content-length: '' @ ds) # ls'). line_ok l" "\<forall>l \<in> set ls. \<not> isLength l"
    "list_all isDigit ds" "ds \<noteq> []" "digitsVal ds = length body" "length body < 2 ^ 63"
  shows "framed_ok (lines_text (ls @ (''content-length: '' @ ds) # ls') @ crlf @ body)"
proof -
  let ?ls = "ls @ (''content-length: '' @ ds) # ls'"
  have k: "bytes_Index (lines_text ?ls @ crlf @ body) (crlf @ crlf) = Some (length (lines_text ?ls) - 2)"
    by (rule Index_lines) (use assms(1) in auto)
  have "isLength (''content-length: '' @ ds)" by (simp add: isLength_def asciiEqlIgnoreCase_def)
  then have "findContentLength (lines_text ?ls) = Some (lengthValue (drop 15 (''content-length: '' @ ds)))"
    by (intro findContentLength_lines) (use assms in \<open>auto simp: line_ok_def\<close>)
  also have "drop 15 (''content-length: '' @ ds) = '' '' @ ds" by simp
  also have "lengthValue ('' '' @ ds) = wrap64 (int (length body))"
    using lengthValue_digits [OF _ assms(3,4), of "'' ''"] assms(5) by simp
  also have "wrap64 (int (length body)) = int (length body)" using assms(6) by (simp add: wrap_simps)
  finally have "findContentLength (lines_text ?ls) = Some (int (length body))" .
  moreover have "2 \<le> length (lines_text ?ls)" by (simp add: lines_text_def)
  moreover define h where "h = lines_text ?ls"
  ultimately have "bytes_Index (h @ crlf @ body) (crlf @ crlf) = Some (length h - 2)" "2 \<le> length h"
      "findContentLength h = Some (int (length body))"
    using k by (simp_all only:)
  then have "framed_ok (h @ crlf @ body)" by (simp add: framed_ok_def) (simp add: crlf_def)
  then show ?thesis by (simp only: h_def)
qed

lemmas framed_eval = line_ok_def isLength_def asciiEqlIgnoreCase_def lower_def isDigit_def digitsVal_def byte_sub_def

lemma framed_approved: "length b = 35 \<Longrightarrow> framed_ok (approvedHdr @ b)"
  using framed_lines [of "[''HTTP/1.1 200 OK'', ''content-type: application/json'']" "''35''" "[''connection: keep-alive'']" b]
  by (simp add: framed_eval) (simp add: approvedHdr_def lines_text_def crlf_def)

lemma framed_denied: "length b = 36 \<Longrightarrow> framed_ok (deniedHdr @ b)"
  using framed_lines [of "[''HTTP/1.1 200 OK'', ''content-type: application/json'']" "''36''" "[''connection: keep-alive'']" b]
  by (simp add: framed_eval) (simp add: deniedHdr_def lines_text_def crlf_def)

lemma framed_ready: "framed_ok ReadyResp"
  using framed_lines [of "[''HTTP/1.1 200 OK'', ''content-type: text/plain'']" "''2''" "[''connection: keep-alive'']" "''ok''"]
  by (simp add: framed_eval) (simp add: ReadyResp_def lines_text_def crlf_def)

lemma framed_notfound: "framed_ok NotFoundResp"
  using framed_lines [of "[''HTTP/1.1 404 Not Found'']" "''0''" "[''connection: keep-alive'']" "[]"]
  by (simp add: framed_eval) (simp add: NotFoundResp_def lines_text_def crlf_def)

lemma framed_bad: "framed_ok BadResp"
  using framed_lines [of "[''HTTP/1.1 400 Bad Request'']" "''0''" "[''connection: close'']" "[]"]
  by (simp add: framed_eval) (simp add: BadResp_def lines_text_def crlf_def)

definition score_text :: "nat \<Rightarrow> bytes" where
  "score_text n =
     braces [field ''approved'' (bool_text (n < 3)),
             field ''fraud_score'' (dec (2 * n div 10) @ ''.'' @ dec (2 * n mod 10))]"

lemma scores_text: "scores = map (\<lambda>n. (if n < 3 then approvedHdr else deniedHdr) @ score_text n) [0..<6]"
  by (simp add: scores_def score_text_def upt_rec braces_def field_def quote_def bool_text_def dec.simps) code_simp

lemma Respond_rendered:
  assumes "wf_index ix" "request_ok rq" "doc_ok d" "finite_payload (payload_of d)"
    "Month (timex_Parse (dRequestedAt d)) \<in> {1..12}"
    "length (render_head rq (length (render_body d))) + length (render_body d) < 2 ^ 63"
  shows "\<exists>p v q tr n.
    ParseRequest (render_head rq (length (render_body d)) @ render_body d @ rest) = Some (Inr p) \<and>
    PEnd p = length (render_head rq (length (render_body d)) @ render_body d) \<and>
    Vectorize (payload_of d) = Some v \<and> Quantize v = Some q \<and> query_ok q \<and> Predict q = Some tr \<and>
    n = (if LeafSafeA (LeafID tr) = Some True then Count tr else search_spec ix q) \<and> n \<le> 5 \<and>
    Respond amd64 ix p = Some (scores ! n) \<and> Respond portable ix p = Some (scores ! n)"
proof -
  let ?b = "render_body d"
  let ?p = "\<lparr>PM = MethodPostScore, Body = ?b, PEnd = length (render_head rq (length ?b) @ ?b)\<rparr>"
  have pr: "ParseRequest (render_head rq (length ?b) @ ?b @ rest) = Some (Inr ?p)"
    by (rule ParseRequest_rendered [OF assms(2,6)])
  have parse: "Parse (Body ?p) = Some (Inr (payload_of d))" using Parse_body [OF assms(3), of "[]"] by simp
  have ok: "payload_ok (payload_of d)" using Parse_keeps_ok [OF parse] by (simp add: payload_ok_def)
  have m: "Month (timex_Parse (RequestedAt (payload_of d))) \<in> {1..12}" using assms(5) by (simp add: payload_of_def)
  note spec = avx2.Respond_spec [OF assms(1,4) ok m _ parse] portable.Respond_spec [OF assms(1,4) ok m _ parse]
  obtain v q tr n where a: "Vectorize (payload_of d) = Some v" "Quantize v = Some q" "Predict q = Some tr" "n \<le> 5" "query_ok q"
      "n = (if LeafSafeA (LeafID tr) = Some True then Count tr else search_spec ix q)"
      "Respond amd64 ix ?p = Some (scores ! n)"
    using spec(1) by auto
  moreover have "Respond portable ix ?p = Some (scores ! n)" using spec(2) a(1-3,6) by auto
  ultimately show ?thesis using pr by (intro exI [of _ ?p]) auto
qed

section \<open>Properties\<close>

text \<open>(C8) From the bytes on the wire to the verdict: a rendered scoring request with a well-formed
  body, whatever follows it in the buffer, is framed as one request, and both builds answer it
  with the prepared response for the number of frauds of the tree leaf, when the leaf is marked
  safe, or of the nearest-neighbour search otherwise.\<close>

theorem Respond_end_to_end:
  assumes "wf_index ix" "request_ok rq" "doc_ok d" "finite_payload (payload_of d)"
    "Month (timex_Parse (dRequestedAt d)) \<in> {1..12}"
    "length (render_head rq (length (render_body d))) + length (render_body d) < 2 ^ 63"
  shows "\<exists>p v q tr n.
    ParseRequest (render_head rq (length (render_body d)) @ render_body d @ rest) = Some (Inr p) \<and>
    PEnd p = length (render_head rq (length (render_body d)) @ render_body d) \<and>
    Vectorize (payload_of d) = Some v \<and> Quantize v = Some q \<and> Predict q = Some tr \<and>
    n = (if LeafSafeA (LeafID tr) = Some True then Count tr else search_spec ix q) \<and> n \<le> 5 \<and>
    Respond amd64 ix p = Some (scores ! n) \<and> Respond portable ix p = Some (scores ! n)"
  using Respond_rendered [OF assms, of rest] by blast

text \<open>A decision of \<open>ParseRequest\<close> is final: once it has framed a request, rejected it, or
  panicked, bytes that arrive later do not change what it returns.\<close>

theorem ParseRequest_stable:
  assumes "ParseRequest b \<noteq> Some (Inl ErrIncomplete)"
  shows "ParseRequest (b @ t) = ParseRequest b"
  using assms by (rule ParseRequest_append)

text \<open>Every response is framed the way the parser of requests frames bodies: its declared content
  length is the number of bytes after its header; and the six verdicts are the JSON documents of
  $n$ frauds out of five, approved below three.\<close>

theorem responses_framed:
  "scores = map (\<lambda>n. (if n < 3 then approvedHdr else deniedHdr) @ score_text n) [0..<6] \<and>
   list_all framed_ok (ReadyResp # NotFoundResp # BadResp # scores)"
proof -
  have "list_all framed_ok scores"
    by (simp add: scores_def framed_approved framed_denied)
  then show ?thesis using framed_ready framed_notfound framed_bad scores_text by simp
qed

text \<open>(C39) A declared content length between $2^{63}$ and $2^{64}$ wraps to a negative total, passes
  the completeness check and makes the slice expression panic.\<close>

theorem ParseRequest_overflows:
  assumes "request_ok rq" "2 ^ 63 \<le> n" "n < 2 ^ 64" "length (render_head rq n) < 2 ^ 63"
  shows "ParseRequest (render_head rq n @ s) = None"
  using assms by (rule ParseRequest_overflow)

section \<open>Witnesses\<close>

definition rq_ex :: request where
  "rq_ex = \<lparr>rqLine = ''POST /fraud-score HTTP/1.1'', rqBefore = [''Host: localhost''], rqName = ''Content-Length:'',
     rqBlanks = '' '', rqAfter = [''Accept: */*'']\<rparr>"

lemma rq_ok_ex: "request_ok rq_ex"
  by (simp add: request_ok_def rq_ex_def HasPrefix_def framed_eval)

definition doc_small :: doc where
  "doc_small = doc_ex\<lparr>dAmount := ''120'', dAvg := ''60'', dMerchantAvg := ''80'', dKmHome := ''7'', dLast := None\<rparr>"

lemma plainF32_small: "plainF32 ''120'' = Fin 120" "plainF32 ''60'' = Fin 60" "plainF32 ''80'' = Fin 80" "plainF32 ''7'' = Fin 7"
  using round32_int [of 120] round32_int [of 60] round32_int [of 80] round32_int [of 7] round32_int [of 0] round32_int [of 1]
  by (simp_all add: plainF32_def isSign_def accDigits_def byte_sub_def u64_def)

lemma doc_small_ok: "doc_ok doc_small" "finite_payload (payload_of doc_small)"
  "Month (timex_Parse (dRequestedAt doc_small)) = 3"
  by (simp_all add: doc_small_def doc_ex_def doc_ok_def plain_number_def isSign_def isDigit_def unquoted_def
      finite_payload_def payload_of_def plainF32_small timex_Parse_def Stamp0_def dig_def byte_sub_def u32_def)


lemma length_body_small: "length (render_body doc_small) < 1000"
  by (simp add: doc_small_def doc_ex_def render_body_def body_fields_def tx_fields_def cust_fields_def mer_fields_def
      term_fields_def last_text_def known_text_def text_of_def braces_def field_def quote_def bool_text_def dec.simps)

lemma length_head_ex: "length (render_head rq_ex n) < 1000 + length (dec n)"
  by (simp add: render_head_def head_lines_def rq_ex_def lines_text_def crlf_def)

lemma length_dec: "length (dec n) \<le> Suc n"
proof (induction n rule: dec.induct)
  case (1 n)
  show ?case
  proof (cases "n < 10")
    case False
    then show ?thesis using 1 by (subst dec.simps) simp
  qed (simp add: dec.simps)
qed

theorem Respond_end_to_end_witness:
  "\<exists>p n. ParseRequest (render_head rq_ex (length (render_body doc_small)) @ render_body doc_small @ []) = Some (Inr p) \<and>
    n \<le> 5 \<and> Respond amd64 ix_far p = Some (scores ! n)"
proof -
  have "length (render_head rq_ex (length (render_body doc_small))) + length (render_body doc_small) < 2 ^ 63"
    using length_body_small length_head_ex [of "length (render_body doc_small)"]
      length_dec [of "length (render_body doc_small)"] by simp
  from Respond_end_to_end [OF wf_far rq_ok_ex doc_small_ok(1,2) _ this, of "[]"] doc_small_ok(3) show ?thesis by auto
qed

theorem ParseRequest_stable_witness:
  "ParseRequest ((''GET /ready HTTP/1.1'' @ crlf @ crlf) @ ''POST'') =
     Some (Inr \<lparr>PM = MethodGetReady, Body = [], PEnd = 23\<rparr>)"
proof -
  have "ParseRequest (''GET /ready HTTP/1.1'' @ crlf @ crlf) = Some (Inr \<lparr>PM = MethodGetReady, Body = [], PEnd = 23\<rparr>)"
    by (simp add: ParseRequest_def HasPrefix_def crlf_def)
  with ParseRequest_stable [of "''GET /ready HTTP/1.1'' @ crlf @ crlf" "''POST''"] show ?thesis by simp
qed

theorem ParseRequest_overflows_witness: "ParseRequest (render_head rq_ex (2 ^ 63) @ []) = None"
proof -
  have "length (dec (2 ^ 63)) = 19" by (simp add: dec.simps)
  then show ?thesis using ParseRequest_overflows [OF rq_ok_ex, of "2 ^ 63" "[]"] length_head_ex [of "2 ^ 63"] by simp
qed

end
