(* ===== verification/Api.thy ===== *)
theory Api
  imports Server "HOL-Library.Sublist"
begin

text \<open>
  The connection handlers of the API process (\<open>cmd/api/main.go\<close>, \<open>cmd/api/conn_linux.go\<close>).
  A connection is the byte stream \<open>inp\<close> that the peer sends before it closes, together with
  the answers the kernel gives to the successive reads and writes: how many bytes it moves, that
  the call was interrupted, or that it failed. A list of answers that has run out stands for a
  call that has not returned yet. Every handler returns the bytes it wrote and how it stands.
\<close>

section \<open>The code\<close>

abbreviation (input) "readBufSize \<equiv> 8192 :: nat"

datatype wr = Room nat | WIntr | WFail

datatype rd = Ready nat | RIntr | RFail

datatype wout = WDone "wr list" | WErr | WWait

fun writeAll :: "bytes \<Rightarrow> wr list \<Rightarrow> bytes \<times> wout" where
  "writeAll p [] = ([], if p = [] then WDone [] else WWait)"
| "writeAll p (w # ws) =
     (if p = [] then ([], WDone (w # ws))
      else case w of
        WIntr \<Rightarrow> writeAll p ws
      | WFail \<Rightarrow> ([], WErr)
      | Room k \<Rightarrow>
          let n = min (Suc k) (length p); r = writeAll (drop n p) ws
          in (take n p @ fst r, snd r))"

text \<open>How a handler stands: still serving with some unread bytes in the buffer, returned (its
  deferred calls close the connection), panicked, or inside a call that has not returned.\<close>

datatype status = Serving bytes "wr list" | Closed | Panicked | Waiting

text \<open>The inner loop, shared by both handlers: answer every complete request in the buffer.\<close>

function drain :: "kernel \<Rightarrow> Index \<Rightarrow> bytes \<Rightarrow> wr list \<Rightarrow> bytes \<times> status" where
  "drain kern ix buf ws =
     (if buf = [] then ([], Serving [] ws)
      else case ParseRequest buf of
        None \<Rightarrow> ([], Panicked)
      | Some (Inl ErrIncomplete) \<Rightarrow> ([], Serving buf ws)
      | Some (Inl ErrBad) \<Rightarrow> ([], Closed)
      | Some (Inr req) \<Rightarrow>
          (case Respond kern ix req of
            None \<Rightarrow> ([], Panicked)
          | Some resp \<Rightarrow>
              (case writeAll resp ws of
                (w, WErr) \<Rightarrow> (w, Closed)
              | (w, WWait) \<Rightarrow> (w, Waiting)
              | (w, WDone ws') \<Rightarrow>
                  let r = drain kern ix (if PEnd req \<ge> length buf then [] else drop (PEnd req) buf) ws'
                  in (w @ fst r, snd r))))"
  by pat_completeness auto
termination
  by (relation "measure (\<lambda>(k, ix, buf, ws). length buf)") (use ParseRequest_bounds in \<open>fastforce+\<close>)

declare drain.simps [simp del]

fun rawLoop :: "kernel \<Rightarrow> Index \<Rightarrow> bytes \<Rightarrow> bytes \<Rightarrow> rd list \<Rightarrow> wr list \<Rightarrow> bytes \<times> status" where
  "rawLoop kern ix buf inp rs ws =
     (case drain kern ix buf ws of
        (w, Serving buf' ws') \<Rightarrow>
          if length buf' = readBufSize then (w, Closed)
          else (case rs of
              [] \<Rightarrow> (w, Waiting)
            | RIntr # rs' \<Rightarrow> let r = rawLoop kern ix buf' inp rs' ws' in (w @ fst r, snd r)
            | RFail # rs' \<Rightarrow> (w, Closed)
            | Ready k # rs' \<Rightarrow>
                let n = min (Suc k) (readBufSize - length buf'); chunk = take n inp
                in if chunk = [] then (w, Closed)
                   else let r = rawLoop kern ix (buf' @ chunk) (drop n inp) rs' ws' in (w @ fst r, snd r))
      | (w, st) \<Rightarrow> (w, st))"

declare rawLoop.simps [simp del]

definition handleRawConn :: "kernel \<Rightarrow> Index \<Rightarrow> bytes \<Rightarrow> bytes \<Rightarrow> rd list \<Rightarrow> wr list \<Rightarrow> bytes \<times> status" where
  "handleRawConn kern ix pre inp rs ws =
     (if pre \<noteq> [] \<and> length pre > readBufSize then ([], Closed)
      else rawLoop kern ix pre inp rs ws)"

text \<open>\<open>net.Conn\<close> retries an interrupted call and writes all of its argument; at the end of the
  stream its \<open>Read\<close> returns \<open>io.EOF\<close>.\<close>

fun connLoop :: "kernel \<Rightarrow> Index \<Rightarrow> bytes \<Rightarrow> bytes \<Rightarrow> rd list \<Rightarrow> wr list \<Rightarrow> bytes \<times> status" where
  "connLoop kern ix buf inp rs ws =
     (if length buf = readBufSize then ([], Closed)
      else case rs of
        [] \<Rightarrow> ([], Waiting)
      | RIntr # rs' \<Rightarrow> connLoop kern ix buf inp rs' ws
      | RFail # rs' \<Rightarrow> ([], Closed)
      | Ready k # rs' \<Rightarrow>
          let n = min (Suc k) (readBufSize - length buf); chunk = take n inp
          in if chunk = [] then ([], Closed)
             else (case drain kern ix (buf @ chunk) ws of
                 (w, Serving buf' ws') \<Rightarrow>
                   let r = connLoop kern ix buf' (drop n inp) rs' ws' in (w @ fst r, snd r)
               | (w, st) \<Rightarrow> (w, st)))"

declare connLoop.simps [simp del]

definition handleConn :: "kernel \<Rightarrow> Index \<Rightarrow> bytes \<Rightarrow> rd list \<Rightarrow> wr list \<Rightarrow> bytes \<times> status" where
  "handleConn kern ix inp rs ws = connLoop kern ix [] inp rs ws"

section \<open>Writing\<close>

lemma writeAll_prefix: "prefix (fst (writeAll p ws)) p"
proof (induction p ws rule: writeAll.induct)
  case (2 p w ws)
  then show ?case by (auto simp: Let_def split: wr.splits) (metis append_take_drop_id same_prefix_prefix)
qed simp

lemma writeAll_done: "writeAll p ws = (w, WDone ws') \<Longrightarrow> w = p"
proof (induction p ws arbitrary: w rule: writeAll.induct)
  case (2 p v ws)
  show ?case
  proof (cases v)
    case (Room k)
    then show ?thesis using 2 by (cases "p = []") (auto simp: Let_def prod_eq_iff)
  qed (use 2 in \<open>auto split: if_splits\<close>)
qed (auto split: if_splits)

section \<open>The answers to a stream\<close>

text \<open>The specification: the responses to the requests of a whole stream, in order, and how the
  stream ends: with an unfinished request, with a request that is rejected, or with one on which
  the handler panics.\<close>

datatype ending = Rest bytes | Rejected | Crash

function answers :: "kernel \<Rightarrow> Index \<Rightarrow> bytes \<Rightarrow> bytes list \<times> ending" where
  "answers kern ix s =
     (if s = [] then ([], Rest [])
      else case ParseRequest s of
        None \<Rightarrow> ([], Crash)
      | Some (Inl ErrIncomplete) \<Rightarrow> ([], Rest s)
      | Some (Inl ErrBad) \<Rightarrow> ([], Rejected)
      | Some (Inr req) \<Rightarrow>
          (case Respond kern ix req of
            None \<Rightarrow> ([], Crash)
          | Some resp \<Rightarrow> map_prod (Cons resp) id (answers kern ix (drop (PEnd req) s))))"
  by pat_completeness auto
termination
  by (relation "measure (\<lambda>(k, ix, s). length s)") (use ParseRequest_bounds in \<open>fastforce+\<close>)

declare answers.simps [simp del]

lemma ParseRequest_Nil [simp]: "ParseRequest [] = Some (Inl ErrIncomplete)"
  by (simp add: ParseRequest_def)

lemma answers_unfold:
  "answers kern ix s =
     (case ParseRequest s of
        None \<Rightarrow> ([], Crash)
      | Some (Inl ErrIncomplete) \<Rightarrow> ([], Rest s)
      | Some (Inl ErrBad) \<Rightarrow> ([], Rejected)
      | Some (Inr req) \<Rightarrow>
          (case Respond kern ix req of
            None \<Rightarrow> ([], Crash)
          | Some resp \<Rightarrow> map_prod (Cons resp) id (answers kern ix (drop (PEnd req) s))))"
  by (cases "s = []") (simp_all add: answers.simps [of kern ix s] answers.simps [of kern ix "[]"])

lemma parse_cases:
  obtains (Panic) "ParseRequest s = None"
  | (Incomplete) "ParseRequest s = Some (Inl ErrIncomplete)"
  | (Bad) "ParseRequest s = Some (Inl ErrBad)"
  | (Request) req where "ParseRequest s = Some (Inr req)" "0 < PEnd req" "PEnd req \<le> length s"
proof (cases "ParseRequest s")
  case (Some r)
  show thesis
  proof (cases r)
    case (Inl e)
    then show thesis using Some Incomplete Bad by (cases e) simp_all
  next
    case (Inr req)
    then show thesis using Some Request [of req] ParseRequest_bounds [of s req] by simp
  qed
qed (rule Panic)

text \<open>A stream may be cut anywhere: what is left unfinished before the cut is taken up after it.\<close>

lemma answers_append:
  "answers kern ix (s @ t) =
     (case answers kern ix s of
        (rs, Rest b) \<Rightarrow> map_prod ((@) rs) id (answers kern ix (b @ t))
      | (rs, e) \<Rightarrow> (rs, e))"
proof (induction "length s" arbitrary: s rule: less_induct)
  case less
  show ?case
  proof (cases s rule: parse_cases)
    case Panic
    then have "ParseRequest (s @ t) = None" using ParseRequest_append by simp
    then show ?thesis using Panic by (simp add: answers_unfold [of kern ix s] answers_unfold [of kern ix "s @ t"])
  next
    case Incomplete
    then show ?thesis by (simp add: answers_unfold [of kern ix s] prod_eq_iff)
  next
    case Bad
    then have "ParseRequest (s @ t) = Some (Inl ErrBad)" using ParseRequest_append by simp
    then show ?thesis using Bad by (simp add: answers_unfold [of kern ix s] answers_unfold [of kern ix "s @ t"])
  next
    case (Request req)
    then have st: "ParseRequest (s @ t) = Some (Inr req)" using ParseRequest_append by simp
    have "answers kern ix (drop (PEnd req) s @ t) =
        (case answers kern ix (drop (PEnd req) s) of
          (rs, Rest b) \<Rightarrow> map_prod ((@) rs) id (answers kern ix (b @ t)) | (rs, e) \<Rightarrow> (rs, e))"
      using Request by (intro less) simp
    then show ?thesis
      using Request st
      by (auto simp: answers_unfold [of kern ix s] answers_unfold [of kern ix "s @ t"] map_prod_def
          split: option.split prod.split ending.split)
  qed
qed

lemma drain_unfold:
  "drain kern ix buf ws =
     (case ParseRequest buf of
        None \<Rightarrow> ([], Panicked)
      | Some (Inl ErrIncomplete) \<Rightarrow> ([], Serving buf ws)
      | Some (Inl ErrBad) \<Rightarrow> ([], Closed)
      | Some (Inr req) \<Rightarrow>
          (case Respond kern ix req of
            None \<Rightarrow> ([], Panicked)
          | Some resp \<Rightarrow>
              (case writeAll resp ws of
                (w, WErr) \<Rightarrow> (w, Closed)
              | (w, WWait) \<Rightarrow> (w, Waiting)
              | (w, WDone ws') \<Rightarrow>
                  let r = drain kern ix (drop (PEnd req) buf) ws' in (w @ fst r, snd r))))"
proof (cases "buf = []")
  case False
  have d: "(if n \<ge> length buf then [] else drop n buf) = drop n buf" for n by simp
  show ?thesis using False by (simp only: drain.simps [of kern ix buf] d if_False)
qed (simp add: drain.simps [of kern ix "[]"])

lemma drain_prefix:
  "prefix (fst (drain kern ix buf ws)) (concat (fst (answers kern ix buf))) \<and>
   (\<forall>b ws'. snd (drain kern ix buf ws) = Serving b ws' \<longrightarrow>
      fst (drain kern ix buf ws) = concat (fst (answers kern ix buf)) \<and> snd (answers kern ix buf) = Rest b)"
proof (induction "length buf" arbitrary: buf ws rule: less_induct)
  case less
  show ?case
  proof (cases buf rule: parse_cases)
    case (Request req)
    show ?thesis
    proof (cases "Respond kern ix req")
      case (Some resp)
      let ?d = "drop (PEnd req) buf"
      have a: "answers kern ix buf = map_prod (Cons resp) id (answers kern ix ?d)"
        using Request(1) Some by (simp add: answers_unfold [of kern ix buf])
      obtain w o' where w: "writeAll resp ws = (w, o')" by force
      show ?thesis
      proof (cases o')
        case (WDone ws')
        then have "w = resp" using w writeAll_done by blast
        moreover have "drain kern ix buf ws = (w @ fst (drain kern ix ?d ws'), snd (drain kern ix ?d ws'))"
          using Request(1) Some w WDone by (simp add: drain_unfold [of kern ix buf] Let_def)
        moreover have "length ?d < length buf" using Request by simp
        note less [OF this, of ws']
        ultimately show ?thesis by (simp add: a)
      next
        case WErr
        then show ?thesis using Request(1) Some w writeAll_prefix [of resp ws]
          by (simp add: drain_unfold [of kern ix buf] a prefix_prefix)
      next
        case WWait
        then show ?thesis using Request(1) Some w writeAll_prefix [of resp ws]
          by (simp add: drain_unfold [of kern ix buf] a prefix_prefix)
      qed
    qed (use Request in \<open>simp add: drain_unfold [of kern ix buf]\<close>)
  qed (simp_all add: drain_unfold [of kern ix buf] answers_unfold [of kern ix buf])
qed

lemma answers_mono: "prefix (concat (fst (answers kern ix s))) (concat (fst (answers kern ix (s @ t))))"
  unfolding answers_append [of kern ix s t] by (auto split: prod.split ending.split)

lemma drain_Serving:
  assumes "drain kern ix buf ws = (w, Serving b ws')"
  shows "\<And>t. answers kern ix (buf @ t) = map_prod ((@) (fst (answers kern ix buf))) id (answers kern ix (b @ t))"
    "w = concat (fst (answers kern ix buf))" "snd (answers kern ix buf) = Rest b"
proof -
  show w: "w = concat (fst (answers kern ix buf))" and b: "snd (answers kern ix buf) = Rest b"
    using drain_prefix [of kern ix buf ws] assms by simp_all
  show "answers kern ix (buf @ t) = map_prod ((@) (fst (answers kern ix buf))) id (answers kern ix (b @ t))" for t
    using answers_append [of kern ix buf t] b by (cases "answers kern ix buf") simp
qed

lemma drain_output: "prefix (fst (drain kern ix buf ws)) (concat (fst (answers kern ix (buf @ t))))"
  using drain_prefix [of kern ix buf ws] answers_mono [of kern ix buf t] prefix_order.trans by blast

lemma rawLoop_prefix: "prefix (fst (rawLoop kern ix buf inp rs ws)) (concat (fst (answers kern ix (buf @ inp))))"
proof (induction rs arbitrary: buf inp ws)
  case Nil
  show ?case using drain_output [of kern ix buf ws inp]
    by (auto simp: rawLoop.simps [of kern ix buf inp "[]"] split: prod.splits status.splits)
next
  case (Cons r rs)
  obtain w st where d: "drain kern ix buf ws = (w, st)" by force
  note out = drain_output [of kern ix buf ws inp, unfolded d]
  show ?case
  proof (cases st)
    case (Serving b ws')
    note sv = drain_Serving [OF d [unfolded Serving]]
    have go: "prefix (w @ fst (rawLoop kern ix (b @ take n inp) (drop n inp) rs ws')) (concat (fst (answers kern ix (buf @ inp))))"
      for n using Cons [of "b @ take n inp" "drop n inp" ws'] sv by simp
    show ?thesis using go [of 0] go out
      by (auto simp: rawLoop.simps [of kern ix buf inp "r # rs"] d Serving Let_def split: rd.split)
  qed (use out in \<open>simp_all add: rawLoop.simps [of kern ix buf inp "r # rs"] d\<close>)
qed

section \<open>A benign schedule\<close>

definition rooms :: "wr list \<Rightarrow> nat" where
  "rooms ws = length (filter (\<lambda>w. w \<noteq> WIntr) ws)"

definition readies :: "rd list \<Rightarrow> nat" where
  "readies rs = length (filter (\<lambda>r. r \<noteq> RIntr) rs)"

lemma writeAll_ok:
  assumes "WFail \<notin> set ws" "length p \<le> rooms ws"
  shows "\<exists>ws'. writeAll p ws = (p, WDone ws') \<and> WFail \<notin> set ws' \<and> rooms ws \<le> rooms ws' + length p"
  using assms
proof (induction p ws rule: writeAll.induct)
  case (2 p w ws)
  show ?case
  proof (cases w)
    case (Room k)
    show ?thesis
    proof (cases "p = []")
      case False
      define n where "n = min (Suc k) (length p)"
      have n: "0 < n" "n \<le> length p" using False by (simp_all add: n_def)
      have "length (drop n p) \<le> rooms ws" using 2(4) n Room by (simp add: rooms_def)
      then obtain ws' where "writeAll (drop n p) ws = (drop n p, WDone ws')" "WFail \<notin> set ws'"
          "rooms ws \<le> rooms ws' + length (drop n p)"
        using 2(1) [OF False Room n_def] 2(3) by auto
      moreover from this(3) have "rooms (Room k # ws) \<le> rooms ws' + length p" using n by (simp add: rooms_def)
      ultimately show ?thesis using False Room by (simp add: Let_def n_def [symmetric])
    qed (use 2 in simp)
  qed (use 2 in \<open>auto simp: rooms_def\<close>)
qed (simp add: rooms_def)

definition settle :: "ending \<Rightarrow> wr list \<Rightarrow> status" where
  "settle e ws = (case e of Rest b \<Rightarrow> Serving b ws | Rejected \<Rightarrow> Closed | Crash \<Rightarrow> Panicked)"

lemma drain_ok:
  assumes "WFail \<notin> set ws" "length (concat (fst (answers kern ix buf))) \<le> rooms ws"
  shows "\<exists>ws'. drain kern ix buf ws = (concat (fst (answers kern ix buf)), settle (snd (answers kern ix buf)) ws') \<and>
    WFail \<notin> set ws' \<and> rooms ws \<le> rooms ws' + length (concat (fst (answers kern ix buf)))"
  using assms
proof (induction "length buf" arbitrary: buf ws rule: less_induct)
  case less
  show ?case
  proof (cases buf rule: parse_cases)
    case (Request req)
    show ?thesis
    proof (cases "Respond kern ix req")
      case None
      then show ?thesis using Request less.prems
        by (auto simp: drain_unfold [of kern ix buf] answers_unfold [of kern ix buf] settle_def)
    next
      case (Some resp)
      let ?d = "drop (PEnd req) buf"
      have a: "answers kern ix buf = map_prod (Cons resp) id (answers kern ix ?d)"
        using Request(1) Some by (simp add: answers_unfold [of kern ix buf])
      obtain ws1 where w: "writeAll resp ws = (resp, WDone ws1)" "WFail \<notin> set ws1" "rooms ws \<le> rooms ws1 + length resp"
        using writeAll_ok [of ws resp] less.prems by (auto simp: a)
      have "length ?d < length buf" using Request(2,3) by simp
      with w obtain ws2 where "drain kern ix ?d ws1 = (concat (fst (answers kern ix ?d)), settle (snd (answers kern ix ?d)) ws2)"
          "WFail \<notin> set ws2" "rooms ws1 \<le> rooms ws2 + length (concat (fst (answers kern ix ?d)))"
        using less.hyps [of ?d ws1] less.prems by (auto simp: a)
      then show ?thesis using Request(1) Some w
        by (intro exI [of _ ws2]) (simp add: drain_unfold [of kern ix buf] a Let_def)
    qed
  qed (use less.prems in \<open>auto simp: drain_unfold [of kern ix buf] answers_unfold [of kern ix buf] settle_def\<close>)
qed


text \<open>At every request of the stream, the buffer of the handler suffices to decide it.\<close>

function fits :: "kernel \<Rightarrow> Index \<Rightarrow> bytes \<Rightarrow> bool" where
  "fits kern ix s \<longleftrightarrow>
     (length s < readBufSize \<or> ParseRequest (take readBufSize s) \<noteq> Some (Inl ErrIncomplete)) \<and>
     (case ParseRequest s of
        Some (Inr req) \<Rightarrow> Respond kern ix req \<noteq> None \<longrightarrow> fits kern ix (drop (PEnd req) s)
      | _ \<Rightarrow> True)"
  by pat_completeness auto
termination
  by (relation "measure (\<lambda>(k, ix, s). length s)")
    (use ParseRequest_bounds in \<open>auto simp: ParseRequest_Nil, fastforce\<close>)

declare fits.simps [simp del]

lemma answers_Rest:
  assumes "snd (answers kern ix s) = Rest b"
  shows "length b \<le> length s \<and> ParseRequest b = Some (Inl ErrIncomplete) \<and> (fits kern ix (s @ t) \<longrightarrow> fits kern ix (b @ t))"
  using assms
proof (induction "length s" arbitrary: s rule: less_induct)
  case less
  show ?case
  proof (cases s rule: parse_cases)
    case (Request req)
    then obtain resp where resp: "Respond kern ix req = Some resp"
      using less.prems by (cases "Respond kern ix req") (simp_all add: answers_unfold [of kern ix s])
    let ?d = "drop (PEnd req) s"
    have "answers kern ix s = map_prod (Cons resp) id (answers kern ix ?d)"
      using Request(1) resp by (simp add: answers_unfold [of kern ix s])
    moreover have "length ?d < length s" using Request(2,3) by simp
    ultimately have "length b \<le> length ?d \<and> ParseRequest b = Some (Inl ErrIncomplete) \<and> (fits kern ix (?d @ t) \<longrightarrow> fits kern ix (b @ t))"
      using less.hyps [of ?d] less.prems by simp
    moreover have "fits kern ix (?d @ t)" if "fits kern ix (s @ t)"
    proof -
      have "ParseRequest (s @ t) = Some (Inr req)" using ParseRequest_append Request(1) by simp
      then show ?thesis using that resp Request(3) by (simp add: fits.simps [of kern ix "s @ t"])
    qed
    ultimately show ?thesis by auto
  qed (use less.prems in \<open>simp_all add: answers_unfold [of kern ix s]\<close>)
qed

lemma fits_not_full:
  assumes "fits kern ix (b @ t)" "ParseRequest b = Some (Inl ErrIncomplete)"
  shows "length b \<noteq> readBufSize"
proof
  assume "length b = readBufSize"
  then have "take readBufSize (b @ t) = b" by simp
  then show False using assms \<open>length b = readBufSize\<close> by (simp add: fits.simps [of kern ix "b @ t"])
qed

definition final :: "ending \<Rightarrow> status" where
  "final e = (if e = Crash then Panicked else Closed)"

lemma rawLoop_step:
  assumes "drain kern ix buf ws = (w, Serving b ws')" "length b \<noteq> readBufSize"
  shows "rawLoop kern ix buf inp (RIntr # rs) ws =
      (w @ fst (rawLoop kern ix b inp rs ws'), snd (rawLoop kern ix b inp rs ws'))"
    "rawLoop kern ix buf [] (Ready k # rs) ws = (w, Closed)"
    "n = min (Suc k) (readBufSize - length b) \<Longrightarrow> take n inp \<noteq> [] \<Longrightarrow>
      rawLoop kern ix buf inp (Ready k # rs) ws =
      (w @ fst (rawLoop kern ix (b @ take n inp) (drop n inp) rs ws'), snd (rawLoop kern ix (b @ take n inp) (drop n inp) rs ws'))"
  using assms by (auto simp: rawLoop.simps [of kern ix buf] Let_def min_def split: if_splits)

text \<open>One read in a complete run: the handler holds the unfinished request \<open>b\<close>, and what follows is known by
  induction for the shorter schedule.\<close>

lemma rawLoop_read:
  assumes "drain kern ix buf ws = (w, Serving b ws')" "length b \<noteq> readBufSize" "length b \<le> readBufSize"
    "answers kern ix b = ([], Rest b)" "RFail \<noteq> r" "length inp < readies (r # rs)"
    "\<And>b' inp'. b' @ inp' = b @ inp \<Longrightarrow> length b' \<le> readBufSize \<Longrightarrow> length inp' < readies rs \<Longrightarrow>
       rawLoop kern ix b' inp' rs ws' = (concat (fst (answers kern ix (b @ inp))), final (snd (answers kern ix (b @ inp))))"
  shows "rawLoop kern ix buf inp (r # rs) ws =
    (w @ concat (fst (answers kern ix (b @ inp))), final (snd (answers kern ix (b @ inp))))"
proof (cases r)
  case (Ready k)
  define n where "n = min (Suc k) (readBufSize - length b)"
  show ?thesis
  proof (cases "inp = []")
    case True
    then show ?thesis using rawLoop_step(2) [OF assms(1,2)] assms(4) by (simp add: Ready final_def)
  next
    case False
    have n: "0 < n" "n \<le> readBufSize - length b" using assms(2,3) by (simp_all add: n_def)
    then have t: "take n inp \<noteq> []" using False by simp
    have "0 < length inp" using False by simp
    then have "length (drop n inp) < readies rs"
      using assms(6) n by (simp add: readies_def Ready del: length_greater_0_conv)
    then have ih: "rawLoop kern ix (b @ take n inp) (drop n inp) rs ws' =
        (concat (fst (answers kern ix (b @ inp))), final (snd (answers kern ix (b @ inp))))"
      using n assms(3) by (intro assms(7)) simp_all
    show ?thesis using rawLoop_step(3) [OF assms(1,2) n_def t, of rs] by (simp add: ih Ready)
  qed
next
  case RIntr
  have ih: "rawLoop kern ix b inp rs ws' =
      (concat (fst (answers kern ix (b @ inp))), final (snd (answers kern ix (b @ inp))))"
    using assms(3,6) by (intro assms(7)) (simp_all add: readies_def RIntr)
  show ?thesis using rawLoop_step(1) [OF assms(1,2), of inp rs] by (simp add: ih RIntr)
qed (use assms(5) in simp)

lemma rawLoop_complete:
  assumes "RFail \<notin> set rs" "WFail \<notin> set ws" "length inp < readies rs"
    "length (concat (fst (answers kern ix (buf @ inp)))) \<le> rooms ws"
    "fits kern ix (buf @ inp)" "length buf \<le> readBufSize"
  shows "rawLoop kern ix buf inp rs ws =
    (concat (fst (answers kern ix (buf @ inp))), final (snd (answers kern ix (buf @ inp))))"
  using assms
proof (induction rs arbitrary: buf inp ws)
  case (Cons r rs)
  let ?a = "answers kern ix buf"
  have "length (concat (fst ?a)) \<le> rooms ws"
    using answers_mono [of kern ix buf inp] prefix_length_le Cons.prems(4) by (meson le_trans)
  then obtain ws' where d: "drain kern ix buf ws = (concat (fst ?a), settle (snd ?a) ws')" "WFail \<notin> set ws'"
      "rooms ws \<le> rooms ws' + length (concat (fst ?a))"
    using drain_ok [OF Cons.prems(2)] by blast
  show ?case
  proof (cases "snd ?a")
    case (Rest b)
    have b: "length b \<le> length buf" "ParseRequest b = Some (Inl ErrIncomplete)" "fits kern ix (b @ inp)"
      using answers_Rest [OF Rest, of inp] Cons.prems(5) by auto
    note nf = fits_not_full [OF b(3,2)]
    have sv: "drain kern ix buf ws = (concat (fst ?a), Serving b ws')" using d(1) Rest by (simp add: settle_def)
    have app: "answers kern ix (buf @ inp) = map_prod ((@) (fst ?a)) id (answers kern ix (b @ inp))"
      by (rule drain_Serving(1) [OF sv])
    have room: "length (concat (fst (answers kern ix (b @ inp)))) \<le> rooms ws'"
      using Cons.prems(4) d(3) by (simp add: app)
    have "answers kern ix b = ([], Rest b)" using b(2) by (simp add: answers_unfold [of kern ix b])
    moreover have "rawLoop kern ix b' inp' rs ws' =
        (concat (fst (answers kern ix (b @ inp))), final (snd (answers kern ix (b @ inp))))"
      if "b' @ inp' = b @ inp" "length b' \<le> readBufSize" "length inp' < readies rs" for b' inp'
      using Cons.IH [of ws' inp' b'] Cons.prems(1) b(3) d(2) room that by simp
    ultimately have "rawLoop kern ix buf inp (r # rs) ws =
        (concat (fst ?a) @ concat (fst (answers kern ix (b @ inp))), final (snd (answers kern ix (b @ inp))))"
      using b(1) Cons.prems(1,3,6) nf by (intro rawLoop_read [OF sv]) auto
    then show ?thesis by (simp add: app)
  next
    case Rejected
    then show ?thesis using d(1) answers_append [of kern ix buf inp]
      by (cases ?a) (simp add: rawLoop.simps [of kern ix buf] settle_def final_def)
  next
    case Crash
    then show ?thesis using d(1) answers_append [of kern ix buf inp]
      by (cases ?a) (simp add: rawLoop.simps [of kern ix buf] settle_def final_def)
  qed
qed (simp add: readies_def)


section \<open>The two handlers agree\<close>

lemma drain_again:
  "drain kern ix buf ws = (w, Serving b ws') \<Longrightarrow> drain kern ix b ws' = ([], Serving b ws')"
  using answers_Rest [OF drain_Serving(3)] by (simp add: drain_unfold [of kern ix b])

lemma rawLoop_drain:
  "rawLoop kern ix buf inp rs ws =
     (case drain kern ix buf ws of
        (w, Serving b ws') \<Rightarrow> (w @ fst (rawLoop kern ix b inp rs ws'), snd (rawLoop kern ix b inp rs ws'))
      | (w, st) \<Rightarrow> (w, st))"
proof -
  obtain w st where d: "drain kern ix buf ws = (w, st)" by force
  show ?thesis
  proof (cases st)
    case (Serving b ws')
    show ?thesis
      by (simp add: rawLoop.simps [of kern ix buf] rawLoop.simps [of kern ix b inp rs ws'] d Serving
          drain_again [OF d [unfolded Serving]] Let_def split: list.split rd.split) (auto simp: min_def)
  qed (simp_all add: rawLoop.simps [of kern ix buf] d)
qed

lemma connLoop_rawLoop:
  "ParseRequest buf = Some (Inl ErrIncomplete) \<Longrightarrow> connLoop kern ix buf inp rs ws = rawLoop kern ix buf inp rs ws"
proof (induction rs arbitrary: buf inp ws)
  case Nil
  then show ?case by (simp add: rawLoop.simps [of kern ix buf] connLoop.simps [of kern ix buf] drain_unfold [of kern ix buf])
next
  case (Cons r rs)
  have d: "drain kern ix buf ws = ([], Serving buf ws)" using Cons.prems by (simp add: drain_unfold [of kern ix buf])
  show ?case
  proof (cases r)
    case (Ready k)
    define n where "n = min (Suc k) (readBufSize - length buf)"
    have c: "connLoop kern ix b t rs ws' = rawLoop kern ix b t rs ws'"
      if "drain kern ix s ws = (w, Serving b ws')" for s b t w ws'
      using answers_Rest [OF drain_Serving(3) [OF that]] by (intro Cons.IH) simp
    show ?thesis
      by (simp add: Ready rawLoop.simps [of kern ix buf] connLoop.simps [of kern ix buf] d Let_def n_def [symmetric])
        (auto simp: c rawLoop_drain [of kern ix "buf @ take n inp"] split: prod.split status.split)
  next
    case RIntr
    then show ?thesis using Cons
      by (simp add: rawLoop.simps [of kern ix buf inp "RIntr # rs"] connLoop.simps [of kern ix buf inp "RIntr # rs"] d Let_def)
  qed (simp add: rawLoop.simps [of kern ix buf] connLoop.simps [of kern ix buf] d)
qed

lemma handleConn_raw: "handleConn kern ix inp rs ws = handleRawConn kern ix [] inp rs ws"
  by (simp add: handleConn_def handleRawConn_def connLoop_rawLoop)

section \<open>A pipeline of scoring requests\<close>

definition job_text :: "request \<times> doc \<Rightarrow> bytes" where
  "job_text j = render_head (fst j) (length (render_body (snd j))) @ render_body (snd j)"

definition job_ok :: "request \<times> doc \<Rightarrow> bool" where
  "job_ok j \<longleftrightarrow> request_ok (fst j) \<and> doc_ok (snd j) \<and> finite_payload (payload_of (snd j)) \<and>
     Month (timex_Parse (dRequestedAt (snd j))) \<in> {1..12} \<and> length (job_text j) \<le> readBufSize"

definition verdict :: "Index \<Rightarrow> doc \<Rightarrow> nat" where
  "verdict ix d =
     (let q = the (Quantize (the (Vectorize (payload_of d)))); tr = the (Predict q)
      in if LeafSafeA (LeafID tr) = Some True then Count tr else search_spec ix q)"

context kernel_spec
begin

lemma job_answer:
  assumes "wf_index ix" "job_ok j"
  shows "\<exists>p. ParseRequest (job_text j @ t) = Some (Inr p) \<and> PEnd p = length (job_text j) \<and>
    Respond kern ix p = Some (scores ! verdict ix (snd j)) \<and> verdict ix (snd j) \<le> 5"
proof -
  let ?d = "snd j" and ?b = "render_body (snd j)"
  let ?p = "\<lparr>PM = MethodPostScore, Body = ?b, PEnd = length (job_text j)\<rparr>"
  have j: "request_ok (fst j)" "doc_ok ?d" "finite_payload (payload_of ?d)" "length (job_text j) \<le> readBufSize"
    "Month (timex_Parse (RequestedAt (payload_of ?d))) \<in> {1..12}"
    using assms(2) by (simp_all add: job_ok_def payload_of_def)
  have "ParseRequest (job_text j @ t) = Some (Inr ?p)"
    using ParseRequest_rendered [OF j(1), of ?b t] j(4) by (simp add: job_text_def)
  moreover have parse: "Parse (Body ?p) = Some (Inr (payload_of ?d))" using Parse_body [OF j(2), of "[]"] by simp
  moreover have "payload_ok (payload_of ?d)" using Parse_keeps_ok [OF parse] by (simp add: payload_ok_def)
  from Respond_spec [OF assms(1) j(3) this j(5) _ parse]
  have "Respond kern ix ?p = Some (scores ! verdict ix ?d) \<and> verdict ix ?d \<le> 5" by (auto simp: verdict_def Let_def)
  ultimately show ?thesis by (intro exI [of _ ?p]) simp
qed

lemma jobs_answers:
  assumes "wf_index ix" "list_all job_ok js"
  shows "answers kern ix (concat (map job_text js)) = (map (\<lambda>j. scores ! verdict ix (snd j)) js, Rest [])"
  using assms(2)
proof (induction js)
  case (Cons j js)
  then obtain p where "ParseRequest (job_text j @ concat (map job_text js)) = Some (Inr p)"
      "PEnd p = length (job_text j)" "Respond kern ix p = Some (scores ! verdict ix (snd j))"
    using job_answer [OF assms(1), of j "concat (map job_text js)"] by auto
  then show ?case using Cons by (simp add: answers_unfold [of kern ix "job_text j @ _"])
qed (simp add: answers_unfold [of kern ix "[]"])

lemma jobs_fit:
  assumes "wf_index ix" "list_all job_ok js"
  shows "fits kern ix (concat (map job_text js))"
  using assms(2)
proof (induction js)
  case (Cons j js)
  let ?t = "concat (map job_text js)"
  obtain p where p: "ParseRequest (job_text j @ ?t) = Some (Inr p)" "PEnd p = length (job_text j)"
    using job_answer [OF assms(1), of j ?t] Cons.prems by auto
  have "length (job_text j) \<le> readBufSize" using Cons.prems by (simp add: job_ok_def)
  then have "take readBufSize (job_text j @ ?t) = job_text j @ take (readBufSize - length (job_text j)) ?t" by simp
  then have "ParseRequest (take readBufSize (job_text j @ ?t)) \<noteq> Some (Inl ErrIncomplete)"
    using job_answer [OF assms(1), of j "take (readBufSize - length (job_text j)) ?t"] Cons.prems by auto
  then show ?case using Cons p by (simp add: fits.simps [of kern ix "job_text j @ ?t"])
qed (simp add: fits.simps [of kern ix "[]"])

lemma pipeline:
  assumes "wf_index ix" "list_all job_ok js" "pre @ inp = concat (map job_text js)" "length pre \<le> readBufSize"
    "RFail \<notin> set rs" "WFail \<notin> set ws" "length inp < readies rs"
    "length (concat (map (\<lambda>j. scores ! verdict ix (snd j)) js)) \<le> rooms ws"
  shows "handleRawConn kern ix pre inp rs ws = (concat (map (\<lambda>j. scores ! verdict ix (snd j)) js), Closed)"
  using rawLoop_complete [OF assms(5-7), of kern ix pre] jobs_answers [OF assms(1,2)] jobs_fit [OF assms(1,2)] assms(3,4,8)
  by (simp add: handleRawConn_def final_def)

end

section \<open>Properties\<close>

text \<open>Order and integrity of the output: whatever the kernel answers, in whatever pieces the stream
  arrives, and however the connection ends, the bytes a handler has written are a prefix of the
  responses to the requests of the stream, in the order of the requests.\<close>

theorem handleRawConn_in_order:
  "prefix (fst (handleRawConn kern ix pre inp rs ws)) (concat (fst (answers kern ix (pre @ inp))))"
  using rawLoop_prefix [of kern ix pre inp rs ws] by (simp add: handleRawConn_def)


text \<open>(C31) The two connection handlers, the one on \<open>net.Conn\<close> and the one on raw descriptors, behave
  alike on every stream and every schedule when nothing was read beforehand.\<close>

theorem handlers_agree: "handleConn kern ix inp rs ws = handleRawConn kern ix [] inp rs ws"
  by (rule handleConn_raw)

section \<open>Witnesses\<close>

definition ready_text :: bytes where
  "ready_text = ''GET /ready HTTP/1.1'' @ crlf @ crlf"

lemma ParseRequest_ready: "ParseRequest ready_text = Some (Inr \<lparr>PM = MethodGetReady, Body = [], PEnd = length ready_text\<rparr>)"
  by (simp add: ready_text_def ParseRequest_def HasPrefix_def crlf_def)

lemma ready_answers: "answers kern ix ready_text = ([ReadyResp], Rest [])" "fits kern ix ready_text"
proof -
  show "answers kern ix ready_text = ([ReadyResp], Rest [])"
    by (simp add: answers_unfold [of kern ix ready_text] ParseRequest_ready Respond_def answers_unfold [of kern ix "[]"])
  have "length ready_text < readBufSize" by (simp add: ready_text_def crlf_def)
  then show "fits kern ix ready_text"
    by (simp add: fits.simps [of kern ix ready_text] ParseRequest_ready fits.simps [of kern ix "[]"])
qed


lemma job_ok_ex: "job_ok (rq_ex, doc_small)"
proof -
  have "length (job_text (rq_ex, doc_small)) \<le> readBufSize"
    using length_body_small length_head_ex [of "length (render_body doc_small)"]
      length_dec [of "length (render_body doc_small)"] by (simp add: job_text_def)
  then show ?thesis using rq_ok_ex doc_small_ok by (simp add: job_ok_def)
qed

end
