(* ===== verification/Pool.thy ===== *)
theory Pool
  imports Api
begin

text \<open>
  Many connection handlers at once. Handlers run in goroutines and take their read buffer and their payload
  object from two \<open>sync.Pool\<close>s (\<open>bufPool\<close>, \<open>payloadPool\<close> of \<open>cmd/api/main.go\<close>), which hand out
  objects that earlier connections have filled and given back. The objects live in a shared store
  and the steps of all handlers interleave. A pool is a multiset: what is put twice is in it twice, and two
  goroutines can then get it. What a handler gives back is what its \<open>defer\<close> statements say; each deferred call
  runs on its own after the body has returned.

  The locale \<open>pooled_handler\<close> is the contract of a handler: an invariant over its own state and its own two
  objects, kept by its own steps from a dirty start on. It gives the invariant for every handler
  of every reachable state, and that no object is ever with two handlers or with one and in the pool.
\<close>

section \<open>Many handlers\<close>

text \<open>A deferred call of a handler.\<close>

datatype deferred_call = PutB nat | PutP nat

text \<open>The store of all buffers and payloads, the objects lying in the two pools, the running handlers with
  the objects they hold, those whose body has returned, the deferred calls of each handler that have not run yet,
  and whether the process still lives: a panic in any goroutine ends it.\<close>

record ('a, 'g) world =
  wBuf :: "nat \<Rightarrow> bytes"
  wPay :: "nat \<Rightarrow> Payload"
  freeB :: "nat multiset"
  freeP :: "nat multiset"
  newB :: nat
  newP :: nat
  running :: "nat \<Rightarrow> ('a \<times> nat \<times> nat \<times> 'g) option"
  finished :: "nat \<Rightarrow> ('a \<times> 'g) option"
  defers :: "nat \<Rightarrow> deferred_call list"
  alive :: bool

definition world0 :: "('a, 'g) world" where
  "world0 = \<lparr>wBuf = (\<lambda>_. []), wPay = (\<lambda>_. Payload0), freeB = {#}, freeP = {#}, newB = 0, newP = 0,
     running = (\<lambda>_. None), finished = (\<lambda>_. None), defers = (\<lambda>_. []), alive = True\<rparr>"

text \<open>\<open>Get\<close>: some object of the pool as it was left, or a new one. \<open>Put\<close> adds its argument, whether it is
  there already or not.\<close>

inductive getB :: "('a, 'g) world \<Rightarrow> nat \<Rightarrow> ('a, 'g) world \<Rightarrow> bool" where
  reuseB: "i \<in># freeB w \<Longrightarrow> getB w i (w\<lparr>freeB := freeB w - {#i#}\<rparr>)"
| allocB: "getB w (newB w) (w\<lparr>newB := Suc (newB w), wBuf := (wBuf w)(newB w := replicate readBufSize CHR 0x00)\<rparr>)"

inductive getP :: "('a, 'g) world \<Rightarrow> nat \<Rightarrow> ('a, 'g) world \<Rightarrow> bool" where
  reuseP: "j \<in># freeP w \<Longrightarrow> getP w j (w\<lparr>freeP := freeP w - {#j#}\<rparr>)"
| allocP: "getP w (newP w) (w\<lparr>newP := Suc (newP w), wPay := (wPay w)(newP w := Payload0)\<rparr>)"

fun runPut :: "deferred_call \<Rightarrow> ('a, 'g) world \<Rightarrow> ('a, 'g) world" where
  "runPut (PutB i) w = w\<lparr>freeB := add_mset i (freeB w)\<rparr>"
| "runPut (PutP j) w = w\<lparr>freeP := add_mset j (freeP w)\<rparr>"

text \<open>The pool calls that the two \<open>defer\<close> statements of a handler leave behind, last one first.\<close>

definition deferredPuts :: "nat \<Rightarrow> nat \<Rightarrow> deferred_call list" where
  "deferredPuts bp payload = [PutP payload, PutB bp]"

text \<open>The steps: a handler is started and gets its objects, a handler makes a step, the body of a handler returns, a
  deferred call runs, the garbage collector drops objects from the pools.\<close>

inductive wstep ::
  "('a \<Rightarrow> bytes \<Rightarrow> 'g \<times> bytes) \<Rightarrow> ('g \<Rightarrow> bytes \<Rightarrow> Payload \<Rightarrow> 'g \<Rightarrow> bytes \<Rightarrow> Payload \<Rightarrow> bool) \<Rightarrow>
   ('g \<Rightarrow> bool) \<Rightarrow> ('g \<Rightarrow> bool) \<Rightarrow> ('a, 'g) world \<Rightarrow> ('a, 'g) world \<Rightarrow> bool"
  for start step halted panicked where
  w_start: "alive w \<Longrightarrow> running w c = None \<Longrightarrow> finished w c = None \<Longrightarrow> getB w i w1 \<Longrightarrow> getP w1 j w2 \<Longrightarrow>
    start a (wBuf w2 i) = (g, b) \<Longrightarrow>
    wstep start step halted panicked w
      (w2\<lparr>wBuf := (wBuf w2)(i := b), running := (running w2)(c \<mapsto> (a, i, j, g)), defers := (defers w2)(c := deferredPuts i j)\<rparr>)"
| w_run: "alive w \<Longrightarrow> running w c = Some (a, i, j, g) \<Longrightarrow> step g (wBuf w i) (wPay w j) g' b' p' \<Longrightarrow>
    wstep start step halted panicked w
      (w\<lparr>wBuf := (wBuf w)(i := b'), wPay := (wPay w)(j := p'), running := (running w)(c \<mapsto> (a, i, j, g')),
         alive := \<not> panicked g'\<rparr>)"
| w_return: "alive w \<Longrightarrow> running w c = Some (a, i, j, g) \<Longrightarrow> halted g \<Longrightarrow>
    wstep start step halted panicked w (w\<lparr>running := (running w)(c := None), finished := (finished w)(c \<mapsto> (a, g))\<rparr>)"
| w_defer: "alive w \<Longrightarrow> running w c = None \<Longrightarrow> defers w c = d # ds \<Longrightarrow>
    wstep start step halted panicked w (runPut d (w\<lparr>defers := (defers w)(c := ds)\<rparr>))"
| w_drop: "X \<subseteq># freeB w \<Longrightarrow> Y \<subseteq># freeP w \<Longrightarrow> wstep start step halted panicked w (w\<lparr>freeB := X, freeP := Y\<rparr>)"

inductive reachable ::
  "('a \<Rightarrow> bytes \<Rightarrow> 'g \<times> bytes) \<Rightarrow> ('g \<Rightarrow> bytes \<Rightarrow> Payload \<Rightarrow> 'g \<Rightarrow> bytes \<Rightarrow> Payload \<Rightarrow> bool) \<Rightarrow>
   ('g \<Rightarrow> bool) \<Rightarrow> ('g \<Rightarrow> bool) \<Rightarrow> ('a, 'g) world \<Rightarrow> bool"
  for start step halted panicked where
  reach0: "reachable start step halted panicked world0"
| reach_step: "reachable start step halted panicked w \<Longrightarrow> wstep start step halted panicked w w' \<Longrightarrow>
    reachable start step halted panicked w'"

section \<open>Ownership\<close>

text \<open>An object is named by the call that gives it back.\<close>

fun inPool :: "('a, 'g) world \<Rightarrow> deferred_call \<Rightarrow> nat" where
  "inPool w (PutB i) = count (freeB w) i"
| "inPool w (PutP j) = count (freeP w) j"

fun allocated :: "('a, 'g) world \<Rightarrow> deferred_call \<Rightarrow> bool" where
  "allocated w (PutB i) \<longleftrightarrow> i < newB w"
| "allocated w (PutP j) \<longleftrightarrow> j < newP w"

text \<open>Every object in the pools or to be given back is allocated. It is in the pool once, or in one list of
  deferred calls, there once. What a running handler holds it will give back; a handler that never ran has
  nothing to give back.\<close>

definition owned :: "('a, 'g) world \<Rightarrow> bool" where
  "owned w \<longleftrightarrow> (\<forall>d. inPool w d \<le> 1) \<and> (\<forall>d. 0 < inPool w d \<longrightarrow> allocated w d) \<and>
     (\<forall>c. distinct (defers w c)) \<and> (\<forall>c. \<forall>d \<in> set (defers w c). inPool w d = 0 \<and> allocated w d) \<and>
     (\<forall>c c'. \<forall>d \<in> set (defers w c). d \<in> set (defers w c') \<longrightarrow> c = c') \<and>
     (\<forall>c a i j g. running w c = Some (a, i, j, g) \<longrightarrow> set (defers w c) = {PutB i, PutP j}) \<and>
     (\<forall>c. running w c = None \<longrightarrow> finished w c = None \<longrightarrow> defers w c = [])"

lemma ownedD:
  assumes "owned w"
  shows "inPool w d \<le> 1" "0 < inPool w d \<Longrightarrow> allocated w d" "distinct (defers w c)"
    "d \<in> set (defers w c) \<Longrightarrow> inPool w d = 0" "d \<in> set (defers w c) \<Longrightarrow> allocated w d"
    "d \<in> set (defers w c) \<Longrightarrow> d \<in> set (defers w c') \<Longrightarrow> c = c'"
    "running w c = Some (a, i, j, g) \<Longrightarrow> set (defers w c) = {PutB i, PutP j}"
    "running w c = None \<Longrightarrow> finished w c = None \<Longrightarrow> defers w c = []"
  using assms [unfolded owned_def, THEN conjunct1, THEN spec]
    assms [unfolded owned_def, THEN conjunct2, THEN conjunct1, rule_format]
    assms [unfolded owned_def, THEN conjunct2, THEN conjunct2, THEN conjunct1, rule_format]
    assms [unfolded owned_def, THEN conjunct2, THEN conjunct2, THEN conjunct2, THEN conjunct1, rule_format]
    assms [unfolded owned_def, THEN conjunct2, THEN conjunct2, THEN conjunct2, THEN conjunct2, THEN conjunct1, rule_format]
    assms [unfolded owned_def, THEN conjunct2, THEN conjunct2, THEN conjunct2, THEN conjunct2, THEN conjunct2, THEN conjunct1, rule_format]
    assms [unfolded owned_def, THEN conjunct2, THEN conjunct2, THEN conjunct2, THEN conjunct2, THEN conjunct2, THEN conjunct2, rule_format]
  by iprover+

lemma inPool_cong: "freeB w' = freeB w \<Longrightarrow> freeP w' = freeP w \<Longrightarrow> inPool w' d = inPool w d"
  by (cases d) simp_all

lemma allocated_cong: "newB w' = newB w \<Longrightarrow> newP w' = newP w \<Longrightarrow> allocated w' d = allocated w d"
  by (cases d) simp_all

lemma owned_cong:
  assumes "freeB w' = freeB w" "freeP w' = freeP w" "newB w' = newB w" "newP w' = newP w" "running w' = running w"
    "finished w' = finished w" "defers w' = defers w"
  shows "owned w' = owned w"
  using assms inPool_cong [OF assms(1,2)] allocated_cong [OF assms(3,4)] unfolding owned_def by simp

text \<open>An object that was just got: allocated, in no pool and in no list of deferred calls.\<close>

definition fresh_object :: "('a, 'g) world \<Rightarrow> deferred_call \<Rightarrow> bool" where
  "fresh_object w d \<longleftrightarrow> allocated w d \<and> inPool w d = 0 \<and> (\<forall>c. d \<notin> set (defers w c))"

text \<open>Taking something out of a pool, or allocating, keeps the rest in order.\<close>

lemma owned_get:
  assumes "owned w" "running w' = running w" "finished w' = finished w" "defers w' = defers w"
    "\<And>d. inPool w' d \<le> inPool w d" "\<And>d. allocated w d \<Longrightarrow> allocated w' d"
  shows "owned w'"
  unfolding owned_def assms(2-4)
proof (intro conjI allI ballI impI)
  note o = ownedD [OF assms(1)]
  fix d
  show "inPool w' d \<le> 1" using assms(5) o(1) order_trans by blast
  show "allocated w' d" if "0 < inPool w' d" using assms(5,6) o(2) that by (meson less_le_trans)
  fix c
  show "inPool w' d = 0" "allocated w' d" if "d \<in> set (defers w c)" using assms(5) [of d] assms(6) o(4,5) [OF that] by simp_all
qed (use ownedD(3,6,7,8) [OF assms(1)] in iprover)+

lemma getB_owned:
  assumes "getB w i w'" "owned w"
  shows "owned w'" "fresh_object w' (PutB i)" "running w' = running w" "finished w' = finished w" "defers w' = defers w"
    "wPay w' = wPay w" "freeB w' \<subseteq># freeB w"
proof -
  note o = ownedD [OF assms(2)]
  have oB: "count (freeB w) k \<le> 1" "k \<in># freeB w \<Longrightarrow> k < newB w" "PutB k \<in> set (defers w c) \<Longrightarrow> k \<notin># freeB w \<and> k < newB w" for k c
    using o(1,2) [of "PutB k"] o(4,5) [of "PutB k" c] by (auto simp: not_in_iff)
  show rest: "running w' = running w" "finished w' = finished w" "defers w' = defers w" "wPay w' = wPay w" "freeB w' \<subseteq># freeB w"
    using assms(1) by (cases; simp)+
  have p: "inPool w' (PutP k) = inPool w (PutP k)" "allocated w' (PutP k) = allocated w (PutP k)" for k using assms(1) by (cases; simp)+
  have b: "count (freeB w') k \<le> count (freeB w) k" "allocated w (PutB k) \<Longrightarrow> allocated w' (PutB k)" for k
    using assms(1) by (cases; simp)+
  have le: "inPool w' d \<le> inPool w d" "allocated w d \<Longrightarrow> allocated w' d" for d using p b by (cases d; simp)+
  show "owned w'" using rest le by (intro owned_get [OF assms(2)])
  show "fresh_object w' (PutB i)" using assms(1)
  proof cases
    case reuseB
    then show ?thesis using oB(1) [of i] oB(2) [of i] oB(3) [of i] by (auto simp: fresh_object_def not_in_iff)
  next
    case allocB
    then have "i \<notin># freeB w" using oB(2) [of i] by auto
    then show ?thesis using allocB oB(3) [of i] by (auto simp: fresh_object_def not_in_iff)
  qed
qed

lemma getP_owned:
  assumes "getP w j w'" "owned w"
  shows "owned w'" "fresh_object w' (PutP j)" "running w' = running w" "finished w' = finished w" "defers w' = defers w"
    "wBuf w' = wBuf w" "freeB w' = freeB w" "newB w' = newB w"
proof -
  note o = ownedD [OF assms(2)]
  have oP: "count (freeP w) k \<le> 1" "k \<in># freeP w \<Longrightarrow> k < newP w" "PutP k \<in> set (defers w c) \<Longrightarrow> k \<notin># freeP w \<and> k < newP w" for k c
    using o(1,2) [of "PutP k"] o(4,5) [of "PutP k" c] by (auto simp: not_in_iff)
  show rest: "running w' = running w" "finished w' = finished w" "defers w' = defers w" "wBuf w' = wBuf w" "freeB w' = freeB w" "newB w' = newB w"
    using assms(1) by (cases; simp)+
  have b: "count (freeP w') k \<le> count (freeP w) k" "allocated w (PutP k) \<Longrightarrow> allocated w' (PutP k)" for k
    using assms(1) by (cases; simp)+
  have le: "inPool w' d \<le> inPool w d" "allocated w d \<Longrightarrow> allocated w' d" for d using rest b by (cases d; simp)+
  show "owned w'" using rest le by (intro owned_get [OF assms(2)])
  show "fresh_object w' (PutP j)" using assms(1)
  proof cases
    case reuseP
    then show ?thesis using oP(1) [of j] oP(2) [of j] oP(3) [of j] by (auto simp: fresh_object_def not_in_iff)
  next
    case allocP
    then have "j \<notin># freeP w" using oP(2) [of j] by auto
    then show ?thesis using allocP oP(3) [of j] by (auto simp: fresh_object_def not_in_iff)
  qed
qed

lemma owned_take:
  assumes "owned w" "fresh_object w (PutB i)" "fresh_object w (PutP j)" "running w c = None"
  shows "owned (w\<lparr>running := (running w)(c \<mapsto> (a, i, j, g)), defers := (defers w)(c := deferredPuts i j)\<rparr>)"
proof -
  note o = ownedD [OF assms(1)]
  let ?w = "w\<lparr>running := (running w)(c \<mapsto> (a, i, j, g)), defers := (defers w)(c := deferredPuts i j)\<rparr>"
  have p: "inPool ?w d = inPool w d" "allocated ?w d = allocated w d" for d by (rule inPool_cong, simp_all) (rule allocated_cong, simp_all)
  have f: "inPool w d = 0" "allocated w d" "d \<notin> set (defers w c')" if "d \<in> {PutB i, PutP j}" for d c'
    using that assms(2,3) by (auto simp: fresh_object_def)
  have s: "set (deferredPuts i j) = {PutB i, PutP j}" "distinct (deferredPuts i j)" by (auto simp: deferredPuts_def)
  show ?thesis unfolding owned_def p
  proof (intro conjI allI ballI impI)
    fix d k k' assume "d \<in> set (defers ?w k)" "d \<in> set (defers ?w k')"
    then show "k = k'" using o(6) [of d k k'] f(3) [of d] s(1) by (auto split: if_splits)
  next
    fix d k assume "d \<in> set (defers ?w k)"
    then show "inPool w d = 0" "allocated w d" using o(4,5) [of d k] f(1,2) [of d] s(1) by (simp_all split: if_splits)
  next
    fix k a' i' j' g' assume "running ?w k = Some (a', i', j', g')"
    then show "set (defers ?w k) = {PutB i', PutP j'}" using o(7) [of k a' i' j' g'] s(1) by (auto split: if_splits)
  qed (use o(1,2,3,8) s(2) in \<open>simp_all split: if_splits\<close>)
qed

lemma owned_keep:
  assumes "owned w" "running w c = Some (a', i, j, g')"
  shows "owned (w\<lparr>running := (running w)(c \<mapsto> (a, i, j, g))\<rparr>)"
proof -
  note o = ownedD [OF assms(1)]
  let ?w = "w\<lparr>running := (running w)(c \<mapsto> (a, i, j, g))\<rparr>"
  have p: "inPool ?w d = inPool w d" "allocated ?w d = allocated w d" "defers ?w = defers w" for d
    by (rule inPool_cong, simp_all) (rule allocated_cong, simp_all)
  show ?thesis unfolding owned_def p
  proof (intro conjI allI ballI impI)
    fix k a' i' j' g' assume "running ?w k = Some (a', i', j', g')"
    then show "set (defers w k) = {PutB i', PutP j'}" using o(7) [of k a' i' j' g'] o(7) [OF assms(2)] by (auto split: if_splits)
  next
    fix k assume "running ?w k = None" "finished ?w k = None"
    then show "defers w k = []" using o(8) by (simp split: if_splits)
  qed (use o(1-6) in iprover)+
qed

lemma owned_return:
  assumes "owned w"
  shows "owned (w\<lparr>running := (running w)(c := None), finished := (finished w)(c \<mapsto> x)\<rparr>)"
proof -
  note o = ownedD [OF assms(1)]
  let ?w = "w\<lparr>running := (running w)(c := None), finished := (finished w)(c \<mapsto> x)\<rparr>"
  have p: "inPool ?w d = inPool w d" "allocated ?w d = allocated w d" "defers ?w = defers w" for d
    by (rule inPool_cong, simp_all) (rule allocated_cong, simp_all)
  show ?thesis unfolding owned_def p
  proof (intro conjI allI ballI impI)
    fix k a' i' j' g' assume "running ?w k = Some (a', i', j', g')"
    then show "set (defers w k) = {PutB i', PutP j'}" using o(7) by (simp split: if_splits)
  next
    fix k assume "running ?w k = None" "finished ?w k = None"
    then show "defers w k = []" using o(8) by (simp split: if_splits)
  qed (use o(1-6) in iprover)+
qed

lemma runPut_simps [simp]:
  "running (runPut d w) = running w" "finished (runPut d w) = finished w" "defers (runPut d w) = defers w"
  "wBuf (runPut d w) = wBuf w" "wPay (runPut d w) = wPay w" "alive (runPut d w) = alive w" "allocated (runPut d w) = allocated w"
  "inPool (runPut d w) x = inPool w x + (if x = d then 1 else 0)"
proof -
  show "running (runPut d w) = running w" "finished (runPut d w) = finished w" "defers (runPut d w) = defers w"
    "wBuf (runPut d w) = wBuf w" "wPay (runPut d w) = wPay w" "alive (runPut d w) = alive w"
    by (cases d; simp)+
  have "newB (runPut d w) = newB w" "newP (runPut d w) = newP w" by (cases d; simp)+
  then show "allocated (runPut d w) = allocated w" using allocated_cong by blast
  show "inPool (runPut d w) x = inPool w x + (if x = d then 1 else 0)" by (cases d; cases x; simp)
qed

text \<open>A deferred call puts into the pool what nobody else has.\<close>

lemma owned_defer:
  assumes "owned w" "running w c = None" "defers w c = d # ds"
  shows "owned (runPut d (w\<lparr>defers := (defers w)(c := ds)\<rparr>))"
proof -
  note o = ownedD [OF assms(1)]
  let ?v = "w\<lparr>defers := (defers w)(c := ds)\<rparr>"
  have p: "inPool ?v x = inPool w x" "allocated ?v x = allocated w x" for x
    by (rule inPool_cong, simp_all) (rule allocated_cong, simp_all)
  have d: "d \<in> set (defers w c)" "d \<notin> set ds" "set ds \<subseteq> set (defers w c)" "distinct ds" using o(3) [of c] assms(3) by auto
  have sub: "x \<in> set (defers w k) \<and> x \<noteq> d" if x: "x \<in> set (((defers w)(c := ds)) k)" for x k
  proof (cases "k = c")
    case True
    then show ?thesis using x d(2,3) by auto
  next
    case False
    then have "d \<notin> set (defers w k)" using o(6) [OF d(1), of k] by blast
    then show ?thesis using x False by auto
  qed
  show ?thesis unfolding owned_def
  proof (intro conjI allI ballI impI; simp only: runPut_simps p)
    fix x show "inPool w x + (if x = d then 1 else 0) \<le> 1" using o(1) [of x] o(4) [OF d(1)] by simp
    show "allocated w x" if "0 < inPool w x + (if x = d then 1 else 0)" using that o(2) [of x] o(5) [OF d(1)] by (simp split: if_splits)
  next
    fix k x assume x: "x \<in> set (defers ?v k)"
    then show "inPool w x + (if x = d then 1 else 0) = 0" "allocated w x" using sub [of x k] o(4,5) [of x k] by simp_all
    fix k' assume "x \<in> set (defers ?v k')"
    then show "k = k'" using x sub [of x k] sub [of x k'] o(6) [of x k k'] by simp
  next
    fix k show "distinct (defers ?v k)" using o(3) [of k] d(4) by simp
    show "defers ?v k = []" if "running ?v k = None" "finished ?v k = None" using that o(8) [of k] assms(3) by (cases "k = c") simp_all
    fix a i j g assume "running ?v k = Some (a, i, j, g)"
    then show "set (defers ?v k) = {PutB i, PutP j}" using o(7) [of k a i j g] assms(2) by (cases "k = c") simp_all
  qed
qed

lemma owned_drop: "owned w \<Longrightarrow> X \<subseteq># freeB w \<Longrightarrow> Y \<subseteq># freeP w \<Longrightarrow> owned (w\<lparr>freeB := X, freeP := Y\<rparr>)"
proof (rule owned_get [of w])
  assume s: "X \<subseteq># freeB w" "Y \<subseteq># freeP w"
  show "inPool (w\<lparr>freeB := X, freeP := Y\<rparr>) d \<le> inPool w d" for d using s by (cases d) (simp_all add: mset_subset_eq_count)
  show "allocated (w\<lparr>freeB := X, freeP := Y\<rparr>) d" if "allocated w d" for d using that by (cases d) simp_all
qed simp_all

lemma getB_keeps: "getB w i w' \<Longrightarrow> k \<noteq> i \<Longrightarrow> wBuf w' k = wBuf w k"
  by (erule getB.cases) auto

lemma getP_keeps: "getP w j w' \<Longrightarrow> k \<noteq> j \<Longrightarrow> wPay w' k = wPay w k"
  by (erule getP.cases) auto

lemma getB_length: "getB w i w' \<Longrightarrow> (\<And>k. k \<in># freeB w \<Longrightarrow> length (wBuf w k) = readBufSize) \<Longrightarrow> length (wBuf w' i) = readBufSize"
  by (erule getB.cases) auto

section \<open>The contract of a handler\<close>

text \<open>A handler with argument \<open>a\<close> keeps the invariant \<open>J a\<close> over its state and its two objects, from any buffer of the
  right length and any payload on; when it has returned, \<open>Q a\<close> holds of its state alone.\<close>

locale pooled_handler =
  fixes start :: "'a \<Rightarrow> bytes \<Rightarrow> 'g \<times> bytes"
    and step :: "'g \<Rightarrow> bytes \<Rightarrow> Payload \<Rightarrow> 'g \<Rightarrow> bytes \<Rightarrow> Payload \<Rightarrow> bool"
    and halted :: "'g \<Rightarrow> bool"
    and panicked :: "'g \<Rightarrow> bool"
    and J :: "'a \<Rightarrow> 'g \<Rightarrow> bytes \<Rightarrow> Payload \<Rightarrow> bool"
    and Q :: "'a \<Rightarrow> 'g \<Rightarrow> bool"
  assumes J_start: "length b = readBufSize \<Longrightarrow> start a b = (g, b') \<Longrightarrow> J a g b' p"
    and J_step: "J a g b p \<Longrightarrow> step g b p g' b' p' \<Longrightarrow> J a g' b' p'"
    and J_length: "J a g b p \<Longrightarrow> length b = readBufSize"
    and J_halted: "J a g b p \<Longrightarrow> halted g \<Longrightarrow> Q a g"
begin

definition good :: "('a, 'g) world \<Rightarrow> bool" where
  "good w \<longleftrightarrow> owned w \<and> (\<forall>i. i \<in># freeB w \<or> (\<exists>c. PutB i \<in> set (defers w c)) \<longrightarrow> length (wBuf w i) = readBufSize) \<and>
     (\<forall>c a i j g. running w c = Some (a, i, j, g) \<longrightarrow> J a g (wBuf w i) (wPay w j)) \<and>
     (\<forall>c a g. finished w c = Some (a, g) \<longrightarrow> Q a g)"

lemma goodD:
  assumes "good w"
  shows "owned w" "i \<in># freeB w \<Longrightarrow> length (wBuf w i) = readBufSize" "PutB i \<in> set (defers w c) \<Longrightarrow> length (wBuf w i) = readBufSize"
    "running w c = Some (a, i, j, g) \<Longrightarrow> J a g (wBuf w i) (wPay w j)" "finished w c = Some (a, g) \<Longrightarrow> Q a g"
  using assms unfolding good_def by blast+

lemma good_start:
  assumes "good w" "getB w i w1" "getP w1 j w2" "start a (wBuf w2 i) = (g, b)" "running w c = None"
  shows "good (w2\<lparr>wBuf := (wBuf w2)(i := b), running := (running w2)(c \<mapsto> (a, i, j, g)), defers := (defers w2)(c := deferredPuts i j)\<rparr>)"
    (is "good ?w")
proof -
  note d = goodD [OF assms(1)]
  note B = getB_owned [OF assms(2) d(1)] and P = getP_owned [OF assms(3) getB_owned(1) [OF assms(2) d(1)]]
  have fB: "fresh_object w2 (PutB i)" using B(2) P(5,7,8) by (simp add: fresh_object_def)
  have run: "running w2 = running w" "finished w2 = finished w" "defers w2 = defers w" using B(3-5) P(3-5) by simp_all
  have bi: "length b = readBufSize" "J a g b (wPay w2 j)"
    using J_start [OF _ assms(4)] J_length getB_length [OF assms(2) d(2)] P(6) by metis+
  have keep: "wBuf w2 k = wBuf w k" if "k \<noteq> i" for k using getB_keeps [OF assms(2) that] P(6) by simp
  have keepP: "wPay w2 k = wPay w k" if "k \<noteq> j" for k using getP_keeps [OF assms(3) that] B(6) by simp
  have free: "i' \<noteq> i \<and> j' \<noteq> j" if "running w c' = Some (a', i', j', g')" for c' a' i' j' g'
    using ownedD(7) [OF d(1) that] fB P(2) run(3) by (auto simp: fresh_object_def)
  have "owned (w2\<lparr>running := (running w2)(c \<mapsto> (a, i, j, g)), defers := (defers w2)(c := deferredPuts i j)\<rparr>)"
    using run assms(5) by (intro owned_take P(1,2) fB) simp
  then have "owned ?w" by (rule owned_cong [THEN iffD1, rotated -1]) simp_all
  moreover have "J a' g' (wBuf ?w i') (wPay ?w j')" if r: "running ?w c' = Some (a', i', j', g')" for c' a' i' j' g'
  proof (cases "c' = c")
    case False
    then have "running w c' = Some (a', i', j', g')" using r run by simp
    then show ?thesis using free d(4) keep keepP by fastforce
  qed (use r bi in auto)
  moreover have "length (wBuf ?w k) = readBufSize" if "k \<in># freeB ?w \<or> (\<exists>c'. PutB k \<in> set (defers ?w c'))" for k
  proof (cases "k = i")
    case False
    then have "k \<in># freeB w \<or> (\<exists>c'. PutB k \<in> set (defers w c'))"
      using that run P(7) B(7) by (auto simp: deferredPuts_def mset_subset_eqD split: if_splits)
    then show ?thesis using False d(2,3) keep by auto
  qed (use bi in simp)
  ultimately show ?thesis using d(5) run unfolding good_def by simp
qed

lemma good_run:
  assumes "good w" "running w c = Some (a, i, j, g)" "step g (wBuf w i) (wPay w j) g' b' p'"
  shows "good (w\<lparr>wBuf := (wBuf w)(i := b'), wPay := (wPay w)(j := p'), running := (running w)(c \<mapsto> (a, i, j, g')), alive := x\<rparr>)"
    (is "good ?w")
proof -
  note d = goodD [OF assms(1)]
  have mine: "set (defers w c) = {PutB i, PutP j}" by (rule ownedD(7) [OF d(1) assms(2)])
  have other: "i' \<noteq> i \<and> j' \<noteq> j" if "running w k = Some (a', i', j', h)" "k \<noteq> c" for k a' i' j' h
    using ownedD(7) [OF d(1) that(1)] mine that(2) ownedD(6) [OF d(1), of _ k c] by blast
  have J': "J a g' b' p'" by (rule J_step [OF d(4) [OF assms(2)] assms(3)])
  have "owned ?w" using owned_keep [OF d(1) assms(2), of a g'] by (rule owned_cong [THEN iffD1, rotated -1]) simp_all
  moreover have "J a' h (wBuf ?w i') (wPay ?w j')" if r: "running ?w k = Some (a', i', j', h)" for k a' i' j' h
  proof (cases "k = c")
    case False
    then show ?thesis using r other [of k a' i' j' h] d(4) [of k a' i' j' h] by simp
  qed (use r J' in auto)
  moreover have "length (wBuf ?w k) = readBufSize" if "k \<in># freeB ?w \<or> (\<exists>c'. PutB k \<in> set (defers ?w c'))" for k
    using that J_length [OF J'] d(2,3) by auto
  ultimately show ?thesis using d(5) unfolding good_def by simp
qed

lemma good_return:
  assumes "good w" "running w c = Some (a, i, j, g)" "halted g"
  shows "good (w\<lparr>running := (running w)(c := None), finished := (finished w)(c \<mapsto> (a, g))\<rparr>)"
  using owned_return [OF goodD(1) [OF assms(1)], of c "(a, g)"] J_halted [OF goodD(4) [OF assms(1,2)] assms(3)] goodD(2-5) [OF assms(1)]
  unfolding good_def by auto

lemma good_defer:
  assumes "good w" "running w c = None" "defers w c = d # ds"
  shows "good (runPut d (w\<lparr>defers := (defers w)(c := ds)\<rparr>))" (is "good ?w")
proof -
  note g = goodD [OF assms(1)]
  have "length (wBuf ?w k) = readBufSize" if "k \<in># freeB ?w \<or> (\<exists>c'. PutB k \<in> set (defers ?w c'))" for k
  proof -
    have "d = PutB k \<or> k \<in># freeB w \<or> (\<exists>c'. PutB k \<in> set (defers w c'))"
      using that assms(3) by (cases d) (auto split: if_splits, (metis list.set_intros(2))+)
    then have "k \<in># freeB w \<or> (\<exists>c'. PutB k \<in> set (defers w c'))" using assms(3) by (metis list.set_intros(1))
    then show ?thesis using g(2,3) by auto
  qed
  then show ?thesis using owned_defer [OF g(1) assms(2,3)] g(4,5) unfolding good_def by simp
qed

lemma good_drop: "good w \<Longrightarrow> X \<subseteq># freeB w \<Longrightarrow> Y \<subseteq># freeP w \<Longrightarrow> good (w\<lparr>freeB := X, freeP := Y\<rparr>)"
  using owned_drop [of w X Y] by (auto simp: good_def dest: mset_subset_eqD)

lemma reachable_good: "reachable start step halted panicked w \<Longrightarrow> good w"
proof (induction rule: reachable.induct)
  case reach0
  have "inPool (world0 :: ('a, 'g) world) d = 0" for d by (cases d) (simp_all add: world0_def)
  moreover have "running (world0 :: ('a, 'g) world) = (\<lambda>_. None)" "finished (world0 :: ('a, 'g) world) = (\<lambda>_. None)"
      "defers (world0 :: ('a, 'g) world) = (\<lambda>_. [])" "freeB (world0 :: ('a, 'g) world) = {#}"
    by (simp_all add: world0_def)
  ultimately show ?case by (simp add: good_def owned_def)
next
  case (reach_step w w')
  from reach_step.hyps(2) reach_step.IH show ?case
    by cases (simp_all add: good_start good_run good_return good_defer good_drop)
qed

end

end
