(* ===== verification/Goroutines.thy ===== *)
theory Goroutines
  imports Pool
begin

text \<open>
  The connection handler of \<open>cmd/api/conn_linux.go\<close> at the level of its memory. It works step by step on a
  buffer and a payload that an earlier connection has left dirty: it parses in place, keeps the
  request body as a slice of the buffer, copies the rest of the buffer to the front, and reads behind it.

  The handler meets the contract \<open>pooled_handler\<close>: whatever the other goroutines do and whatever the pool gave it,
  it behaves as the sequential handler \<open>handleRawConn\<close> does on its own stream. In the other
  direction every behaviour of the sequential handler is one of the goroutine. The handler of the TCP fall-back,
  \<open>handleConn\<close> of \<open>cmd/api/main.go\<close>, is the same goroutine with an empty buffer at the start, and meets the contract too.
\<close>

section \<open>One handler\<close>

text \<open>Go's \<open>copy(dst[i:], src)\<close> for a source that fits.\<close>

definition overwrite :: "bytes \<Rightarrow> nat \<Rightarrow> bytes \<Rightarrow> bytes" where
  "overwrite b i xs = take i b @ xs @ drop (i + length xs) b"

text \<open>Where a handler stands: at the head of the inner loop, holding a parsed request (its method, the place of
  its body in the buffer, its end), holding a parsed payload, writing the rest of a response, before
  a read, returned, or panicked.\<close>

datatype pc = AtLoop | GotReq Method nat nat nat | Loaded nat | Writing bytes nat | AtRead | Returned | Crashed

record gor =
  gPos :: nat
  gIn :: bytes \<comment> \<open>what the peer will still send\<close>
  gOut :: bytes \<comment> \<open>what has been written\<close>
  gPc :: pc

definition hstart :: "bytes \<times> bytes \<Rightarrow> bytes \<Rightarrow> gor \<times> bytes" where
  "hstart a b =
     (case a of (pre, inp) \<Rightarrow>
        if length pre > 0 then
          if length pre > length b then (\<lparr>gPos = 0, gIn = inp, gOut = [], gPc = Returned\<rparr>, b)
          else (\<lparr>gPos = length pre, gIn = inp, gOut = [], gPc = AtLoop\<rparr>, overwrite b 0 pre)
        else (\<lparr>gPos = 0, gIn = inp, gOut = [], gPc = AtLoop\<rparr>, b))"

definition parsed :: "nat \<Rightarrow> bytes \<Rightarrow> pc" where
  "parsed pos b =
     (case ParseRequest (take pos b) of
        None \<Rightarrow> Crashed
      | Some (Inl ErrIncomplete) \<Rightarrow> AtRead
      | Some (Inl ErrBad) \<Rightarrow> Returned
      | Some (Inr r) \<Rightarrow> GotReq (PM r) (PEnd r - length (Body r)) (length (Body r)) (PEnd r))"

text \<open>The part of \<open>Respond\<close> that reads the payload object.\<close>

definition scorePayload :: "kernel \<Rightarrow> Index \<Rightarrow> Payload \<Rightarrow> bytes option" where
  "scorePayload kern ix p =
     do { v \<leftarrow> Vectorize p; qq \<leftarrow> Quantize v; n \<leftarrow> decide kern ix qq; read_at scores n }"

text \<open>A step of a handler on its buffer and its payload. The answers of the kernel (how much is read or
  written, interruptions, errors) are the choices between the rules. When the body is malformed
  \<open>Parse\<close> leaves the payload in some state.\<close>

inductive hstep :: "kernel \<Rightarrow> Index \<Rightarrow> gor \<Rightarrow> bytes \<Rightarrow> Payload \<Rightarrow> gor \<Rightarrow> bytes \<Rightarrow> Payload \<Rightarrow> bool"
  for kern ix where
  h_empty: "gPc g = AtLoop \<Longrightarrow> gPos g = 0 \<Longrightarrow> hstep kern ix g b p (g\<lparr>gPc := AtRead\<rparr>) b p"
| h_parse: "gPc g = AtLoop \<Longrightarrow> gPos g > 0 \<Longrightarrow> hstep kern ix g b p (g\<lparr>gPc := parsed (gPos g) b\<rparr>) b p"
| h_ready: "gPc g = GotReq MethodGetReady off n e \<Longrightarrow> hstep kern ix g b p (g\<lparr>gPc := Writing ReadyResp e\<rparr>) b p"
| h_other: "gPc g = GotReq MethodOther off n e \<Longrightarrow> hstep kern ix g b p (g\<lparr>gPc := Writing NotFoundResp e\<rparr>) b p"
| h_load: "gPc g = GotReq MethodPostScore off n e \<Longrightarrow> Parse (take n (drop off b)) = Some (Inr pl) \<Longrightarrow>
    hstep kern ix g b p (g\<lparr>gPc := Loaded e\<rparr>) b pl"
| h_malformed: "gPc g = GotReq MethodPostScore off n e \<Longrightarrow> Parse (take n (drop off b)) = Some (Inl err) \<Longrightarrow>
    hstep kern ix g b p (g\<lparr>gPc := Writing (scores ! 0) e\<rparr>) b p'"
| h_panic: "gPc g = GotReq MethodPostScore off n e \<Longrightarrow> Parse (take n (drop off b)) = None \<Longrightarrow>
    hstep kern ix g b p (g\<lparr>gPc := Crashed\<rparr>) b p'"
| h_score: "gPc g = Loaded e \<Longrightarrow>
    hstep kern ix g b p (g\<lparr>gPc := (case scorePayload kern ix p of None \<Rightarrow> Crashed | Some r \<Rightarrow> Writing r e)\<rparr>) b p"
| h_write: "gPc g = Writing r e \<Longrightarrow> 0 < n \<Longrightarrow> n \<le> length r \<Longrightarrow>
    hstep kern ix g b p (g\<lparr>gOut := gOut g @ take n r, gPc := Writing (drop n r) e\<rparr>) b p"
| h_write_intr: "gPc g = Writing r e \<Longrightarrow> r \<noteq> [] \<Longrightarrow> hstep kern ix g b p g b p"
| h_write_fail: "gPc g = Writing r e \<Longrightarrow> r \<noteq> [] \<Longrightarrow> hstep kern ix g b p (g\<lparr>gPc := Returned\<rparr>) b p"
| h_consume: "gPc g = Writing [] e \<Longrightarrow> e \<ge> gPos g \<Longrightarrow> hstep kern ix g b p (g\<lparr>gPos := 0, gPc := AtLoop\<rparr>) b p"
| h_shift: "gPc g = Writing [] e \<Longrightarrow> e < gPos g \<Longrightarrow>
    hstep kern ix g b p (g\<lparr>gPos := gPos g - e, gPc := AtLoop\<rparr>) (overwrite b 0 (drop e (take (gPos g) b))) p"
| h_full: "gPc g = AtRead \<Longrightarrow> gPos g = length b \<Longrightarrow> hstep kern ix g b p (g\<lparr>gPc := Returned\<rparr>) b p"
| h_read: "gPc g = AtRead \<Longrightarrow> gPos g \<noteq> length b \<Longrightarrow> 0 < n \<Longrightarrow> n \<le> length b - gPos g \<Longrightarrow> n \<le> length (gIn g) \<Longrightarrow>
    hstep kern ix g b p (g\<lparr>gPos := gPos g + n, gIn := drop n (gIn g), gPc := AtLoop\<rparr>) (overwrite b (gPos g) (take n (gIn g))) p"
| h_eof: "gPc g = AtRead \<Longrightarrow> gPos g \<noteq> length b \<Longrightarrow> gIn g = [] \<Longrightarrow> hstep kern ix g b p (g\<lparr>gPc := Returned\<rparr>) b p"
| h_read_intr: "gPc g = AtRead \<Longrightarrow> gPos g \<noteq> length b \<Longrightarrow> hstep kern ix g b p (g\<lparr>gPc := AtLoop\<rparr>) b p"
| h_read_fail: "gPc g = AtRead \<Longrightarrow> gPos g \<noteq> length b \<Longrightarrow> hstep kern ix g b p (g\<lparr>gPc := Returned\<rparr>) b p"

section \<open>A handler simulates the sequential one\<close>

definition prepend :: "bytes \<Rightarrow> bytes \<times> status \<Rightarrow> bytes \<times> status" where
  "prepend w r = (w @ fst r, snd r)"

lemma prepend_simps [simp]:
  "prepend [] r = r" "prepend v (prepend w r) = prepend (v @ w) r" "prepend v (w, st) = (v @ w, st)"
  by (simp_all add: prepend_def)

text \<open>What a sequential handler goes on to do after it has started to write a response.\<close>

definition afterWrite :: "bytes \<times> wout \<Rightarrow> (wr list \<Rightarrow> bytes \<times> status) \<Rightarrow> bytes \<times> status" where
  "afterWrite r k = (case r of (w, WErr) \<Rightarrow> (w, Closed) | (w, WWait) \<Rightarrow> (w, Waiting) | (w, WDone ws) \<Rightarrow> prepend w (k ws))"

lemma rawLoop_request:
  assumes "ParseRequest buf = Some (Inr req)" "Respond kern ix req = Some resp"
  shows "rawLoop kern ix buf inp rs ws =
    afterWrite (writeAll resp ws) (\<lambda>ws'. rawLoop kern ix (drop (PEnd req) buf) inp rs ws')"
proof -
  have d: "drain kern ix buf ws = (case writeAll resp ws of (w, WErr) \<Rightarrow> (w, Closed) | (w, WWait) \<Rightarrow> (w, Waiting)
      | (w, WDone ws') \<Rightarrow> prepend w (drain kern ix (drop (PEnd req) buf) ws'))"
    using assms by (simp add: drain_unfold [of kern ix buf] prepend_def Let_def split: prod.split wout.split)
  show ?thesis
  proof (cases "writeAll resp ws")
    case (Pair w o')
    show ?thesis
    proof (cases o')
      case (WDone ws')
      obtain w2 st where e: "drain kern ix (drop (PEnd req) buf) ws' = (w2, st)" by force
      show ?thesis
        unfolding rawLoop.simps [of kern ix buf] d Pair WDone afterWrite_def prod.case wout.case
          rawLoop.simps [of kern ix "drop (PEnd req) buf"] e
        by (cases st; cases rs) (auto simp: prepend_def Let_def split: rd.splits)
    qed (simp_all add: rawLoop.simps [of kern ix buf] d Pair afterWrite_def)
  qed
qed

lemma rawLoop_ends:
  "ParseRequest buf = None \<Longrightarrow> rawLoop kern ix buf inp rs ws = ([], Panicked)"
  "ParseRequest buf = Some (Inl ErrBad) \<Longrightarrow> rawLoop kern ix buf inp rs ws = ([], Closed)"
  "ParseRequest buf = Some (Inr req) \<Longrightarrow> Respond kern ix req = None \<Longrightarrow> rawLoop kern ix buf inp rs ws = ([], Panicked)"
  by (simp_all add: rawLoop.simps [of kern ix buf] drain_unfold [of kern ix buf])

lemma drain_incomplete: "ParseRequest buf = Some (Inl ErrIncomplete) \<Longrightarrow> drain kern ix buf ws = ([], Serving buf ws)"
  by (simp add: drain_unfold [of kern ix buf])

lemma rawLoop_reads:
  assumes "ParseRequest buf = Some (Inl ErrIncomplete)"
  shows "length buf = readBufSize \<Longrightarrow> rawLoop kern ix buf inp rs ws = ([], Closed)"
    "length buf \<noteq> readBufSize \<Longrightarrow> rawLoop kern ix buf inp (RIntr # rs) ws = rawLoop kern ix buf inp rs ws"
    "length buf \<noteq> readBufSize \<Longrightarrow> rawLoop kern ix buf inp (RFail # rs) ws = ([], Closed)"
    "length buf \<noteq> readBufSize \<Longrightarrow> rawLoop kern ix buf [] (Ready k # rs) ws = ([], Closed)"
    "length buf < readBufSize \<Longrightarrow> 0 < n \<Longrightarrow> n = min (min (Suc k) (readBufSize - length buf)) (length inp) \<Longrightarrow>
      rawLoop kern ix buf inp (Ready k # rs) ws = rawLoop kern ix (buf @ take n inp) (drop n inp) rs ws"
proof -
  note d = drain_incomplete [OF assms, of kern ix ws]
  show "rawLoop kern ix buf inp (Ready k # rs) ws = rawLoop kern ix (buf @ take n inp) (drop n inp) rs ws"
    if room: "length buf < readBufSize" "0 < n" and n: "n = min (min (Suc k) (readBufSize - length buf)) (length inp)"
  proof -
    let ?m = "min (Suc k) (readBufSize - length buf)"
    have "take n inp = take ?m inp" "drop n inp = drop ?m inp" unfolding n by (simp_all add: min_def)
    moreover obtain m where "inp \<noteq> []" "?m = Suc m" using room n by (cases ?m) auto
    ultimately show ?thesis using room(1) d by (simp add: rawLoop.simps [of kern ix buf "inp" "Ready k # rs"] Let_def)
  qed
qed (use drain_incomplete [OF assms, of kern ix ws] in \<open>auto simp: rawLoop.simps [of kern ix buf] Let_def min_def\<close>)

lemma writeAll_steps:
  "r \<noteq> [] \<Longrightarrow> n = min (Suc m) (length r) \<Longrightarrow>
    afterWrite (writeAll r (Room m # ws)) k = prepend (take n r) (afterWrite (writeAll (drop n r) ws) k)"
  "r \<noteq> [] \<Longrightarrow> afterWrite (writeAll r (WIntr # ws)) k = afterWrite (writeAll r ws) k"
  "r \<noteq> [] \<Longrightarrow> afterWrite (writeAll r (WFail # ws)) k = ([], Closed)"
  "afterWrite (writeAll [] ws) k = k ws"
  by (auto simp: afterWrite_def Let_def prepend_def min_def split: prod.split wout.split) (cases ws; simp add: prepend_def)+

text \<open>The body of a parsed request is a slice of the buffer that ends where the request ends.\<close>

lemma ParseRequest_slice:
  assumes "ParseRequest buf = Some (Inr r)"
  shows "Body r = take (length (Body r)) (drop (PEnd r - length (Body r)) buf)" "length (Body r) \<le> PEnd r"
  using assms
  by (auto simp: ParseRequest_def Let_def split: if_splits option.splits)

text \<open>What the sequential handler still does from where a handler stands.\<close>

definition resume :: "kernel \<Rightarrow> Index \<Rightarrow> gor \<Rightarrow> bytes \<Rightarrow> rd list \<Rightarrow> wr list \<Rightarrow> bytes \<times> status" where
  "resume kern ix g b rs ws =
     (case gPc g of
        Writing r e \<Rightarrow> afterWrite (writeAll r ws) (\<lambda>ws'. rawLoop kern ix (drop e (take (gPos g) b)) (gIn g) rs ws')
      | Returned \<Rightarrow> ([], Closed)
      | Crashed \<Rightarrow> ([], Panicked)
      | _ \<Rightarrow> rawLoop kern ix (take (gPos g) b) (gIn g) rs ws)"

text \<open>What a handler knows of its objects.\<close>

definition holds :: "kernel \<Rightarrow> Index \<Rightarrow> gor \<Rightarrow> bytes \<Rightarrow> Payload \<Rightarrow> bool" where
  "holds kern ix g b p \<longleftrightarrow> length b = readBufSize \<and> gPos g \<le> readBufSize \<and>
     (case gPc g of
        AtRead \<Rightarrow> ParseRequest (take (gPos g) b) = Some (Inl ErrIncomplete)
      | GotReq m off n e \<Rightarrow>
          ParseRequest (take (gPos g) b) = Some (Inr \<lparr>PM = m, Body = take n (drop off b), PEnd = e\<rparr>) \<and> e \<le> gPos g
      | Loaded e \<Rightarrow> (\<exists>r. ParseRequest (take (gPos g) b) = Some (Inr r) \<and> PM r = MethodPostScore \<and>
                        Parse (Body r) = Some (Inr p) \<and> PEnd r = e \<and> e \<le> gPos g)
      | Writing r e \<Rightarrow> 0 < e \<and> e \<le> gPos g
      | _ \<Rightarrow> True)"

definition sim :: "kernel \<Rightarrow> Index \<Rightarrow> bytes \<times> bytes \<Rightarrow> gor \<Rightarrow> bytes \<Rightarrow> Payload \<Rightarrow> bool" where
  "sim kern ix a g b p \<longleftrightarrow> holds kern ix g b p \<and>
     (\<exists>R W. \<forall>rs ws. handleRawConn kern ix (fst a) (snd a) (R @ rs) (W @ ws) = prepend (gOut g) (resume kern ix g b rs ws))"

lemma Respond_cases:
  "PM r = MethodGetReady \<Longrightarrow> Respond kern ix r = Some ReadyResp"
  "PM r = MethodOther \<Longrightarrow> Respond kern ix r = Some NotFoundResp"
  "PM r = MethodPostScore \<Longrightarrow> Parse (Body r) = Some (Inl err) \<Longrightarrow> Respond kern ix r = Some (scores ! 0)"
  "PM r = MethodPostScore \<Longrightarrow> Parse (Body r) = Some (Inr p) \<Longrightarrow> Respond kern ix r = scorePayload kern ix p"
  "PM r = MethodPostScore \<Longrightarrow> Parse (Body r) = None \<Longrightarrow> Respond kern ix r = None"
proof -
  have "read_at scores 0 = Some (scores ! 0)" by (simp add: read_at_def scores_def)
  then show "PM r = MethodPostScore \<Longrightarrow> Parse (Body r) = Some (Inl err) \<Longrightarrow> Respond kern ix r = Some (scores ! 0)"
    by (simp add: Respond_def)
qed (simp_all add: Respond_def scorePayload_def)

text \<open>A step that writes \<open>w\<close> matches the sequential handler moving its schedule on by \<open>rs0\<close> and \<open>ws0\<close>.\<close>

definition matches ::
  "kernel \<Rightarrow> Index \<Rightarrow> gor \<Rightarrow> bytes \<Rightarrow> gor \<Rightarrow> bytes \<Rightarrow> Payload \<Rightarrow> bytes \<Rightarrow> rd list \<Rightarrow> wr list \<Rightarrow> bool" where
  "matches kern ix g b g' b' p' w rs0 ws0 \<longleftrightarrow> holds kern ix g' b' p' \<and> gOut g' = gOut g @ w \<and>
     (\<forall>rs ws. resume kern ix g b (rs0 @ rs) (ws0 @ ws) = prepend w (resume kern ix g' b' rs ws))"

lemma sim_step:
  assumes "sim kern ix a g b p" "matches kern ix g b g' b' p' w rs0 ws0"
  shows "sim kern ix a g' b' p'"
proof -
  obtain R W where rw: "\<And>rs ws. handleRawConn kern ix (fst a) (snd a) (R @ rs) (W @ ws) = prepend (gOut g) (resume kern ix g b rs ws)"
    using assms(1) by (auto simp: sim_def)
  have "handleRawConn kern ix (fst a) (snd a) ((R @ rs0) @ rs) ((W @ ws0) @ ws) = prepend (gOut g') (resume kern ix g' b' rs ws)" for rs ws
    using rw [of "rs0 @ rs" "ws0 @ ws"] assms(2) by (simp add: matches_def)
  then show ?thesis using assms(2) unfolding sim_def matches_def by blast
qed

lemma take_overwrite: "length xs \<le> length b \<Longrightarrow> take (length xs) (overwrite b 0 xs) = xs"
  by (simp add: overwrite_def)

lemma length_overwrite: "i + length xs \<le> length b \<Longrightarrow> length (overwrite b i xs) = length b"
  by (simp add: overwrite_def)

lemma take_overwrite_at: "i + n \<le> length b \<Longrightarrow> length xs = n \<Longrightarrow> take (i + n) (overwrite b i xs) = take i b @ xs"
  by (simp add: overwrite_def)

lemma start_matches:
  assumes "length b = readBufSize" "hstart a b = (g, b')"
  shows "holds kern ix g b' p" "gOut g = []" "handleRawConn kern ix (fst a) (snd a) rs ws = resume kern ix g b' rs ws"
  using assms
  by (auto simp: hstart_def holds_def handleRawConn_def resume_def take_overwrite length_overwrite split: if_splits prod.splits)

lemma sim_start: "length b = readBufSize \<Longrightarrow> hstart a b = (g, b') \<Longrightarrow> sim kern ix a g b' p"
  unfolding sim_def using start_matches [of b a g b'] by (intro conjI exI [of _ "[]"]) simp_all

lemma take_slice: "off + n \<le> pos \<Longrightarrow> take n (drop off (take pos b)) = take n (drop off b)"
  by (simp add: drop_take)

text \<open>Parsing in place.\<close>

lemma parse_matches:
  assumes "holds kern ix g b p" "gPc g = AtLoop"
  shows "matches kern ix g b (g\<lparr>gPc := parsed (gPos g) b\<rparr>) b p [] [] []"
proof -
  let ?buf = "take (gPos g) b"
  have len: "length b = readBufSize \<and> gPos g \<le> readBufSize" using assms(1) by (simp add: holds_def)
  have r: "PEnd r \<le> gPos g \<and> r = \<lparr>PM = PM r, Body = take (length (Body r)) (drop (PEnd r - length (Body r)) b), PEnd = PEnd r\<rparr>"
    if q: "ParseRequest ?buf = Some (Inr r)" for r
  proof -
    have e: "PEnd r \<le> gPos g" using ParseRequest_bounds [OF q] by simp
    then have "Body r = take (length (Body r)) (drop (PEnd r - length (Body r)) b)"
      using ParseRequest_slice [OF q] take_slice [of "PEnd r - length (Body r)" "length (Body r)" "gPos g" b] by simp
    then show ?thesis using e by simp
  qed
  have "holds kern ix (g\<lparr>gPc := parsed (gPos g) b\<rparr>) b p"
    using len r by (auto simp: holds_def parsed_def split: option.split sum.split HttpError.split)
  then show ?thesis unfolding matches_def
    using rawLoop_ends [of ?buf] assms(2) by (simp add: resume_def parsed_def split: option.split sum.split HttpError.split)
qed

lemma empty_matches:
  assumes "holds kern ix g b p" "gPc g = AtLoop" "gPos g = 0"
  shows "matches kern ix g b (g\<lparr>gPc := AtRead\<rparr>) b p [] [] []"
proof -
  have "parsed (gPos g) b = AtRead" using assms(3) by (simp add: parsed_def)
  then show ?thesis using parse_matches [OF assms(1,2)] by simp
qed

text \<open>Starting to write the response to the parsed request.\<close>

lemma respond_matches:
  assumes "holds kern ix g b p" "ParseRequest (take (gPos g) b) = Some (Inr r)" "PEnd r = e" "e \<le> gPos g"
    "gPc g = Loaded e \<or> (\<exists>m off n. gPc g = GotReq m off n e)"
  shows "matches kern ix g b (g\<lparr>gPc := (case Respond kern ix r of None \<Rightarrow> Crashed | Some x \<Rightarrow> Writing x e)\<rparr>) b p' [] [] []"
proof -
  have len: "length b = readBufSize \<and> gPos g \<le> readBufSize" using assms(1) by (simp add: holds_def)
  then have "holds kern ix (g\<lparr>gPc := (case Respond kern ix r of None \<Rightarrow> Crashed | Some x \<Rightarrow> Writing x e)\<rparr>) b p'"
    using assms(3,4) ParseRequest_bounds [OF assms(2)] by (auto simp: holds_def split: option.split)
  moreover have "resume kern ix g b rs ws = rawLoop kern ix (take (gPos g) b) (gIn g) rs ws" for rs ws
    using assms(5) by (auto simp: resume_def)
  ultimately show ?thesis
    using rawLoop_ends(3) [OF assms(2)] rawLoop_request [OF assms(2)] assms(3)
    by (cases "Respond kern ix r") (simp_all add: matches_def resume_def)
qed

lemma request_matches:
  assumes "holds kern ix g b p" "gPc g = GotReq m off n e"
  shows "matches kern ix g b (g\<lparr>gPc := (case Respond kern ix \<lparr>PM = m, Body = take n (drop off b), PEnd = e\<rparr> of
    None \<Rightarrow> Crashed | Some x \<Rightarrow> Writing x e)\<rparr>) b p' [] [] []"
  using assms by (intro respond_matches [OF assms(1)]) (auto simp: holds_def)

lemma load_matches:
  assumes "holds kern ix g b p" "gPc g = GotReq MethodPostScore off n e" "Parse (take n (drop off b)) = Some (Inr pl)"
  shows "matches kern ix g b (g\<lparr>gPc := Loaded e\<rparr>) b pl [] [] []"
  using assms by (auto simp: matches_def holds_def resume_def)

lemma score_matches:
  assumes "holds kern ix g b p" "gPc g = Loaded e"
  shows "matches kern ix g b (g\<lparr>gPc := (case scorePayload kern ix p of None \<Rightarrow> Crashed | Some r \<Rightarrow> Writing r e)\<rparr>) b p [] [] []"
proof -
  obtain r where "ParseRequest (take (gPos g) b) = Some (Inr r)" "PM r = MethodPostScore" "Parse (Body r) = Some (Inr p)"
      "PEnd r = e" "e \<le> gPos g"
    using assms by (auto simp: holds_def)
  then show ?thesis using respond_matches [OF assms(1), of r e p] assms(2) by (simp add: Respond_cases)
qed

text \<open>Reading behind the unfinished request.\<close>

lemma read_matches:
  assumes "holds kern ix g b p" "gPc g = AtRead" "gPos g \<noteq> length b" "n = min (min (Suc k) (length b - gPos g)) (length (gIn g))" "0 < n"
  shows "matches kern ix g b (g\<lparr>gPos := gPos g + n, gIn := drop n (gIn g), gPc := AtLoop\<rparr>) (overwrite b (gPos g) (take n (gIn g))) p
    [] [Ready k] []"
proof -
  have h: "length b = readBufSize" "gPos g \<le> readBufSize" "ParseRequest (take (gPos g) b) = Some (Inl ErrIncomplete)"
    using assms(1,2) by (simp_all add: holds_def)
  have n: "gPos g + n \<le> length b" "length (take n (gIn g)) = n" using h assms(3,4) by auto
  have "take (gPos g + n) (overwrite b (gPos g) (take n (gIn g))) = take (gPos g) b @ take n (gIn g)"
    using n by (rule take_overwrite_at)
  moreover have "holds kern ix (g\<lparr>gPos := gPos g + n, gIn := drop n (gIn g), gPc := AtLoop\<rparr>) (overwrite b (gPos g) (take n (gIn g))) p"
    using h n by (simp add: holds_def length_overwrite)
  moreover have "rawLoop kern ix (take (gPos g) b) (gIn g) (Ready k # rs) ws =
      rawLoop kern ix (take (gPos g) b @ take n (gIn g)) (drop n (gIn g)) rs ws" for rs ws
    using h(1,2) assms(3-5) by (intro rawLoop_reads(5) [OF h(3)]) simp_all
  ultimately show ?thesis using assms(2) unfolding matches_def by (simp add: resume_def)
qed

text \<open>The request is answered: the rest of the buffer moves to the front.\<close>

lemma shift_matches:
  assumes "holds kern ix g b p" "gPc g = Writing [] e"
  shows "e \<ge> gPos g \<Longrightarrow> matches kern ix g b (g\<lparr>gPos := 0, gPc := AtLoop\<rparr>) b p [] [] []"
    "e < gPos g \<Longrightarrow> matches kern ix g b (g\<lparr>gPos := gPos g - e, gPc := AtLoop\<rparr>) (overwrite b 0 (drop e (take (gPos g) b))) p [] [] []"
proof -
  have h: "length b = readBufSize" "gPos g \<le> readBufSize" using assms(1) by (simp_all add: holds_def)
  have l: "length (drop e (take (gPos g) b)) = gPos g - e" using h by simp
  have t: "take (gPos g - e) (overwrite b 0 (drop e (take (gPos g) b))) = drop e (take (gPos g) b)"
    using take_overwrite [of "drop e (take (gPos g) b)" b] h by (simp add: l)
  have "length (overwrite b 0 (drop e (take (gPos g) b))) = length b" using h by (intro length_overwrite) simp
  then show "e < gPos g \<Longrightarrow> matches kern ix g b (g\<lparr>gPos := gPos g - e, gPc := AtLoop\<rparr>) (overwrite b 0 (drop e (take (gPos g) b))) p [] [] []"
    using h t assms(2) by (simp add: matches_def holds_def resume_def writeAll_steps)
  show "e \<ge> gPos g \<Longrightarrow> matches kern ix g b (g\<lparr>gPos := 0, gPc := AtLoop\<rparr>) b p [] [] []"
    using h assms(2) by (simp add: matches_def holds_def resume_def writeAll_steps)
qed

text \<open>The system calls that move no data, and a write.\<close>

lemma write_matches:
  assumes "holds kern ix g b p" "gPc g = Writing r e" "r \<noteq> []"
  shows "n = min (Suc k) (length r) \<Longrightarrow> matches kern ix g b (g\<lparr>gOut := gOut g @ take n r, gPc := Writing (drop n r) e\<rparr>) b p (take n r) [] [Room k]"
    "matches kern ix g b g b p [] [] [WIntr]"
    "matches kern ix g b (g\<lparr>gPc := Returned\<rparr>) b p [] [] [WFail]"
  using assms(1,2) writeAll_steps(1-3) [OF assms(3)] by (simp_all add: matches_def holds_def resume_def)

lemma no_read_matches:
  assumes "holds kern ix g b p" "gPc g = AtRead"
  shows "gPos g = length b \<Longrightarrow> matches kern ix g b (g\<lparr>gPc := Returned\<rparr>) b p [] [] []"
    "gPos g \<noteq> length b \<Longrightarrow> gIn g = [] \<Longrightarrow> matches kern ix g b (g\<lparr>gPc := Returned\<rparr>) b p [] [Ready k] []"
    "gPos g \<noteq> length b \<Longrightarrow> matches kern ix g b (g\<lparr>gPc := Returned\<rparr>) b p [] [RFail] []"
    "gPos g \<noteq> length b \<Longrightarrow> matches kern ix g b (g\<lparr>gPc := AtLoop\<rparr>) b p [] [RIntr] []"
proof -
  have h: "length b = readBufSize" "gPos g \<le> readBufSize" "ParseRequest (take (gPos g) b) = Some (Inl ErrIncomplete)"
    using assms by (simp_all add: holds_def)
  note st = rawLoop_reads [OF h(3)] and simps = matches_def holds_def resume_def assms(2)
  show "gPos g = length b \<Longrightarrow> matches kern ix g b (g\<lparr>gPc := Returned\<rparr>) b p [] [] []" using h st(1) by (simp add: simps)
  show "gPos g \<noteq> length b \<Longrightarrow> gIn g = [] \<Longrightarrow> matches kern ix g b (g\<lparr>gPc := Returned\<rparr>) b p [] [Ready k] []"
    using h st(4) by (simp add: simps)
  show "gPos g \<noteq> length b \<Longrightarrow> matches kern ix g b (g\<lparr>gPc := Returned\<rparr>) b p [] [RFail] []" using h st(3) by (simp add: simps)
  show "gPos g \<noteq> length b \<Longrightarrow> matches kern ix g b (g\<lparr>gPc := AtLoop\<rparr>) b p [] [RIntr] []" using h st(2) by (simp add: simps)
qed

lemma hstep_matches:
  assumes "hstep kern ix g b p g' b' p'" "holds kern ix g b p"
  shows "\<exists>w rs0 ws0. matches kern ix g b g' b' p' w rs0 ws0"
  using assms(1)
proof cases
  case (h_write r e n)
  then have "r \<noteq> []" "n = min (Suc (n - 1)) (length r)" by auto
  then show ?thesis using write_matches(1) [OF assms(2)] h_write by blast
next
  case (h_read n)
  then have "n = min (min (Suc (n - 1)) (length b - gPos g)) (length (gIn g))" by simp
  then show ?thesis using read_matches [OF assms(2)] h_read by blast
next
  case h_ready
  then show ?thesis using request_matches [OF assms(2) h_ready(4), of p] by (auto simp: Respond_cases)
next
  case h_other
  then show ?thesis using request_matches [OF assms(2) h_other(4), of p] by (auto simp: Respond_cases)
next
  case h_malformed
  then show ?thesis using request_matches [OF assms(2) h_malformed(3), of p'] by (auto simp: Respond_cases)
next
  case h_panic
  then show ?thesis using request_matches [OF assms(2) h_panic(3), of p'] by (auto simp: Respond_cases)
qed (use empty_matches [OF assms(2)] parse_matches [OF assms(2)] load_matches [OF assms(2)] score_matches [OF assms(2)]
  shift_matches [OF assms(2)] write_matches(2,3) [OF assms(2)] no_read_matches [OF assms(2)] in blast)+

lemma sim_hstep: "hstep kern ix g b p g' b' p' \<Longrightarrow> sim kern ix a g b p \<Longrightarrow> sim kern ix a g' b' p'"
  using hstep_matches sim_step by (metis sim_def)

section \<open>The handlers of the process\<close>

definition hHalted :: "gor \<Rightarrow> bool" where
  "hHalted g \<longleftrightarrow> gPc g = Returned"

definition hPanicked :: "gor \<Rightarrow> bool" where
  "hPanicked g \<longleftrightarrow> gPc g = Crashed"

abbreviation "api_reachable kern ix \<equiv> reachable hstart (hstep kern ix) hHalted hPanicked"

definition sequential :: "kernel \<Rightarrow> Index \<Rightarrow> bytes \<times> bytes \<Rightarrow> gor \<Rightarrow> bool" where
  "sequential kern ix a g \<longleftrightarrow> (\<exists>rs ws. handleRawConn kern ix (fst a) (snd a) rs ws = (gOut g, Closed))"

lemma sim_length: "sim kern ix a g b p \<Longrightarrow> length b = readBufSize"
  by (simp add: sim_def holds_def)

lemma sim_halted: "sim kern ix a g b p \<Longrightarrow> hHalted g \<Longrightarrow> sequential kern ix a g"
proof -
  assume s: "sim kern ix a g b p" and "hHalted g"
  then have r: "resume kern ix g b [] [] = ([], Closed)" by (simp add: resume_def hHalted_def)
  obtain R W where "\<And>rs ws. handleRawConn kern ix (fst a) (snd a) (R @ rs) (W @ ws) = prepend (gOut g) (resume kern ix g b rs ws)"
    using s by (auto simp: sim_def)
  from this [of "[]" "[]"] have "handleRawConn kern ix (fst a) (snd a) (R @ []) (W @ []) = (gOut g, Closed)" unfolding r by simp
  then show ?thesis unfolding sequential_def by blast
qed

interpretation pool: pooled_handler hstart "hstep kern ix" hHalted hPanicked "sim kern ix" "sequential kern ix"
  for kern ix
  by unfold_locales (erule (1) sim_start, erule (1) sim_hstep [rotated], erule sim_length, erule (1) sim_halted)

section \<open>The sequential handler is simulated by a goroutine\<close>

text \<open>Each step of a handler moves on by consuming an answer of the kernel, by consuming a request, or to a
  later place of the loop.\<close>

fun rank :: "pc \<Rightarrow> nat" where
  "rank AtLoop = 5" | "rank (GotReq m off n e) = 4" | "rank (Loaded e) = 3" | "rank (Writing r e) = 2"
| "rank AtRead = 1" | "rank Returned = 0" | "rank Crashed = 0"

definition ahead :: "((gor \<times> rd list \<times> wr list) \<times> (gor \<times> rd list \<times> wr list)) set" where
  "ahead = measures [\<lambda>(g, rs, ws). length rs + length ws, \<lambda>(g, rs, ws). gPos g, \<lambda>(g, rs, ws). rank (gPc g)]"

lemma wf_ahead: "wf ahead"
  by (simp add: ahead_def)

definition advances :: "kernel \<Rightarrow> Index \<Rightarrow> gor \<Rightarrow> bytes \<Rightarrow> Payload \<Rightarrow> rd list \<Rightarrow> wr list \<Rightarrow> bool" where
  "advances kern ix g b p rs ws \<longleftrightarrow>
     (\<exists>g' b' p' w rs' ws'. hstep kern ix g b p g' b' p' \<and> holds kern ix g' b' p' \<and> gOut g' = gOut g @ w \<and>
        resume kern ix g b rs ws = prepend w (resume kern ix g' b' rs' ws') \<and> ((g', rs', ws'), (g, rs, ws)) \<in> ahead)"

lemma advancesI:
  assumes "matches kern ix g b g' b' p' w rs0 ws0" "hstep kern ix g b p g' b' p'" "rs = rs0 @ rs'" "ws = ws0 @ ws'"
    "((g', rs', ws'), (g, rs0 @ rs', ws0 @ ws')) \<in> ahead"
  shows "advances kern ix g b p rs ws"
  using assms unfolding advances_def matches_def by blast

lemma advance_request:
  assumes "holds kern ix g b p" "gPc g = GotReq m off n e"
  shows "advances kern ix g b p rs ws"
proof (cases "m = MethodPostScore \<and> (\<exists>pl. Parse (take n (drop off b)) = Some (Inr pl))")
  case True
  then show ?thesis using assms
    by (auto simp: ahead_def intro: advancesI [OF load_matches hstep.h_load])
next
  case False
  let ?g = "g\<lparr>gPc := (case Respond kern ix \<lparr>PM = m, Body = take n (drop off b), PEnd = e\<rparr> of
    None \<Rightarrow> Crashed | Some x \<Rightarrow> Writing x e)\<rparr>"
  have "hstep kern ix g b p ?g b p"
  proof (cases m)
    case MethodPostScore
    then consider "Parse (take n (drop off b)) = None" | err where "Parse (take n (drop off b)) = Some (Inl err)"
      using False by (metis not_None_eq sum.exhaust)
    then show ?thesis using assms(2) MethodPostScore by cases (auto simp: Respond_cases intro: hstep.intros)
  qed (use assms(2) in \<open>auto simp: Respond_cases intro: hstep.intros\<close>)
  then show ?thesis using assms(2)
    by (intro advancesI [OF request_matches [OF assms]]) (auto simp: ahead_def split: option.split)
qed

lemma advance_write:
  assumes "holds kern ix g b p" "gPc g = Writing r e" "snd (resume kern ix g b rs ws) \<noteq> Waiting"
  shows "advances kern ix g b p rs ws"
proof (cases "r = []")
  case True
  have e: "0 < e" "e \<le> gPos g" using assms(1,2) by (simp_all add: holds_def)
  show ?thesis
  proof (cases "e \<ge> gPos g")
    case e': True
    show ?thesis using e e' assms(2) True
      by (intro advancesI [OF shift_matches(1) [OF assms(1)] hstep.h_consume]) (auto simp: ahead_def)
  next
    case e': False
    show ?thesis using e e' assms(2) True
      by (intro advancesI [OF shift_matches(2) [OF assms(1)] hstep.h_shift]) (auto simp: ahead_def)
  qed
next
  case False
  note m = write_matches [OF assms(1,2) False]
  show ?thesis
  proof (cases ws)
    case Nil
    then show ?thesis using assms False by (simp add: resume_def afterWrite_def)
  next
    case (Cons x ws')
    show ?thesis
    proof (cases x)
      case (Room k)
      have "0 < min (Suc k) (length r)" "min (Suc k) (length r) \<le> length r" using False by auto
      then show ?thesis
        by (intro advancesI [OF m(1) [OF refl] hstep.h_write, of k rs rs ws ws']) (simp_all add: assms(2) Cons Room ahead_def)
    next
      case WIntr
      show ?thesis using False
        by (intro advancesI [OF m(2) hstep.h_write_intr, of r e rs rs ws ws']) (simp_all add: assms(2) Cons WIntr ahead_def)
    next
      case WFail
      show ?thesis using False
        by (intro advancesI [OF m(3) hstep.h_write_fail, of r e rs rs ws ws']) (simp_all add: assms(2) Cons WFail ahead_def)
    qed
  qed
qed

lemma advance_ready:
  assumes "holds kern ix g b p" "gPc g = AtRead" "gPos g \<noteq> length b"
  shows "advances kern ix g b p (Ready k # rs') ws"
proof (cases "gIn g = []")
  case True
  show ?thesis
    by (rule advancesI [OF no_read_matches(2) [OF assms True, of k] hstep.h_eof, of "Ready k # rs'" rs' ws ws])
      (use True assms(2,3) in \<open>simp_all add: ahead_def\<close>)
next
  case False
  have "gPos g < length b" using assms(1,3) by (simp add: holds_def)
  then have "0 < min (min (Suc k) (length b - gPos g)) (length (gIn g))" using False by simp
  then show ?thesis
    by (intro advancesI [OF read_matches [OF assms refl, of k] hstep.h_read, of "Ready k # rs'" rs' ws ws])
      (use assms(2,3) in \<open>simp_all add: ahead_def\<close>)
qed

lemma advance_read:
  assumes "holds kern ix g b p" "gPc g = AtRead" "snd (resume kern ix g b rs ws) \<noteq> Waiting"
  shows "advances kern ix g b p rs ws"
proof (cases "gPos g = length b")
  case True
  show ?thesis
    by (rule advancesI [OF no_read_matches(1) [OF assms(1,2) True] hstep.h_full [OF assms(2) True], of rs rs ws ws])
      (simp_all add: ahead_def assms(2))
next
  case False
  note m = no_read_matches [OF assms(1,2)]
  have inc: "ParseRequest (take (gPos g) b) = Some (Inl ErrIncomplete)" "length (take (gPos g) b) \<noteq> readBufSize"
    using assms(1,2) False by (auto simp: holds_def)
  consider "rs = []" | k rs' where "rs = Ready k # rs'" | rs' where "rs = RIntr # rs'" | rs' where "rs = RFail # rs'"
    by (cases rs; cases "hd rs") auto
  then show ?thesis
  proof cases
    case 1
    then show ?thesis using assms(2,3) inc
      by (simp add: resume_def rawLoop.simps [of kern ix "take (gPos g) b"] drain_incomplete)
  next
    case 2
    then show ?thesis using advance_ready [OF assms(1,2) False] by simp
  next
    case (3 rs')
    show ?thesis
      by (rule advancesI [OF m(4) [OF False] hstep.h_read_intr, of rs rs' ws ws]) (use False assms(2) in \<open>simp_all add: 3 ahead_def\<close>)
  next
    case (4 rs')
    show ?thesis
      by (rule advancesI [OF m(3) [OF False] hstep.h_read_fail, of rs rs' ws ws]) (use False assms(2) in \<open>simp_all add: 4 ahead_def\<close>)
  qed
qed

lemma advance:
  assumes "holds kern ix g b p" "gPc g \<noteq> Returned" "gPc g \<noteq> Crashed" "snd (resume kern ix g b rs ws) \<noteq> Waiting"
  shows "advances kern ix g b p rs ws"
proof (cases "gPc g")
  case AtLoop
  have "rank (parsed (gPos g) b) < 5" by (simp add: parsed_def split: option.split sum.split HttpError.split)
  then show ?thesis using AtLoop assms(1)
    by (cases "gPos g = 0")
      (auto simp: ahead_def intro: advancesI [OF empty_matches hstep.h_empty] advancesI [OF parse_matches hstep.h_parse])
next
  case (Loaded e)
  show ?thesis
    by (rule advancesI [OF score_matches [OF assms(1) Loaded] hstep.h_score [OF Loaded], of rs rs ws ws])
      (auto simp: ahead_def Loaded split: option.split)
qed (use assms advance_request [OF assms(1)] advance_write [OF assms(1)] advance_read [OF assms(1)] in auto)

text \<open>A scheduler that lets the handler of \<open>c\<close> run until it returns.\<close>

lemmas api_start = w_start [where start = hstart and halted = hHalted and panicked = hPanicked]
lemmas api_run = w_run [where start = hstart and halted = hHalted and panicked = hPanicked]
lemmas api_return = w_return [where start = hstart and halted = hHalted and panicked = hPanicked]

definition ends_with :: "kernel \<Rightarrow> Index \<Rightarrow> (bytes \<times> bytes, gor) world \<Rightarrow> nat \<Rightarrow> bytes \<times> bytes \<Rightarrow> bytes \<Rightarrow> bool" where
  "ends_with kern ix w c a out \<longleftrightarrow>
     (\<exists>w' i j g'. api_reachable kern ix w' \<and> alive w' \<and> running w' c = Some (a, i, j, g') \<and> hHalted g' \<and> gOut g' = out \<and>
       (\<forall>d. d \<noteq> c \<longrightarrow> running w' d = running w d) \<and> finished w' = finished w)"

lemma runs_to_the_end:
  assumes "api_reachable kern ix w" "alive w" "running w c = Some (a, i, j, g)" "holds kern ix g (wBuf w i) (wPay w j)"
    "resume kern ix g (wBuf w i) rs ws = (out, Closed)"
  shows "ends_with kern ix w c a (gOut g @ out)"
proof -
  have "ends_with kern ix w c a (gOut g @ out)"
    if "x = (g, rs, ws)" "api_reachable kern ix w" "alive w" "running w c = Some (a, i, j, g)"
    "holds kern ix g (wBuf w i) (wPay w j)" "resume kern ix g (wBuf w i) rs ws = (out, Closed)" for x w g rs ws out
    using that
  proof (induction x arbitrary: w g rs ws out rule: wf_induct_rule [OF wf_ahead])
    case (1 x)
    show ?case
    proof (cases "gPc g = Returned")
      case True
      then have "out = []" "hHalted g" using 1(7) by (simp_all add: hHalted_def resume_def)
      then show ?thesis unfolding ends_with_def using 1(3-5) by auto
    next
      case False
      have "gPc g \<noteq> Crashed" using 1(7) by (auto simp: resume_def)
      then have "advances kern ix g (wBuf w i) (wPay w j) rs ws" using 1(6,7) False by (intro advance) simp_all
      then obtain g' b' p' v rs' ws' where s: "hstep kern ix g (wBuf w i) (wPay w j) g' b' p'" "holds kern ix g' b' p'"
          "gOut g' = gOut g @ v" "resume kern ix g (wBuf w i) rs ws = prepend v (resume kern ix g' b' rs' ws')"
          "((g', rs', ws'), x) \<in> ahead"
        unfolding advances_def 1(2) by blast
      then obtain out' where o': "resume kern ix g' b' rs' ws' = (out', Closed)" "out = v @ out'"
        using 1(7) by (cases "resume kern ix g' b' rs' ws'") auto
      then have np: "\<not> hPanicked g'" by (auto simp: resume_def hPanicked_def)
      let ?w = "w\<lparr>wBuf := (wBuf w)(i := b'), wPay := (wPay w)(j := p'), running := (running w)(c \<mapsto> (a, i, j, g')),
        alive := \<not> hPanicked g'\<rparr>"
      have "api_reachable kern ix ?w" by (rule reach_step [OF 1(3) api_run [where step = "hstep kern ix", OF 1(4,5) s(1)]])
      then have "ends_with kern ix ?w c a (gOut g' @ out')" using s o' np by (intro 1(1) [OF s(5) refl]) simp_all
      then show ?thesis unfolding ends_with_def s(3) o'(2) by auto
    qed
  qed
  then show ?thesis using assms by blast
qed

text \<open>A new connection can always get its objects, and its handler then return with any output that the
  sequential handler can return with.\<close>

lemma starts:
  assumes "api_reachable kern ix w" "alive w" "running w c = None" "finished w c = None"
  shows "\<exists>w' i j g. api_reachable kern ix w' \<and> alive w' \<and> running w' c = Some (a, i, j, g) \<and> gOut g = [] \<and> holds kern ix g (wBuf w' i) (wPay w' j) \<and>
    (\<forall>rs ws. handleRawConn kern ix (fst a) (snd a) rs ws = resume kern ix g (wBuf w' i) rs ws) \<and>
    (\<forall>d. d \<noteq> c \<longrightarrow> running w' d = running w d) \<and> finished w' = finished w"
proof -
  define w1 where "w1 = w\<lparr>newB := Suc (newB w), wBuf := (wBuf w)(newB w := replicate readBufSize CHR 0x00)\<rparr>"
  define w2 where "w2 = w1\<lparr>newP := Suc (newP w1), wPay := (wPay w1)(newP w1 := Payload0)\<rparr>"
  obtain g b where st: "hstart a (wBuf w2 (newB w)) = (g, b)" by force
  have g: "getB w (newB w) w1" "getP w1 (newP w1) w2" unfolding w1_def w2_def by (rule allocB, rule allocP)
  have len: "length (wBuf w2 (newB w)) = readBufSize" by (simp add: w1_def w2_def)
  note m = start_matches [OF len st]
  let ?w = "w2\<lparr>wBuf := (wBuf w2)(newB w := b), running := (running w2)(c \<mapsto> (a, newB w, newP w1, g)),
    defers := (defers w2)(c := deferredPuts (newB w) (newP w1))\<rparr>"
  have "api_reachable kern ix ?w" by (rule reach_step [OF assms(1) api_start [OF assms(2-4) g st]])
  moreover have "alive ?w" "finished ?w = finished w" "\<forall>d. d \<noteq> c \<longrightarrow> running ?w d = running w d"
    using assms(2) by (simp_all add: w1_def w2_def)
  moreover have "running ?w c = Some (a, newB w, newP w1, g)" "wBuf ?w (newB w) = b" by simp_all
  ultimately show ?thesis using m by metis
qed

lemma returns:
  assumes "api_reachable kern ix w" "alive w" "running w c = Some (a, i, j, g)" "hHalted g"
  shows "\<exists>w'. api_reachable kern ix w' \<and> alive w' \<and> running w' c = None \<and> finished w' = (finished w)(c \<mapsto> (a, g)) \<and>
    (\<forall>d. d \<noteq> c \<longrightarrow> running w' d = running w d)"
  using reach_step [OF assms(1) api_return [OF assms(2-4)]] assms(2)
  by (intro exI [of _ "w\<lparr>running := (running w)(c := None), finished := (finished w)(c \<mapsto> (a, g))\<rparr>"]) simp

lemma handleRawConn_prefix: "prefix (fst (handleRawConn kern ix pre inp rs ws)) (concat (fst (answers kern ix (pre @ inp))))"
  using rawLoop_prefix [of kern ix pre inp rs ws] by (simp add: handleRawConn_def)

lemma sim_prefix: "sim kern ix a g b p \<Longrightarrow> prefix (gOut g) (concat (fst (answers kern ix (fst a @ snd a))))"
proof -
  assume "sim kern ix a g b p"
  then obtain R W where "\<forall>rs ws. handleRawConn kern ix (fst a) (snd a) (R @ rs) (W @ ws) = prepend (gOut g) (resume kern ix g b rs ws)"
    by (auto simp: sim_def)
  then have "prefix (gOut g) (fst (handleRawConn kern ix (fst a) (snd a) (R @ []) (W @ [])))" by (metis fst_conv prefixI prepend_def)
  also have "prefix \<dots> (concat (fst (answers kern ix (fst a @ snd a))))" by (rule handleRawConn_prefix)
  finally show ?thesis .
qed

lemma sequential_prefix:
  assumes "api_reachable kern ix w" "running w c = Some (a, i, j, g)"
  shows "prefix (gOut g) (concat (fst (answers kern ix (fst a @ snd a))))"
proof -
  have "sim kern ix a g (wBuf w i) (wPay w j)" using pool.goodD(4) [OF pool.reachable_good [OF assms(1)] assms(2)] .
  then show ?thesis by (rule sim_prefix)
qed

lemma finished_sequential:
  assumes "api_reachable kern ix w" "finished w c = Some (a, g)"
  shows "\<exists>rs ws. handleRawConn kern ix (fst a) (snd a) rs ws = (gOut g, Closed)"
proof -
  have "sequential kern ix a g" using pool.goodD(5) [OF pool.reachable_good [OF assms(1)] assms(2)] .
  then show ?thesis by (simp add: sequential_def)
qed

lemma finished_prefix:
  "api_reachable kern ix w \<Longrightarrow> finished w c = Some (a, g) \<Longrightarrow> prefix (gOut g) (concat (fst (answers kern ix (fst a @ snd a))))"
  using finished_sequential [of kern ix w c a g] handleRawConn_prefix [of kern ix "fst a" "snd a"] by (metis fst_conv)

text \<open>Beside the handlers that are running, a new one can return with any output of the sequential handler.\<close>

lemma can_finish:
  assumes "api_reachable kern ix w" "alive w" "running w c = None" "finished w c = None" "handleRawConn kern ix pre inp rs ws = (out, Closed)"
  shows "\<exists>w' g. api_reachable kern ix w' \<and> finished w' = (finished w)(c \<mapsto> ((pre, inp), g)) \<and> gOut g = out \<and> running w' = running w"
proof -
  obtain w1 i j g where 1: "api_reachable kern ix w1" "alive w1" "running w1 c = Some ((pre, inp), i, j, g)" "gOut g = []"
      "holds kern ix g (wBuf w1 i) (wPay w1 j)" "resume kern ix g (wBuf w1 i) rs ws = (out, Closed)"
      "\<forall>d. d \<noteq> c \<longrightarrow> running w1 d = running w d" "finished w1 = finished w"
    using starts [OF assms(1-4), of "(pre, inp)"] assms(5) by auto
  then have "ends_with kern ix w1 c (pre, inp) out" using runs_to_the_end [OF 1(1-3,5,6)] by simp
  then obtain w2 i j g where 2: "api_reachable kern ix w2" "alive w2" "running w2 c = Some ((pre, inp), i, j, g)" "hHalted g" "gOut g = out"
      "\<forall>d. d \<noteq> c \<longrightarrow> running w2 d = running w1 d" "finished w2 = finished w1"
    unfolding ends_with_def by blast
  obtain w3 where 3: "api_reachable kern ix w3" "running w3 c = None" "finished w3 = (finished w2)(c \<mapsto> ((pre, inp), g))"
      "\<forall>d. d \<noteq> c \<longrightarrow> running w3 d = running w2 d"
    using returns [OF 2(1-4)] by blast
  have "running w3 d = running w d" for d using 1(7) 2(6) 3(2,4) assms(3) by (cases "d = c") simp_all
  then show ?thesis
    using 1(8) 2(5,7) 3(1,3) by (intro exI [of _ w3] exI [of _ g]) auto
qed

text \<open>(C4) Concurrent handlers behave like sequential ones, with buffers and payloads that other
  connections have used. Whatever the interleaving, what a running handler has written so far is a prefix of
  the responses to its own stream; a handler that has returned has written what
  \<open>handleRawConn\<close> writes on its stream for some answers of the kernel; and everything
  \<open>handleRawConn\<close> can write before it returns, a new goroutine can, beside those that are already running.\<close>

theorem goroutines_sequential:
  assumes "api_reachable kern ix w"
  shows "(\<forall>c a i j g. running w c = Some (a, i, j, g) \<longrightarrow> prefix (gOut g) (concat (fst (answers kern ix (fst a @ snd a))))) \<and>
    (\<forall>c a g. finished w c = Some (a, g) \<longrightarrow> (\<exists>rs ws. handleRawConn kern ix (fst a) (snd a) rs ws = (gOut g, Closed))) \<and>
    (\<forall>c pre inp rs ws out. alive w \<longrightarrow> running w c = None \<longrightarrow> finished w c = None \<longrightarrow>
       handleRawConn kern ix pre inp rs ws = (out, Closed) \<longrightarrow>
       (\<exists>w' g. api_reachable kern ix w' \<and> finished w' = (finished w)(c \<mapsto> ((pre, inp), g)) \<and> gOut g = out \<and> running w' = running w))"
proof (intro conjI allI impI)
  fix c a i j g
  assume "running w c = Some (a, i, j, g)"
  then show "prefix (gOut g) (concat (fst (answers kern ix (fst a @ snd a))))" by (rule sequential_prefix [OF assms])
next
  fix c a g
  assume "finished w c = Some (a, g)"
  then show "\<exists>rs ws. handleRawConn kern ix (fst a) (snd a) rs ws = (gOut g, Closed)" by (rule finished_sequential [OF assms])
next
  fix c pre inp rs ws out
  assume "alive w" "running w c = None" "finished w c = None" "handleRawConn kern ix pre inp rs ws = (out, Closed)"
  then show "\<exists>w' g. api_reachable kern ix w' \<and> finished w' = (finished w)(c \<mapsto> ((pre, inp), g)) \<and> gOut g = out \<and> running w' = running w"
    by (rule can_finish [OF assms])
qed

text \<open>(C17) The pools keep goroutines apart: in every state the process can reach, under every interleaving
  of the handlers and of their deferred calls and every choice of the pools, no object lies in a pool twice. What a running
  handler holds lies in no pool, is held by no other running handler, and no other handler has yet to put it back.\<close>

theorem pool_exclusive:
  assumes "api_reachable kern ix w"
  shows "(\<forall>i. count (freeB w) i \<le> 1 \<and> count (freeP w) i \<le> 1) \<and>
    (\<forall>c a i j g. running w c = Some (a, i, j, g) \<longrightarrow> i \<notin># freeB w \<and> j \<notin># freeP w \<and>
       (\<forall>d. d \<noteq> c \<longrightarrow> PutB i \<notin> set (defers w d) \<and> PutP j \<notin> set (defers w d)) \<and>
       (\<forall>d a' i' j' g'. running w d = Some (a', i', j', g') \<longrightarrow> d \<noteq> c \<longrightarrow> i' \<noteq> i \<and> j' \<noteq> j))"
proof (intro conjI allI impI)
  note o = ownedD [OF pool.goodD(1) [OF pool.reachable_good [OF assms]]]
  show "count (freeB w) i \<le> 1" "count (freeP w) i \<le> 1" for i using o(1) [of "PutB i"] o(1) [of "PutP i"] by simp_all
  fix c a i j g
  assume "running w c = Some (a, i, j, g)"
  then have m: "PutB i \<in> set (defers w c)" "PutP j \<in> set (defers w c)" using o(7) [of c a i j g] by simp_all
  then show "i \<notin># freeB w" "j \<notin># freeP w" using o(4) [of "PutB i" c] o(4) [of "PutP j" c] by (simp_all add: not_in_iff)
  fix d
  assume d: "d \<noteq> c"
  show n: "PutB i \<notin> set (defers w d)" "PutP j \<notin> set (defers w d)" using m d o(6) [of _ c d] by blast+
  fix a' i' j' g'
  assume "running w d = Some (a', i', j', g')"
  then have "set (defers w d) = {PutB i', PutP j'}" by (rule o(7))
  then show "i' \<noteq> i" "j' \<noteq> j" using n by auto
qed

section \<open>The handlers of the TCP port\<close>

text \<open>\<open>handleConn\<close> of \<open>cmd/api/main.go\<close> takes its objects from the same pools and runs the same loop, but it starts before
  a read. \<open>net.Conn\<close> retries interrupted calls and writes all of its argument, which are the steps of \<open>hstep\<close> that
  stay where they are.\<close>

definition connStart :: "bytes \<Rightarrow> bytes \<Rightarrow> gor \<times> bytes" where
  "connStart inp b = (\<lparr>gPos = 0, gIn = inp, gOut = [], gPc = AtRead\<rparr>, b)"

lemma sim_connStart: "length b = readBufSize \<Longrightarrow> connStart inp b = (g, b') \<Longrightarrow> sim kern ix ([], inp) g b' p"
  unfolding sim_def
  by (intro conjI exI [of _ "[]"]) (auto simp: connStart_def holds_def handleRawConn_def resume_def)

interpretation tcp: pooled_handler connStart "hstep kern ix" hHalted hPanicked "\<lambda>inp. sim kern ix ([], inp)" "\<lambda>inp. sequential kern ix ([], inp)"
  for kern ix
  by unfold_locales (erule (1) sim_connStart, erule (1) sim_hstep [rotated], erule sim_length, erule (1) sim_halted)

text \<open>The connections of the TCP port are kept apart in the same way.\<close>

theorem tcp_goroutines:
  assumes "reachable connStart (hstep kern ix) hHalted hPanicked w"
  shows "(\<forall>c inp i j g. running w c = Some (inp, i, j, g) \<longrightarrow> prefix (gOut g) (concat (fst (answers kern ix inp)))) \<and>
    (\<forall>c inp g. finished w c = Some (inp, g) \<longrightarrow> (\<exists>rs ws. handleConn kern ix inp rs ws = (gOut g, Closed)))"
proof -
  have g: "tcp.good kern ix w" by (rule tcp.reachable_good [OF assms])
  then have "sim kern ix ([], inp) g (wBuf w i) (wPay w j)" if "running w c = Some (inp, i, j, g)" for c inp i j g
    using that by (auto simp: tcp.good_def)
  then have "prefix (gOut g) (concat (fst (answers kern ix inp)))" if "running w c = Some (inp, i, j, g)" for c inp i j g
    using sim_prefix that by fastforce
  moreover have "\<exists>rs ws. handleConn kern ix inp rs ws = (gOut g, Closed)" if "finished w c = Some (inp, g)" for c inp g
    using g that by (auto simp: tcp.good_def sequential_def handleConn_raw)
  ultimately show ?thesis by blast
qed

section \<open>Two connections\<close>

lemma ready_seq: "handleRawConn kern ix ready_text [] [RFail] [Room 200] = (ReadyResp, Closed)"
proof -
  have "rawLoop kern ix [] [] [RFail] [] = ([], Closed)" by (rule rawLoop_reads(3)) simp_all
  moreover have "writeAll ReadyResp [Room 200] = (ReadyResp, WDone [])" by (simp add: ReadyResp_def crlf_def)
  moreover have "length ready_text \<le> readBufSize" by (simp add: ready_text_def crlf_def)
  ultimately show ?thesis
    using rawLoop_request [OF ParseRequest_ready Respond_cases(1), of kern ix "[]" "[RFail]" "[Room 200]"]
    by (simp add: handleRawConn_def afterWrite_def)
qed

theorem goroutines_sequential_witness:
  "\<exists>w g. api_reachable amd64 ix_far w \<and> finished w 0 = Some ((ready_text, []), g) \<and> gOut g = ReadyResp"
proof -
  have "api_reachable amd64 ix_far world0" by (rule reach0)
  from goroutines_sequential [OF this] ready_seq [of amd64 ix_far] show ?thesis
    by (simp add: world0_def) (metis fun_upd_same)
qed

theorem pool_exclusive_witness:
  "\<exists>w a i j g a' i' j' g'. api_reachable amd64 ix_far w \<and> running w 0 = Some (a, i, j, g) \<and> running w 1 = Some (a', i', j', g') \<and>
    i \<notin># freeB w \<and> i' \<noteq> i \<and> j' \<noteq> j"
proof -
  have 0: "api_reachable amd64 ix_far world0" "alive (world0 :: (bytes \<times> bytes, gor) world)" "running (world0 :: (bytes \<times> bytes, gor) world) 0 = None"
    "finished (world0 :: (bytes \<times> bytes, gor) world) 0 = None"
    by (rule reach0) (simp_all add: world0_def)
  obtain w i j g where 1: "api_reachable amd64 ix_far w" "alive w" "running w 0 = Some ((ready_text, []), i, j, g)"
      "running w 1 = None" "finished w 1 = None"
    using starts [OF 0, of "(ready_text, [])"] by (auto simp: world0_def)
  obtain w' i' j' g' where "api_reachable amd64 ix_far w'" "running w' 0 = Some ((ready_text, []), i, j, g)"
      "running w' 1 = Some (([], ready_text), i', j', g')"
    using starts [OF 1(1,2,4,5), of "([], ready_text)"] 1(3) by auto
  then show ?thesis using pool_exclusive [of amd64 ix_far w'] by (metis zero_neq_one)
qed

end
