(* ===== verification/Ctrl.thy ===== *)
theory Ctrl
  imports Api
begin

text \<open>
  The control channel of the API process (\<open>cmd/api/ctrl_linux.go\<close>): the load balancer passes
  client connections over a sequential-packet socket, one packet per connection, with the bytes
  it has already read. A packet that \<open>recvmsg\<close> returns is its data and its parsed control
  messages: \<^const>\<open>None\<close> when parsing them fails, and per message the descriptors it carries, or
  \<^const>\<open>None\<close> when it carries none. The receive buffer \<open>recvPrefixBuf\<close> is a variable of the
  package, so it is threaded through as state.
\<close>

unbundle bit_operations_syntax

section \<open>The code\<close>

abbreviation (input) "maxPrefix \<equiv> 16384 :: nat"

datatype errno = EINTR | EAGAIN | ECONNRESET | EBADMSG | EOTHER nat

datatype packet = PktErr errno | Pkt bytes "int list option list option"

definition recvPrefixBuf0 :: bytes where
  "recvPrefixBuf0 = replicate maxPrefix CHR 0x00"

text \<open>The first descriptor is kept, all later ones are closed.\<close>

definition pickFd :: "int list \<Rightarrow> int \<times> int list" where
  "pickFd fds =
     foldl (\<lambda>(fdInt, shut) fd. if fdInt < 0 then (fd, shut) else (fdInt, shut @ [fd])) (- 1, []) fds"

definition plenOf :: "char \<Rightarrow> char \<Rightarrow> nat" where
  "plenOf a b = of_char a OR push_bit 8 (of_char b)"

text \<open>The result: the receive buffer, the closed descriptors, and an error or the descriptor with
  the length of the prefix in the buffer.\<close>

definition recvFDWithBytes :: "bytes \<Rightarrow> packet \<Rightarrow> bytes \<times> int list \<times> (errno + int \<times> nat)" where
  "recvFDWithBytes rbuf pkt =
     (case pkt of
        PktErr e \<Rightarrow> (rbuf, [], Inl e)
      | Pkt msg cmsgs \<Rightarrow>
          let rn = min (length msg) (2 + length rbuf);
              lenBuf = take 2 (take 2 msg @ [CHR 0x00, CHR 0x00]);
              rbuf' = take (rn - 2) (drop 2 msg) @ drop (rn - 2) rbuf
          in if rn \<le> 0 then (rbuf', [], Inl ECONNRESET)
             else if rn < 2 then (rbuf', [], Inl EBADMSG)
             else let plen = plenOf (lenBuf ! 0) (lenBuf ! 1) in
               if plen > length rbuf \<or> rn \<noteq> 2 + plen then (rbuf', [], Inl EBADMSG)
               else (case cmsgs of
                   None \<Rightarrow> (rbuf', [], Inl EBADMSG)
                 | Some ms \<Rightarrow>
                     (case pickFd (concat (map (case_option [] id) ms)) of
                       (fdInt, shut) \<Rightarrow>
                         if fdInt < 0 then (rbuf', shut, Inl EBADMSG)
                         else (rbuf', shut, Inr (fdInt, plen)))))"

text \<open>\<open>ctrlLoop\<close> on the packets of its socket: the handlers it starts, each with a copy of the
  prefix.\<close>

fun ctrlLoop :: "bytes \<Rightarrow> packet list \<Rightarrow> (int \<times> bytes) list" where
  "ctrlLoop rbuf [] = []"
| "ctrlLoop rbuf (pkt # pkts) =
     (case recvFDWithBytes rbuf pkt of
        (rbuf', shut, Inl e) \<Rightarrow> if e = EINTR then ctrlLoop rbuf' pkts else []
      | (rbuf', shut, Inr (fdInt, plen)) \<Rightarrow>
          if fdInt < 0 then ctrlLoop rbuf' pkts
          else (fdInt, take plen rbuf') # ctrlLoop rbuf' pkts)"

text \<open>Several control loops at once, as \<open>runCtrl\<close> starts one for every connection it accepts. A
  step of a loop is a return of \<open>recvmsg\<close>, which has filled the shared buffer, or the copy of the
  prefix out of it, which ends in starting the handler.\<close>

record ctrl =
  shared :: bytes
  held :: "nat \<Rightarrow> (int \<times> nat) option"
  started :: "(int \<times> bytes) list"
  packets :: "(int \<times> bytes) list"

definition ctrl0 :: ctrl where
  "ctrl0 = \<lparr>shared = recvPrefixBuf0, held = \<lambda>i. None, started = [], packets = []\<rparr>"

inductive ctrl_step :: "nat \<Rightarrow> ctrl \<Rightarrow> ctrl \<Rightarrow> bool" for loops where
  recv: "i < loops \<Longrightarrow> held st i = None \<Longrightarrow>
    recvFDWithBytes (shared st) (Pkt msg cmsgs) = (rbuf, shut, Inr (fd, plen)) \<Longrightarrow>
    ctrl_step loops st
      (st\<lparr>shared := rbuf, held := (held st)(i := Some (fd, plen)), packets := packets st @ [(fd, take plen (drop 2 msg))]\<rparr>)"
| fail: "i < loops \<Longrightarrow> held st i = None \<Longrightarrow> recvFDWithBytes (shared st) pkt = (rbuf, shut, Inl e) \<Longrightarrow>
    ctrl_step loops st (st\<lparr>shared := rbuf\<rparr>)"
| spawn: "i < loops \<Longrightarrow> held st i = Some (fd, plen) \<Longrightarrow>
    ctrl_step loops st
      (st\<lparr>held := (held st)(i := None), started := started st @ [(fd, take plen (shared st))]\<rparr>)"

inductive ctrl_reach :: "nat \<Rightarrow> ctrl \<Rightarrow> bool" for loops where
  init: "ctrl_reach loops ctrl0"
| step: "ctrl_reach loops st \<Longrightarrow> ctrl_step loops st st' \<Longrightarrow> ctrl_reach loops st'"

inductive_cases ctrl_stepE: "ctrl_step loops st st'"

section \<open>One packet\<close>

lemma pickFd_first: "0 \<le> fd \<Longrightarrow> pickFd (fd # fds) = (fd, fds)"
proof -
  have "foldl (\<lambda>(f, shut) g. if f < 0 then (g, shut) else (f, shut @ [g])) (f, cl) gs = (f, cl @ gs)"
    if "0 \<le> f" for f :: int and cl gs
    using that by (induction gs arbitrary: cl) simp_all
  then show "0 \<le> fd \<Longrightarrow> pickFd (fd # fds) = (fd, fds)" by (simp add: pickFd_def)
qed

lemma plenOf_char: "n < 65536 \<Longrightarrow> plenOf (char_of n) (char_of (n div 256)) = n"
proof -
  assume n: "n < 65536"
  have "plenOf (char_of n) (char_of (n div 256)) = take_bit 8 n OR push_bit 8 (take_bit 8 (drop_bit 8 n))"
    by (simp add: plenOf_def take_bit_eq_mod drop_bit_eq_div)
  also have "take_bit 8 (drop_bit 8 n) = drop_bit 8 n"
    using n by (simp add: take_bit_nat_eq_self_iff drop_bit_eq_div less_mult_imp_div_less)
  also have "take_bit 8 n OR push_bit 8 (drop_bit 8 n) = n"
  proof (rule bit_eqI)
    fix i
    show "bit (take_bit 8 n OR push_bit 8 (drop_bit 8 n)) i = bit n i"
      by (cases "i < 8") (auto simp: bit_or_iff bit_take_bit_iff bit_push_bit_iff bit_drop_bit_eq)
  qed
  finally show ?thesis .
qed

lemma recv_Inr:
  assumes "recvFDWithBytes rbuf (Pkt msg cmsgs) = (rbuf', shut, Inr (fd, plen))"
  shows "take plen rbuf' = take plen (drop 2 msg)" "length rbuf' = length rbuf" "0 \<le> fd" "plen \<le> length (drop 2 msg)"
proof -
  let ?rn = "min (length msg) (2 + length rbuf)"
  let ?b = "take (?rn - 2) (drop 2 msg) @ drop (?rn - 2) rbuf"
  have c: "?rn = 2 + plen \<and> rbuf' = ?b \<and> 0 \<le> fd"
    using assms unfolding recvFDWithBytes_def Let_def packet.case
    by (auto split: if_splits option.splits prod.splits)
  then show "take plen rbuf' = take plen (drop 2 msg)" "length rbuf' = length rbuf" "0 \<le> fd"
      "plen \<le> length (drop 2 msg)"
    by auto
qed

lemma recv_length: "length (fst (recvFDWithBytes rbuf pkt)) = length rbuf"
  by (cases pkt) (auto simp: recvFDWithBytes_def Let_def split: option.split prod.split)

section \<open>The message of the load balancer\<close>

definition message :: "bytes \<Rightarrow> bytes" where
  "message p = [char_of (length p), char_of (length p div 256)] @ p"

lemma recv_message:
  assumes "length p \<le> length rbuf" "length rbuf < 65536" "0 \<le> fd"
  shows "recvFDWithBytes rbuf (Pkt (message p) (Some [Some [fd]])) =
    (p @ drop (length p) rbuf, [], Inr (fd, length p))"
proof -
  have "plenOf (char_of (length p)) (char_of (length p div 256)) = length p"
    using assms by (intro plenOf_char) simp
  then show ?thesis
    using assms by (simp add: recvFDWithBytes_def message_def Let_def pickFd_first pickFd_def min_def)
qed

section \<open>One loop and several loops\<close>

text \<open>The invariant of a single loop: every handler but the last of the packets has been started
  with the prefix of its packet; the prefix of the last packet is still in the buffer.\<close>

definition one_ok :: "ctrl \<Rightarrow> bool" where
  "one_ok st \<longleftrightarrow>
     (case held st 0 of
        None \<Rightarrow> packets st = started st
      | Some (fd, plen) \<Rightarrow> packets st = started st @ [(fd, take plen (shared st))])"

lemma one_step: "ctrl_step 1 st st' \<Longrightarrow> one_ok st \<Longrightarrow> one_ok st'"
  by (erule ctrl_stepE) (auto simp: one_ok_def recv_Inr(1) split: option.splits)

lemma one_reach: "ctrl_reach 1 st \<Longrightarrow> one_ok st"
proof (induction rule: ctrl_reach.induct)
  case init
  show ?case by (simp add: one_ok_def ctrl0_def)
next
  case (step st st')
  then show ?case using one_step by blast
qed

lemma length_recvPrefixBuf0 [simp]: "length recvPrefixBuf0 = maxPrefix"
  by (simp add: recvPrefixBuf0_def)

definition mixed :: ctrl where
  "mixed = (let b1 = ''AB'' @ drop 2 recvPrefixBuf0; b2 = ''XY'' @ drop 2 b1 in
     \<lparr>shared = b2, held = (\<lambda>i. None)(Suc 0 := Some (8, 2), 0 := None), started = [(7, ''XY'')],
      packets = [(7, ''AB''), (8, ''XY'')]\<rparr>)"

lemma mixed_reach: "ctrl_reach 2 mixed"
proof -
  let ?b1 = "''AB'' @ drop 2 recvPrefixBuf0"
  let ?b2 = "''XY'' @ drop 2 ?b1"
  let ?s1 = "\<lparr>shared = ?b1, held = (\<lambda>i. None)(0 := Some (7, 2)), started = [], packets = [(7, ''AB'')]\<rparr>"
  let ?s2 = "\<lparr>shared = ?b2, held = (\<lambda>i. None)(0 := Some (7, 2), Suc 0 := Some (8, 2)), started = [],
      packets = [(7, ''AB''), (8, ''XY'')]\<rparr>"
  have r1: "recvFDWithBytes recvPrefixBuf0 (Pkt (message ''AB'') (Some [Some [7]])) = (?b1, [], Inr (7, 2))"
    using recv_message [of "''AB''" recvPrefixBuf0 7] by (simp add: numeral_2_eq_2)
  have r2: "recvFDWithBytes ?b1 (Pkt (message ''XY'') (Some [Some [8]])) = (?b2, [], Inr (8, 2))"
    using recv_message [of "''XY''" ?b1 8] by (simp add: numeral_2_eq_2)
  have "ctrl_step 2 ctrl0 ?s1"
    using ctrl_step.recv [of 0 2 ctrl0 "message ''AB''" "Some [Some [7]]"] r1
    by (auto simp: ctrl0_def message_def numeral_2_eq_2)
  moreover have "ctrl_step 2 ?s1 ?s2"
    using ctrl_step.recv [of 1 2 ?s1 "message ''XY''" "Some [Some [8]]"] r2
    by (auto simp: message_def numeral_2_eq_2)
  moreover have "ctrl_step 2 ?s2 mixed"
    using ctrl_step.spawn [of 0 2 ?s2 7 2] by (auto simp: mixed_def numeral_2_eq_2 Let_def fun_upd_twist)
  ultimately show ?thesis by (meson ctrl_reach.intros)
qed

lemma ctrlLoop_messages:
  assumes "list_all (\<lambda>(fd, p). 0 \<le> fd \<and> length p \<le> maxPrefix) conns" "length rbuf = maxPrefix"
  shows "ctrlLoop rbuf (map (\<lambda>(fd, p). Pkt (message p) (Some [Some [fd]])) conns) = conns"
  using assms
proof (induction conns arbitrary: rbuf)
  case (Cons c conns)
  obtain fd p where c: "c = (fd, p)" by force
  then have "recvFDWithBytes rbuf (Pkt (message p) (Some [Some [fd]])) =
      (p @ drop (length p) rbuf, [], Inr (fd, length p))"
    using Cons.prems by (intro recv_message) simp_all
  then show ?case using Cons.IH [of "p @ drop (length p) rbuf"] Cons.prems c by simp
qed simp

section \<open>Properties\<close>

text \<open>(C14) A single control loop never mixes connections: in every reachable state the handlers it has
  started carry exactly the bytes of their own packets, in the order of the packets, and at most
  the last packet is still without a handler.\<close>

theorem ctrl_one_loop:
  assumes "ctrl_reach 1 st"
  shows "packets st = started st \<or> (\<exists>c. packets st = started st @ [c])"
  using one_reach [OF assms] by (auto simp: one_ok_def split: option.splits)

text \<open>Two control loops share the receive buffer of the package, although its comment calls the
  buffer per-goroutine: a reachable state has started the handler of descriptor 7, whose packet
  carried \<open>AB\<close>, with the bytes \<open>XY\<close> of another client's packet.\<close>

theorem ctrl_two_loops_mix:
  "\<exists>st. ctrl_reach 2 st \<and> packets st = [(7, ''AB''), (8, ''XY'')] \<and> started st = [(7, ''XY'')]"
  using mixed_reach by (auto simp: mixed_def Let_def)

section \<open>Witness\<close>

theorem ctrl_one_loop_witness:
  "\<exists>st. ctrl_reach 1 st \<and> packets st \<noteq> [] \<and> (\<exists>c. packets st = started st @ [c])"
proof -
  have "recvFDWithBytes (shared ctrl0) (Pkt (message ''AB'') (Some [Some [7]])) =
      (''AB'' @ drop 2 recvPrefixBuf0, [], Inr (7, 2))"
    using recv_message [of "''AB''" recvPrefixBuf0 7] by (simp add: numeral_2_eq_2 ctrl0_def)
  then obtain st where st: "ctrl_step 1 ctrl0 st" "packets st \<noteq> started st" "packets st \<noteq> []"
    using ctrl_step.recv [of 0 1 ctrl0 "message ''AB''"] by (force simp: ctrl0_def)
  then have r: "ctrl_reach 1 st" by (meson ctrl_reach.intros)
  from ctrl_one_loop [OF r] st r show ?thesis by blast
qed

end
