(* ===== verification/Lb.thy ===== *)
theory Lb
  imports Ctrl
begin

text \<open>
  The load balancer (\<open>cmd/lb/main.go\<close>): configuration from the environment, the accept loop with its
  short answer to health probes, the bytes read before a connection is passed on, the message
  that passes it, and the choice of a backend in turn. As for the API process, the kernel's
  answers to the system calls of a connection are part of the input.
\<close>

section \<open>Configuration\<close>

text \<open>\<open>strconv.Atoi\<close>: an optional sign and decimal digits, within 64 bits.\<close>

definition Atoi :: "bytes \<Rightarrow> int option" where
  "Atoi s =
     (let neg = (s \<noteq> [] \<and> hd s = CHR ''-'');
          t = (if s \<noteq> [] \<and> isSign (hd s) then tl s else s);
          n = int (digitsVal t)
      in if t = [] \<or> \<not> list_all isDigit t then None
         else if neg then (if n \<le> 2 ^ 63 then Some (- n) else None)
         else (if n < 2 ^ 63 then Some n else None))"

text \<open>The first argument is the value of the variable, empty when it is not set.\<close>

definition envInt :: "bytes \<Rightarrow> int \<Rightarrow> int" where
  "envInt v d = (if v = [] then d else case Atoi v of None \<Rightarrow> d | Some n \<Rightarrow> n)"

fun Split :: "bytes \<Rightarrow> char \<Rightarrow> bytes list" where
  "Split [] sep = [[]]"
| "Split (c # s) sep = (if c = sep then [] # Split s sep else (c # hd (Split s sep)) # tl (Split s sep))"

definition isBlank :: "char \<Rightarrow> bool" where
  "isBlank c \<longleftrightarrow> c \<in> {CHR '' '', CHR 0x09, CHR 0x0A, CHR 0x0B, CHR 0x0C, CHR 0x0D}"

text \<open>\<open>strings.TrimSpace\<close> removes Unicode white space: the ASCII blanks and the UTF-8 sequences of U+0085, U+00A0, U+1680,
  U+2000 to U+200A, U+2028, U+2029, U+202F, U+205F and U+3000. At the end of a text these are found backwards.\<close>

definition wideBlanks :: "bytes list" where
  "wideBlanks =
     [[CHR 0xC2, CHR 0x85], [CHR 0xC2, CHR 0xA0], [CHR 0xE1, CHR 0x9A, CHR 0x80]] @
     map (\<lambda>n. [CHR 0xE2, CHR 0x80, char_of n]) ([128..<139] @ [168, 169, 175 :: nat]) @
     [[CHR 0xE2, CHR 0x81, CHR 0x9F], [CHR 0xE3, CHR 0x80, CHR 0x80]]"

function trimLeft :: "bytes list \<Rightarrow> bytes \<Rightarrow> bytes" where
  "trimLeft ws s =
     (if s \<noteq> [] \<and> isBlank (hd s) then trimLeft ws (tl s)
      else case find (\<lambda>w. w \<noteq> [] \<and> take (length w) s = w) ws of
          None \<Rightarrow> s
        | Some w \<Rightarrow> trimLeft ws (drop (length w) s))"
  by pat_completeness auto
termination
proof (relation "measure (\<lambda>(ws, s). length s)", goal_cases)
  case (3 ws s w)
  then have "w \<noteq> [] \<and> take (length w) s = w" by (auto simp: find_Some_iff)
  then show ?case by (cases s; cases w) auto
qed auto

declare trimLeft.simps [simp del]

definition TrimSpace :: "bytes \<Rightarrow> bytes" where
  "TrimSpace s = rev (trimLeft (map rev wideBlanks) (rev (trimLeft wideBlanks s)))"

definition splitTrim :: "bytes \<Rightarrow> char \<Rightarrow> bytes list" where
  "splitTrim s sep = filter (\<lambda>p. p \<noteq> []) (map TrimSpace (Split s sep))"

definition backendPaths :: "bytes \<Rightarrow> bytes list option" where
  "backendPaths socketsCSV =
     (if socketsCSV = [] then None
      else let paths = splitTrim socketsCSV CHR '','' in
        if paths = [] then None else Some (if length paths > 8 then take 8 paths else paths))"

section \<open>One connection\<close>

definition readyResponse :: bytes where
  "readyResponse = ''HTTP/1.1 200 OK'' @ crlf @ ''Content-Length: 2'' @ crlf @ ''Connection: close'' @ crlf @ crlf @ ''ok''"

text \<open>What \<open>recvfrom\<close> shows of the stream: an error, or a number of bytes the kernel has.\<close>

definition handleReadyPeek :: "bytes \<Rightarrow> nat option \<Rightarrow> bool" where
  "handleReadyPeek inp peeked =
     (case peeked of
        None \<Rightarrow> False
      | Some k \<Rightarrow> let peek = take (min k 64) inp in
          if length peek < 10 then False else take 10 peek = ''GET /ready'')"

datatype nb = Avail nat | NIntr | NAgain | NFail

datatype prefixed = Prefix bytes bytes | Fatal | Unread

fun readReadyPrefix :: "bytes \<Rightarrow> bytes \<Rightarrow> nb list \<Rightarrow> prefixed" where
  "readReadyPrefix got inp evs =
     (if length got < maxPrefix then
        (case evs of
           [] \<Rightarrow> Unread
         | NIntr # evs' \<Rightarrow> readReadyPrefix got inp evs'
         | NAgain # evs' \<Rightarrow> Prefix got inp
         | NFail # evs' \<Rightarrow> Fatal
         | Avail k # evs' \<Rightarrow>
             let n = min (Suc k) (maxPrefix - length got); r = take n inp
             in if r = [] then (if got = [] then Fatal else Prefix got inp)
                else readReadyPrefix (got @ r) (drop n inp) evs')
      else Prefix got inp)"

declare readReadyPrefix.simps [simp del]

datatype sent = Sent | SendErr errno | SendWait

fun sendLoop :: "errno option list \<Rightarrow> sent" where
  "sendLoop [] = SendWait"
| "sendLoop (None # rs) = Sent"
| "sendLoop (Some e # rs) = (if e = EINTR then sendLoop rs else SendErr e)"

definition sendData :: "bytes \<Rightarrow> bytes" where
  "sendData pre =
     (let p = (if length pre > maxPrefix then take maxPrefix pre else pre);
          lenBuf = [char_of (length p mod 256), char_of (length p div 2 ^ 8 mod 256)];
          iovs = (if length p > 0 then [lenBuf, p] else [lenBuf])
      in concat iovs)"

definition sendFDWithBytes :: "bytes \<Rightarrow> errno option list \<Rightarrow> bytes \<times> sent" where
  "sendFDWithBytes pre rets = (sendData pre, sendLoop rets)"

record client =
  cFd :: int
  cStream :: bytes
  cPeek :: "nat option"
  cReads :: "nb list"
  cSends :: "nat \<Rightarrow> errno option list"

text \<open>What becomes of a connection: answered as a probe, dropped, passed with its message and the
  bytes left in the socket to a backend, refused by all backends, or still in a system call.\<close>

datatype fate = Answered bytes | Dropped | Handed nat bytes bytes | Refused | Stuck

fun offer :: "(nat \<Rightarrow> errno option list) \<Rightarrow> bytes \<Rightarrow> bytes \<Rightarrow> nat \<Rightarrow> nat \<Rightarrow> nat list \<Rightarrow> fate \<times> nat" where
  "offer sends pre rest backends rr [] = (Refused, rr)"
| "offer sends pre rest backends rr (k # ks) =
     (let i = (rr + k) mod backends in
      case sendFDWithBytes pre (sends i) of
        (msg, Sent) \<Rightarrow> (Handed i msg rest, (i + 1) mod backends)
      | (msg, SendErr e) \<Rightarrow> offer sends pre rest backends rr ks
      | (msg, SendWait) \<Rightarrow> (Stuck, rr))"

definition acceptOne :: "nat \<Rightarrow> nat \<Rightarrow> client \<Rightarrow> fate \<times> nat" where
  "acceptOne backends rr c =
     (if handleReadyPeek (cStream c) (cPeek c) then (Answered readyResponse, rr)
      else case readReadyPrefix [] (cStream c) (cReads c) of
        Unread \<Rightarrow> (Stuck, rr)
      | Fatal \<Rightarrow> (Dropped, rr)
      | Prefix pre rest \<Rightarrow> offer (cSends c) pre rest backends rr [0..<backends])"

text \<open>The accept loop: \<^const>\<open>None\<close> is an accept that failed, which is logged or ignored. A system call that
  does not return holds up all later connections.\<close>

fun acceptLoop :: "nat \<Rightarrow> nat \<Rightarrow> client option list \<Rightarrow> fate list" where
  "acceptLoop backends rr [] = []"
| "acceptLoop backends rr (None # cs) = acceptLoop backends rr cs"
| "acceptLoop backends rr (Some c # cs) =
     (case acceptOne backends rr c of (f, rr') \<Rightarrow> if f = Stuck then [f] else f # acceptLoop backends rr' cs)"

section \<open>Configuration strings\<close>

lemma Split_nonempty [simp]: "Split s sep \<noteq> []"
  by (cases s) simp_all

lemma Split_append: "sep \<notin> set p \<Longrightarrow> Split (p @ sep # s) sep = p # Split s sep"
  by (induction p) auto

lemma Split_plain: "sep \<notin> set p \<Longrightarrow> Split p sep = [p]"
  by (induction p) auto

definition plainChar :: "char \<Rightarrow> bool" where
  "plainChar c \<longleftrightarrow> \<not> isBlank c \<and> (of_char c :: nat) < 128"

definition path_ok :: "bytes \<Rightarrow> bool" where
  "path_ok p \<longleftrightarrow> p \<noteq> [] \<and> CHR '','' \<notin> set p \<and> plainChar (hd p) \<and> plainChar (last p)"

lemma Split_join: "ps \<noteq> [] \<Longrightarrow> \<forall>p \<in> set ps. CHR '','' \<notin> set p \<Longrightarrow> Split (join ps) CHR '','' = ps"
  by (induction ps rule: join.induct) (simp_all add: Split_plain Split_append)

lemma trimLeft_blanks: "list_all isBlank a \<Longrightarrow> trimLeft ws (a @ s) = trimLeft ws s"
  by (induction a) (simp_all add: trimLeft.simps [of ws "_ # _"])

lemma trimLeft_stops: "plainChar c \<Longrightarrow> \<forall>w \<in> set ws. w \<noteq> [] \<longrightarrow> (128 :: nat) \<le> of_char (hd w) \<Longrightarrow> trimLeft ws (c # s) = c # s"
proof -
  assume c: "plainChar c" and ws: "\<forall>w \<in> set ws. w \<noteq> [] \<longrightarrow> (128 :: nat) \<le> of_char (hd w)"
  have "\<not> (w \<noteq> [] \<and> take (length w) (c # s) = w)" if "w \<in> set ws" for w
    using c ws that by (cases w) (auto simp: plainChar_def)
  then have "find (\<lambda>w. w \<noteq> [] \<and> take (length w) (c # s) = w) ws = None" by (simp add: find_None_iff)
  then show ?thesis using c by (simp add: trimLeft.simps [of ws "c # s"] plainChar_def)
qed

lemma wideBlanks_bytes: "\<forall>w \<in> set wideBlanks. \<forall>c \<in> set w. (128 :: nat) \<le> of_char c"
  by (simp add: wideBlanks_def upt_rec_numeral)

lemma TrimSpace_pad:
  assumes "list_all isBlank a" "list_all isBlank b" "p \<noteq> []" "plainChar (hd p)" "plainChar (last p)"
  shows "TrimSpace (a @ p @ b) = p"
proof -
  have w: "\<forall>w \<in> set wideBlanks. w \<noteq> [] \<longrightarrow> (128 :: nat) \<le> of_char (hd w)"
      "\<forall>w \<in> set (map rev wideBlanks). w \<noteq> [] \<longrightarrow> (128 :: nat) \<le> of_char (hd w)"
    using wideBlanks_bytes by (auto simp: hd_rev)
  obtain c r where p: "p = c # r" using assms(3) by (cases p) auto
  obtain r' d where q: "p = r' @ [d]" using assms(3) by (cases p rule: rev_cases) auto
  have "trimLeft wideBlanks (a @ p @ b) = p @ b"
    using trimLeft_blanks [OF assms(1)] trimLeft_stops [OF _ w(1), of c "r @ b"] assms(4) by (simp add: p)
  moreover have "trimLeft (map rev wideBlanks) (rev b @ rev p) = rev p"
    using trimLeft_blanks [of "rev b"] trimLeft_stops [OF _ w(2), of d "rev r'"] assms(2,5) by (simp add: q)
  ultimately show ?thesis by (simp add: TrimSpace_def)
qed

definition pad :: "bytes \<times> bytes \<times> bytes \<Rightarrow> bytes" where
  "pad x = fst x @ fst (snd x) @ snd (snd x)"

definition pad_ok :: "bytes \<times> bytes \<times> bytes \<Rightarrow> bool" where
  "pad_ok x \<longleftrightarrow> path_ok (fst (snd x)) \<and> list_all isBlank (fst x) \<and> list_all isBlank (snd (snd x))"

lemma pad_trim: "pad_ok x \<Longrightarrow> TrimSpace (pad x) = fst (snd x) \<and> CHR '','' \<notin> set (pad x)"
proof -
  assume x: "pad_ok x"
  have "\<not> isBlank CHR '',''" by (simp add: isBlank_def)
  then have blank: "CHR '','' \<notin> set a" if "list_all isBlank a" for a
    using that by (metis list_all_iff)
  have ok: "list_all isBlank (fst x)" "list_all isBlank (snd (snd x))" "path_ok (fst (snd x))"
    using x by (simp_all add: pad_ok_def)
  have "TrimSpace (pad x) = fst (snd x)"
    unfolding pad_def using ok(3) by (intro TrimSpace_pad ok(1,2)) (simp_all add: path_ok_def)
  moreover have "CHR '','' \<notin> set (pad x)"
    using blank [OF ok(1)] blank [OF ok(2)] ok(3) by (simp add: pad_def path_ok_def)
  ultimately show ?thesis ..
qed

lemma splitTrim_padded:
  assumes "ps \<noteq> []" "\<forall>x \<in> set ps. pad_ok x"
  shows "splitTrim (join (map pad ps)) CHR '','' = map (fst \<circ> snd) ps"
proof -
  have "Split (join (map pad ps)) CHR '','' = map pad ps"
    by (rule Split_join) (use assms pad_trim in auto)
  moreover have "map TrimSpace (map pad ps) = map (fst \<circ> snd) ps"
    using assms(2) pad_trim by simp
  moreover have "filter (\<lambda>p. p \<noteq> []) (map (fst \<circ> snd) ps) = map (fst \<circ> snd) ps"
    using assms(2) by (intro filter_True) (auto simp: pad_ok_def path_ok_def)
  ultimately show ?thesis by (simp only: splitTrim_def)
qed

section \<open>Reading ahead\<close>

lemma readReadyPrefix_exact:
  "readReadyPrefix got inp evs = Prefix pre rest \<Longrightarrow> length got \<le> maxPrefix \<Longrightarrow>
     pre @ rest = got @ inp \<and> length pre \<le> maxPrefix"
proof (induction evs arbitrary: got inp)
  case Nil
  then show ?case by (simp add: readReadyPrefix.simps [of got inp "[]"] split: if_splits)
next
  case (Cons e evs)
  show ?case
  proof (cases "length got < maxPrefix")
    case True
    show ?thesis
    proof (cases e)
      case (Avail k)
      define n where "n = min (Suc k) (maxPrefix - length got)"
      have "length (got @ take n inp) \<le> maxPrefix" using True by (simp add: n_def)
      then show ?thesis
        using Cons.prems Cons.IH [of "got @ take n inp" "drop n inp"] True
        by (auto simp: readReadyPrefix.simps [of got] Avail Let_def n_def [symmetric] split: if_splits)
    qed (use Cons True in \<open>auto simp: readReadyPrefix.simps [of got inp "_ # _"]\<close>)
  qed (use Cons.prems in \<open>simp add: readReadyPrefix.simps [of got]\<close>)
qed

lemma sendData_message: "length p \<le> maxPrefix \<Longrightarrow> sendData p = message p"
proof -
  assume "length p \<le> maxPrefix"
  moreover have "char_of (n mod 256) = (char_of n :: char)" for n :: nat
    by (metis char_of_mod_256)
  ultimately show ?thesis by (simp add: sendData_def message_def Let_def)
qed

section \<open>Passing a connection\<close>

text \<open>What the balancer relies on: the receiving side gets back the descriptor and the bytes that
  were packed, up to the capacity of its buffer.\<close>

locale fd_channel =
  fixes send :: "bytes \<Rightarrow> bytes"
    and receive :: "bytes \<Rightarrow> int \<Rightarrow> (int \<times> bytes) list"
    and cap :: nat
  assumes receive_send: "length p \<le> cap \<Longrightarrow> 0 \<le> fd \<Longrightarrow> receive (send p) fd = [(fd, p)]"
    and cap_enough: "maxPrefix \<le> cap"
begin

lemma stream_intact:
  assumes "readReadyPrefix [] s evs = Prefix pre rest" "0 \<le> fd"
  shows "receive (send pre) fd = [(fd, pre)] \<and> pre @ rest = s \<and> length pre \<le> maxPrefix"
  using readReadyPrefix_exact [OF assms(1)] receive_send [OF _ assms(2), of pre] cap_enough by simp

end

interpretation lb_api: fd_channel sendData "\<lambda>m fd. ctrlLoop recvPrefixBuf0 [Pkt m (Some [Some [fd]])]" maxPrefix
proof
  fix p :: bytes and fd :: int
  assume "length p \<le> maxPrefix" "0 \<le> fd"
  then show "ctrlLoop recvPrefixBuf0 [Pkt (sendData p) (Some [Some [fd]])] = [(fd, p)]"
    using ctrlLoop_messages [of "[(fd, p)]" recvPrefixBuf0] by (simp add: sendData_message)
qed simp

lemma offer_Handed:
  "offer sends pre rest n rr ks = (Handed i msg r, rr') \<Longrightarrow>
     \<exists>j < length ks. i = (rr + ks ! j) mod n \<and> sendLoop (sends i) = Sent \<and>
       (\<forall>h < j. \<exists>e. sendLoop (sends ((rr + ks ! h) mod n)) = SendErr e) \<and>
       msg = sendData pre \<and> r = rest \<and> rr' = (i + 1) mod n"
proof (induction ks)
  case (Cons k ks)
  let ?i = "(rr + k) mod n"
  show ?case
  proof (cases "sendLoop (sends ?i)")
    case (SendErr e)
    then have "offer sends pre rest n rr ks = (Handed i msg r, rr')"
      using Cons.prems by (simp add: sendFDWithBytes_def Let_def)
    then obtain j where j: "j < length ks" "i = (rr + ks ! j) mod n" "sendLoop (sends i) = Sent"
        "\<forall>h < j. \<exists>e. sendLoop (sends ((rr + ks ! h) mod n)) = SendErr e"
        "msg = sendData pre" "r = rest" "rr' = (i + 1) mod n"
      using Cons.IH by blast
    then show ?thesis using SendErr by (intro exI [of _ "Suc j"]) (auto simp: less_Suc_eq_0_disj)
  qed (use Cons.prems in \<open>auto simp: sendFDWithBytes_def Let_def\<close>)
qed simp

lemma acceptOne_Handed:
  assumes "acceptOne n rr c = (Handed i msg rest, rr')" "0 \<le> cFd c"
  shows "\<exists>p. ctrlLoop recvPrefixBuf0 [Pkt msg (Some [Some [cFd c]])] = [(cFd c, p)] \<and>
    p @ rest = cStream c \<and> length p \<le> maxPrefix"
proof -
  obtain pre r where pre: "readReadyPrefix [] (cStream c) (cReads c) = Prefix pre r"
      "offer (cSends c) pre r n rr [0..<n] = (Handed i msg rest, rr')"
    using assms(1) by (auto simp: acceptOne_def split: if_splits prefixed.splits)
  have "msg = sendData pre" "rest = r" using offer_Handed [OF pre(2)] by auto
  then show ?thesis using lb_api.stream_intact [OF pre(1) assms(2)] by auto
qed

text \<open>A connection that neither is a probe nor fails before it is passed, and that every backend
  accepts.\<close>

definition plain_client :: "nat \<Rightarrow> client \<Rightarrow> bool" where
  "plain_client n c \<longleftrightarrow> \<not> handleReadyPeek (cStream c) (cPeek c) \<and>
     (\<exists>pre rest. readReadyPrefix [] (cStream c) (cReads c) = Prefix pre rest) \<and>
     (\<forall>i < n. sendLoop (cSends c i) = Sent)"

definition backendOf :: "fate \<Rightarrow> nat option" where
  "backendOf f = (case f of Handed i msg rest \<Rightarrow> Some i | _ \<Rightarrow> None)"

lemma acceptOne_plain:
  assumes "plain_client n c" "rr < n"
  shows "\<exists>msg rest. acceptOne n rr c = (Handed rr msg rest, (rr + 1) mod n)"
proof -
  have "[0..<n] = 0 # [1..<n]" using assms(2) by (simp add: upt_conv_Cons)
  then show ?thesis using assms by (auto simp: acceptOne_def plain_client_def sendFDWithBytes_def Let_def)
qed

lemma acceptLoop_round_robin:
  assumes "list_all (plain_client n) cs" "rr < n"
  shows "map backendOf (acceptLoop n rr (map Some cs)) = map (\<lambda>j. Some ((rr + j) mod n)) [0..<length cs]"
  using assms
proof (induction cs arbitrary: rr)
  case (Cons c cs)
  obtain msg rest where a: "acceptOne n rr c = (Handed rr msg rest, (rr + 1) mod n)"
    using acceptOne_plain [of n c rr] Cons.prems by auto
  have "map backendOf (acceptLoop n ((rr + 1) mod n) (map Some cs)) = map (\<lambda>j. Some (((rr + 1) mod n + j) mod n)) [0..<length cs]"
    using Cons.prems by (intro Cons.IH) auto
  also have "\<dots> = map (\<lambda>j. Some ((rr + Suc j) mod n)) [0..<length cs]"
    by (simp add: mod_add_left_eq)
  also have "\<dots> = map (\<lambda>j. Some ((rr + j) mod n)) (map Suc [0..<length cs])" by simp
  finally have tl: "map backendOf (acceptLoop n ((rr + 1) mod n) (map Some cs)) = map (\<lambda>j. Some ((rr + j) mod n)) (map Suc [0..<length cs])" .
  have "[0..<length (c # cs)] = 0 # map Suc [0..<length cs]" by (simp add: upt_conv_Cons map_Suc_upt del: upt_Suc)
  moreover have "backendOf (Handed rr msg rest) = Some rr" by (simp add: backendOf_def)
  ultimately show ?case using tl Cons.prems(2) a by (simp del: upt_Suc)
qed simp

section \<open>Properties\<close>

text \<open>From the balancer to the verdicts: when the balancer passes a connection to a backend, the
  control loop of the backend starts a handler with the bytes the balancer has read, nothing lost
  or repeated; and when those bytes fit the handler's buffer and the client sent well-formed
  scoring requests of at most 8192 bytes each, the client gets one verdict per request, in
  order.\<close>

theorem handed_over_and_scored:
  assumes "acceptOne n rr c = (Handed i msg rest, rr')" "0 \<le> cFd c"
    "wf_index ix" "list_all job_ok js" "cStream c = concat (map job_text js)"
    "RFail \<notin> set rs" "WFail \<notin> set ws" "length (cStream c) < readies rs"
    "length (concat (map (\<lambda>j. scores ! verdict ix (snd j)) js)) \<le> rooms ws"
  shows "\<exists>p. ctrlLoop recvPrefixBuf0 [Pkt msg (Some [Some [cFd c]])] = [(cFd c, p)] \<and> p @ rest = cStream c \<and>
    (length p \<le> 8192 \<longrightarrow>
      handleRawConn amd64 ix p rest rs ws = (concat (map (\<lambda>j. scores ! verdict ix (snd j)) js), Closed))"
proof -
  obtain p where p: "ctrlLoop recvPrefixBuf0 [Pkt msg (Some [Some [cFd c]])] = [(cFd c, p)]" "p @ rest = cStream c"
    using acceptOne_Handed [OF assms(1,2)] by blast
  have "length rest \<le> length (cStream c)" by (simp flip: p(2))
  then have "handleRawConn amd64 ix p rest rs ws = (concat (map (\<lambda>j. scores ! verdict ix (snd j)) js), Closed)"
    if "length p \<le> 8192"
    using assms p(2) that by (intro avx2.pipeline) simp_all
  then show ?thesis using p by blast
qed

text \<open>Backends take turns: connections that are neither probes nor failing, to backends that accept
  them, go to the backends in cyclic order.\<close>

theorem round_robin:
  assumes "list_all (plain_client n) cs" "rr < n"
  shows "map backendOf (acceptLoop n rr (map Some cs)) = map (\<lambda>j. Some ((rr + j) mod n)) [0..<length cs]"
  using assms by (rule acceptLoop_round_robin)

text \<open>(C32) Failover: a connection that is passed on goes to one backend, the first in cyclic order that
  does not refuse it, and the next connection starts after that backend.\<close>

theorem failover:
  assumes "acceptOne n rr c = (Handed i msg rest, rr')"
  shows "\<exists>k < n. i = (rr + k) mod n \<and> sendLoop (cSends c i) = Sent \<and>
    (\<forall>h < k. \<exists>e. sendLoop (cSends c ((rr + h) mod n)) = SendErr e) \<and> rr' = (i + 1) mod n"
proof -
  obtain pre r where "offer (cSends c) pre r n rr [0..<n] = (Handed i msg rest, rr')"
    using assms by (auto simp: acceptOne_def split: if_splits prefixed.splits)
  from offer_Handed [OF this] show ?thesis by fastforce
qed

lemma handleRawConn_large: "8192 < length p \<Longrightarrow> handleRawConn kern ix p r rs ws = ([], Closed)"
  by (auto simp: handleRawConn_def)

definition busy_client :: client where
  "busy_client = \<lparr>cFd = 9, cStream = concat (map job_text (replicate 16384 (rq_ex, doc_small))), cPeek = None,
     cReads = [Avail 16383], cSends = \<lambda>i. [None]\<rparr>"

lemma length_busy: "16384 \<le> length (concat (map job_text (replicate m (rq_ex, doc_small))))" if "16384 \<le> m"
proof -
  have "1 \<le> length (job_text (rq_ex, doc_small))" by (simp add: job_text_def render_head_def crlf_def)
  then have "m \<le> length (concat (map job_text (replicate m (rq_ex, doc_small))))" for m
    by (induction m) auto
  then show ?thesis using that order_trans by blast
qed

lemma readReadyPrefix_full:
  assumes "maxPrefix \<le> length s"
  shows "readReadyPrefix [] s [Avail 16383] = Prefix (take maxPrefix s) (drop maxPrefix s)"
proof -
  have "take maxPrefix s \<noteq> []" using assms by auto
  then show ?thesis
    using assms by (simp add: readReadyPrefix.simps [of "[]"] readReadyPrefix.simps [of "take maxPrefix s"] Let_def)
qed

lemma busy_handed:
  "acceptOne 1 0 busy_client =
     (Handed 0 (sendData (take maxPrefix (cStream busy_client))) (drop maxPrefix (cStream busy_client)), 0)"
proof -
  define s where "s = cStream busy_client"
  have "maxPrefix \<le> length s" using length_busy [of 16384] by (simp add: busy_client_def s_def)
  note full = readReadyPrefix_full [OF this]
  have f: "cPeek busy_client = None" "cReads busy_client = [Avail 16383]" "cSends busy_client i = [None]" for i
    by (simp_all add: busy_client_def)
  show ?thesis
    unfolding acceptOne_def s_def [symmetric] f full by (simp add: handleReadyPeek_def sendFDWithBytes_def f Let_def)
qed

text \<open>The balancer reads up to 16384 bytes ahead, but the handler drops a connection that arrives
  with more than 8192: there is a client that pipelines only well-formed small requests, whose
  connection is passed on, and that gets no answer whatever the kernel does.\<close>

theorem large_prefix_dropped:
  "\<exists>c js msg rest p. list_all job_ok js \<and> cStream c = concat (map job_text js) \<and>
     acceptOne 1 0 c = (Handed 0 msg rest, 0) \<and>
     ctrlLoop recvPrefixBuf0 [Pkt msg (Some [Some [cFd c]])] = [(cFd c, p)] \<and>
     (\<forall>kern ix rs ws. handleRawConn kern ix p rest rs ws = ([], Closed))"
proof -
  define s where "s = cStream busy_client"
  have len: "maxPrefix \<le> length s" using length_busy [of 16384] by (simp add: busy_client_def s_def)
  have fd: "0 \<le> cFd busy_client" by (simp add: busy_client_def)
  have rd: "readReadyPrefix [] (cStream busy_client) (cReads busy_client) = Prefix (take maxPrefix s) (drop maxPrefix s)"
    using readReadyPrefix_full [OF len] by (simp add: busy_client_def s_def)
  have "ctrlLoop recvPrefixBuf0 [Pkt (sendData (take maxPrefix s)) (Some [Some [cFd busy_client]])] =
      [(cFd busy_client, take maxPrefix s)]"
    using lb_api.stream_intact [OF rd, of "cFd busy_client"] fd by blast
  moreover have "handleRawConn kern ix (take maxPrefix s) r rs ws = ([], Closed)" for kern ix r rs ws
    by (rule handleRawConn_large) (use len in simp)
  moreover have "list_all job_ok (replicate 16384 (rq_ex, doc_small))" using job_ok_ex by (simp add: list_all_iff)
  moreover have "cStream busy_client = concat (map job_text (replicate 16384 (rq_ex, doc_small)))" by (simp add: busy_client_def)
  ultimately show ?thesis using busy_handed unfolding s_def by blast
qed

section \<open>Witnesses\<close>

definition one_client :: client where
  "one_client = \<lparr>cFd = 9, cStream = job_text (rq_ex, doc_small), cPeek = None,
     cReads = [NAgain], cSends = \<lambda>i. if i = 0 then [Some EINTR, Some (EOTHER 32)] else [None]\<rparr>"

lemma one_handed: "acceptOne 2 0 one_client = (Handed 1 (sendData []) (cStream one_client), 0)"
  by (simp add: acceptOne_def one_client_def handleReadyPeek_def readReadyPrefix.simps [of "[]"] sendFDWithBytes_def
      Let_def numeral_2_eq_2)

theorem failover_witness: "\<exists>k < (2 :: nat). 1 = (0 + k) mod 2 \<and> sendLoop (cSends one_client 1) = Sent"
  using failover [OF one_handed] by auto

theorem round_robin_witness:
  "map backendOf (acceptLoop 2 1 [Some busy_client, Some busy_client, Some busy_client]) = [Some 1, Some 0, Some 1]"
proof -
  have "plain_client 2 busy_client"
    using readReadyPrefix_full [of "cStream busy_client"] length_busy [of 16384]
    by (auto simp: plain_client_def busy_client_def handleReadyPeek_def)
  then show ?thesis using round_robin [of 2 "[busy_client, busy_client, busy_client]" 1] by (simp add: upt_rec)
qed

theorem handed_over_and_scored_witness:
  "\<exists>p rs ws. p @ cStream one_client = cStream one_client \<and>
     handleRawConn amd64 ix_far p (cStream one_client) rs ws = (scores ! verdict ix_far doc_small, Closed)"
proof -
  let ?js = "[(rq_ex, doc_small)]" and ?rs = "replicate (Suc (length (cStream one_client))) (Ready 0)"
  let ?ws = "replicate (length (scores ! verdict ix_far doc_small)) (Room 0)"
  have "readies ?rs = Suc (length (cStream one_client))" "rooms ?ws = length (scores ! verdict ix_far doc_small)"
    by (simp_all add: readies_def rooms_def)
  then obtain p where p: "p @ cStream one_client = cStream one_client"
      "length p \<le> 8192 \<longrightarrow> handleRawConn amd64 ix_far p (cStream one_client) ?rs ?ws =
        (concat (map (\<lambda>j. scores ! verdict ix_far (snd j)) ?js), Closed)"
    using handed_over_and_scored [OF one_handed _ wf_far, of ?js ?rs ?ws] job_ok_ex by (auto simp: one_client_def)
  then show ?thesis by (intro exI [of _ p] exI [of _ ?rs] exI [of _ ?ws]) simp
qed

end
