(* ===== verification/Os.thy ===== *)
theory Os
  imports Prelude
begin

text \<open>
  System calls as a process makes them, each with the part of the kernel's answer that matters, and the
  set of descriptors that are open after a list of calls. A list of calls is \<open>fresh\<close> when the kernel
  never returns a descriptor that is open in the process, and \<open>proper\<close> when the process only uses and
  closes descriptors that are open. The first is what POSIX promises, the second what the programs
  of this library are shown to do.
\<close>

datatype sockopt =
  SO_REUSEADDR | SO_REUSEPORT | TCP_DEFER_ACCEPT | SO_BUSY_POLL | SO_SNDBUF | TCP_NODELAY | TCP_QUICKACK

datatype family = AF_UNIX | AF_INET

datatype socktype = SOCK_SEQPACKET | SOCK_STREAM

datatype sockaddr = Path string | Port int

text \<open>A call that creates descriptors carries what it returned, \<^const>\<open>None\<close> for an error. \<open>Read\<close> and \<open>Sendmsg\<close>
  stand for the successive tries of a loop on the same descriptor.\<close>

datatype sys =
  Remove string
| Chmod string nat
| Socket family socktype "int option"
| Setsockopt int sockopt int
| Connect int sockaddr
| Bind int sockaddr
| Listen int int
| EpollCreate "int option"
| EpollAdd int int
| Epiocsparams int nat nat nat
| Accept int "int option"
| Peek int nat
| Read int
| Write int string
| Sendmsg int int string
| Recvmsg int "int list"
| SetNonblock int bool
| Close int
| Prctl nat nat
| SchedSetscheduler nat nat
| Mlockall nat

fun opened :: "sys \<Rightarrow> int list" where
  "opened (Socket f t r) = (case r of None \<Rightarrow> [] | Some fd \<Rightarrow> [fd])"
| "opened (EpollCreate r) = (case r of None \<Rightarrow> [] | Some fd \<Rightarrow> [fd])"
| "opened (Accept l r) = (case r of None \<Rightarrow> [] | Some fd \<Rightarrow> [fd])"
| "opened (Recvmsg c fds) = fds"
| "opened _ = []"

fun uses :: "sys \<Rightarrow> int list" where
  "uses (Setsockopt fd opt v) = [fd]"
| "uses (Connect fd a) = [fd]"
| "uses (Bind fd a) = [fd]"
| "uses (Listen fd n) = [fd]"
| "uses (EpollAdd ep fd) = [ep, fd]"
| "uses (Epiocsparams ep a b c) = [ep]"
| "uses (Accept l r) = [l]"
| "uses (Peek fd n) = [fd]"
| "uses (Read fd) = [fd]"
| "uses (Write fd s) = [fd]"
| "uses (Sendmsg u fd s) = [u, fd]"
| "uses (Recvmsg c fds) = [c]"
| "uses (SetNonblock fd b) = [fd]"
| "uses (Close fd) = [fd]"
| "uses _ = []"

fun after :: "int set \<Rightarrow> sys \<Rightarrow> int set" where
  "after S (Close fd) = S - {fd}"
| "after S c = S \<union> set (opened c)"

definition openFds :: "int set \<Rightarrow> sys list \<Rightarrow> int set" where
  "openFds S cs = foldl after S cs"

fun fresh :: "int set \<Rightarrow> sys list \<Rightarrow> bool" where
  "fresh S [] = True"
| "fresh S (c # cs) = (distinct (opened c) \<and> list_all (\<lambda>fd. fd \<notin> S) (opened c) \<and> fresh (after S c) cs)"

fun proper :: "int set \<Rightarrow> sys list \<Rightarrow> bool" where
  "proper S [] = True"
| "proper S (c # cs) = (list_all (\<lambda>fd. fd \<in> S) (uses c) \<and> proper (after S c) cs)"

named_theorems fd_simps

lemma openFds_simps [fd_simps]: "openFds S [] = S" "openFds S (c # cs) = openFds (after S c) cs" "openFds S (cs @ ds) = openFds (openFds S cs) ds"
  by (simp_all add: openFds_def)

lemma fresh_append [fd_simps]: "fresh S (cs @ ds) \<longleftrightarrow> fresh S cs \<and> fresh (openFds S cs) ds"
  by (induction cs arbitrary: S) (simp_all add: openFds_simps)

lemma proper_append [fd_simps]: "proper S (cs @ ds) \<longleftrightarrow> proper S cs \<and> proper (openFds S cs) ds"
  by (induction cs arbitrary: S) (simp_all add: openFds_simps)

text \<open>Calls that create and close nothing.\<close>

definition inert :: "sys list \<Rightarrow> bool" where
  "inert cs \<longleftrightarrow> (\<forall>c \<in> set cs. \<forall>S. after S c = S \<and> opened c = [])"

lemma inert_openFds: "inert cs \<Longrightarrow> openFds S cs = S \<and> fresh S cs"
  by (induction cs arbitrary: S) (simp_all add: inert_def openFds_simps)

lemma inert_proper: "inert cs \<Longrightarrow> (\<And>c fd. c \<in> set cs \<Longrightarrow> fd \<in> set (uses c) \<Longrightarrow> fd \<in> S) \<Longrightarrow> proper S cs"
  by (induction cs arbitrary: S) (auto simp: inert_def list_all_iff)

end
