(* ===== verification/Lb_Main.thy ===== *)
theory Lb_Main
  imports Lb Os
begin

text \<open>
  \<open>main\<close> of the load balancer (\<open>cmd/lb/main.go\<close>) with its system calls: it waits for the sockets of the
  backends, connects them, opens the listener with its options and the epoll parameters, and runs the
  accept loop. The answers of the kernel are arguments; the calls are recorded in order.
\<close>

section \<open>The backends\<close>

text \<open>One poll of \<open>waitForPath\<close>: whether the deadline is still ahead, and whether \<open>os.Stat\<close> succeeds.\<close>

fun waitForPath :: "(bool \<times> bool) list \<Rightarrow> bool option" where
  "waitForPath [] = None"
| "waitForPath ((early, found) # polls) =
     (if \<not> early then Some False else if found then Some True else waitForPath polls)"

text \<open>The socket, \<^const>\<open>None\<close> when there is none, and whether it could be connected.\<close>

definition connectUDS :: "bytes \<Rightarrow> int option \<times> bool \<Rightarrow> sys list \<times> int option" where
  "connectUDS path ans =
     (case ans of
        (None, joined) \<Rightarrow> ([Socket AF_UNIX SOCK_SEQPACKET None], None)
      | (Some fd, joined) \<Rightarrow>
          let cs = [Socket AF_UNIX SOCK_SEQPACKET (Some fd), Setsockopt fd SO_SNDBUF (256 * 1024), Connect fd (Path path)]
          in if joined then (cs, Some fd) else (cs @ [Close fd], None))"

datatype lb_end =
  NoBackends | WaitFailed bytes | ConnectFailed bytes | Polling bytes | SocketFailed | BindFailed | ListenFailed
| Serving "int list" "fate list"

text \<open>The answers are those to the first, second, \<open>\<dots>\<close> backend, whatever their paths.\<close>

fun connectAll ::
  "(nat \<Rightarrow> (bool \<times> bool) list) \<Rightarrow> (nat \<Rightarrow> int option \<times> bool) \<Rightarrow> bytes list \<Rightarrow> int list \<Rightarrow> sys list \<times> (lb_end + int list)" where
  "connectAll polls socks [] fds = ([], Inr fds)"
| "connectAll polls socks (p # ps) fds =
     (case waitForPath (polls (length fds)) of
        None \<Rightarrow> ([], Inl (Polling p))
      | Some False \<Rightarrow> ([], Inl (WaitFailed p))
      | Some True \<Rightarrow>
          (case connectUDS p (socks (length fds)) of
             (cs, None) \<Rightarrow> (cs, Inl (ConnectFailed p))
           | (cs, Some fd) \<Rightarrow> (case connectAll polls socks ps (fds @ [fd]) of (ds, r) \<Rightarrow> (cs @ ds, r))))"

section \<open>The listener\<close>

definition epollTuning :: "int \<Rightarrow> int option \<Rightarrow> sys list" where
  "epollTuning lfd ep =
     (case ep of
        None \<Rightarrow> [EpollCreate None]
      | Some epfd \<Rightarrow> [EpollCreate (Some epfd), EpollAdd epfd lfd, Epiocsparams epfd 50 8 1, Close epfd])"

record listen_os =
  oSock :: "int option"
  oBind :: bool
  oListen :: bool
  oEpoll :: "int option"

definition openListener :: "int \<Rightarrow> int \<Rightarrow> listen_os \<Rightarrow> sys list \<times> (lb_end + int)" where
  "openListener port backlog os =
     (case oSock os of
        None \<Rightarrow> ([Socket AF_INET SOCK_STREAM None], Inl SocketFailed)
      | Some lfd \<Rightarrow>
          let cs = [Socket AF_INET SOCK_STREAM (Some lfd), Setsockopt lfd SO_REUSEADDR 1, Setsockopt lfd SO_REUSEPORT 1,
                    Setsockopt lfd TCP_DEFER_ACCEPT 1, Setsockopt lfd SO_BUSY_POLL 50, Bind lfd (Port port)]
          in if \<not> oBind os then (cs, Inl BindFailed)
             else if \<not> oListen os then (cs @ [Listen lfd backlog], Inl ListenFailed)
             else (cs @ [Listen lfd backlog] @ epollTuning lfd (oEpoll os), Inr lfd))"

section \<open>The accept loop\<close>

fun offerCalls :: "int list \<Rightarrow> client \<Rightarrow> bytes \<Rightarrow> nat \<Rightarrow> nat list \<Rightarrow> sys list" where
  "offerCalls fds c pre rr [] = []"
| "offerCalls fds c pre rr (k # ks) =
     (let i = (rr + k) mod length fds in
      Sendmsg (fds ! i) (cFd c) (sendData pre) #
        (case sendLoop (cSends c i) of SendErr e \<Rightarrow> offerCalls fds c pre rr ks | _ \<Rightarrow> []))"

definition acceptCalls :: "int \<Rightarrow> int list \<Rightarrow> nat \<Rightarrow> client \<Rightarrow> sys list" where
  "acceptCalls lfd fds rr c =
     [Accept lfd (Some (cFd c)), Setsockopt (cFd c) TCP_NODELAY 1, Setsockopt (cFd c) TCP_QUICKACK 1, Peek (cFd c) 64] @
     (if handleReadyPeek (cStream c) (cPeek c) then [Write (cFd c) readyResponse]
      else Read (cFd c) #
        (case readReadyPrefix [] (cStream c) (cReads c) of
           Prefix pre rest \<Rightarrow> offerCalls fds c pre rr [0..<length fds]
         | _ \<Rightarrow> [])) @
     (if fst (acceptOne (length fds) rr c) = Stuck then [] else [Close (cFd c)])"

fun acceptTrace :: "int \<Rightarrow> int list \<Rightarrow> nat \<Rightarrow> client option list \<Rightarrow> sys list" where
  "acceptTrace lfd fds rr [] = []"
| "acceptTrace lfd fds rr (None # cs) = Accept lfd None # acceptTrace lfd fds rr cs"
| "acceptTrace lfd fds rr (Some c # cs) = acceptCalls lfd fds rr c @
     (case acceptOne (length fds) rr c of (f, rr') \<Rightarrow> if f = Stuck then [] else acceptTrace lfd fds rr' cs)"

definition lb_main ::
  "(bytes \<Rightarrow> bytes) \<Rightarrow> (nat \<Rightarrow> (bool \<times> bool) list) \<Rightarrow> (nat \<Rightarrow> int option \<times> bool) \<Rightarrow> listen_os \<Rightarrow> client option list \<Rightarrow>
   sys list \<times> lb_end" where
  "lb_main getenv polls socks os cs =
     (let port = envInt (getenv ''LB_PORT'') 9999; backlog = envInt (getenv ''LB_BACKLOG'') 4096 in
      case backendPaths (getenv ''API_SOCKETS'') of
        None \<Rightarrow> ([], NoBackends)
      | Some paths \<Rightarrow>
          (case connectAll polls socks paths [] of
             (ds, Inl e) \<Rightarrow> (ds, e)
           | (ds, Inr fds) \<Rightarrow>
               (case openListener port backlog os of
                  (ls, Inl e) \<Rightarrow> (ds @ ls, e)
                | (ls, Inr lfd) \<Rightarrow> (ds @ ls @ acceptTrace lfd fds 0 cs, Serving fds (acceptLoop (length fds) 0 cs)))))"

section \<open>Descriptors\<close>

lemma connectAll_proper: "connectAll polls socks ps fds = (tr, r) \<Longrightarrow> fresh S tr \<Longrightarrow> proper S tr"
proof (induction ps arbitrary: fds S tr)
  case (Cons p ps)
  then show ?case by (auto simp: connectUDS_def Let_def fd_simps split: option.splits bool.splits prod.splits if_splits)
qed simp

lemma connectAll_end: "connectAll polls socks ps fds \<noteq> (tr, Inl (Serving fs fates))"
  by (induction ps arbitrary: fds tr) (auto split: option.split bool.split prod.split)

lemma connectAll_spec:
  "connectAll polls socks ps fds = (tr, Inr fds') \<Longrightarrow>
   fds' = fds @ map (\<lambda>k. the (fst (socks k))) [length fds..<length fds + length ps]"
proof (induction ps arbitrary: fds tr)
  case (Cons p ps)
  have "[length fds..<length fds + length (p # ps)] = length fds # [Suc (length fds)..<Suc (length fds) + length ps]"
    by (subst upt_conv_Cons) simp_all
  moreover obtain fd ds where "socks (length fds) = (Some fd, True)" "connectAll polls socks ps (fds @ [fd]) = (ds, Inr fds')"
    using Cons.prems by (auto simp: connectUDS_def Let_def split: option.splits bool.splits prod.splits if_splits)
  ultimately show ?case using Cons.IH by fastforce
qed simp

lemma connectAll_fds:
  "connectAll polls socks ps fds = (tr, Inr fds') \<Longrightarrow> fresh S tr \<Longrightarrow>
   \<exists>new. fds' = fds @ new \<and> length new = length ps \<and> distinct new \<and> set new \<inter> S = {} \<and> openFds S tr = S \<union> set new"
proof (induction ps arbitrary: fds S tr)
  case (Cons p ps)
  then obtain fd ds where s: "socks (length fds) = (Some fd, True)" "connectAll polls socks ps (fds @ [fd]) = (ds, Inr fds')"
      "tr = [Socket AF_UNIX SOCK_SEQPACKET (Some fd), Setsockopt fd SO_SNDBUF (256 * 1024), Connect fd (Path p)] @ ds"
    by (auto simp: connectUDS_def Let_def split: option.splits bool.splits prod.splits if_splits)
  then have f: "fd \<notin> S" "fresh (insert fd S) ds" using Cons.prems(2) by (simp_all add: fd_simps)
  obtain new where "fds' = (fds @ [fd]) @ new" "length new = length ps" "distinct new" "set new \<inter> insert fd S = {}"
      "openFds (insert fd S) ds = insert fd S \<union> set new"
    using Cons.IH [OF s(2) f(2)] by blast
  then show ?case using f(1) s(3) by (intro exI [of _ "fd # new"]) (auto simp: fd_simps)
qed (simp add: fd_simps)

lemma openListener_fds:
  assumes "openListener port backlog os = (tr, r)" "fresh S tr"
  shows "proper S tr" "r = Inr lfd \<Longrightarrow> lfd \<notin> S \<and> openFds S tr = insert lfd S"
  using assms by (auto simp: openListener_def epollTuning_def Let_def fd_simps split: option.splits if_splits)

lemma offerCalls_inert: "inert (offerCalls fds c pre rr ks)"
  by (induction ks) (simp_all add: inert_def Let_def split: sent.split)

lemma offerCalls_uses: "fds \<noteq> [] \<Longrightarrow> x \<in> set (offerCalls fds c pre rr ks) \<Longrightarrow> fd \<in> set (uses x) \<Longrightarrow> fd \<in> insert (cFd c) (set fds)"
  by (induction ks) (auto simp: Let_def split: sent.splits)

lemma acceptCalls_fds:
  assumes "fresh S (acceptCalls lfd fds rr c)" "lfd \<in> S" "set fds \<subseteq> S" "fds \<noteq> []"
  shows "proper S (acceptCalls lfd fds rr c)"
    "openFds S (acceptCalls lfd fds rr c) = (if fst (acceptOne (length fds) rr c) = Stuck then insert (cFd c) S else S)"
proof -
  define mid where "mid = (if handleReadyPeek (cStream c) (cPeek c) then [Write (cFd c) readyResponse]
      else Read (cFd c) # (case readReadyPrefix [] (cStream c) (cReads c) of
           Prefix pre rest \<Rightarrow> offerCalls fds c pre rr [0..<length fds] | _ \<Rightarrow> []))"
  have calls: "acceptCalls lfd fds rr c =
      [Accept lfd (Some (cFd c)), Setsockopt (cFd c) TCP_NODELAY 1, Setsockopt (cFd c) TCP_QUICKACK 1, Peek (cFd c) 64] @ mid @
      (if fst (acceptOne (length fds) rr c) = Stuck then [] else [Close (cFd c)])"
    by (simp add: acceptCalls_def mid_def)
  have f: "cFd c \<notin> S" using assms(1) by (simp add: calls)
  have i: "inert mid" using offerCalls_inert by (auto simp: mid_def inert_def split: prefixed.split)
  have "fd \<in> insert (cFd c) S" if "x \<in> set mid" "fd \<in> set (uses x)" for x fd
    using that assms(3) offerCalls_uses [OF assms(4)] by (fastforce simp: mid_def split: if_splits prefixed.splits)
  then have "proper (insert (cFd c) S) mid" by (intro inert_proper i)
  then show "proper S (acceptCalls lfd fds rr c)"
    using assms(2) inert_openFds [OF i] unfolding calls by (simp add: fd_simps)
  show "openFds S (acceptCalls lfd fds rr c) = (if fst (acceptOne (length fds) rr c) = Stuck then insert (cFd c) S else S)"
    using f inert_openFds [OF i] unfolding calls by (simp add: fd_simps insert_Diff_if)
qed

lemma acceptTrace_fds:
  assumes "fresh S (acceptTrace lfd fds rr cs)" "lfd \<in> S" "set fds \<subseteq> S" "fds \<noteq> []"
  shows "proper S (acceptTrace lfd fds rr cs) \<and> (Stuck \<notin> set (acceptLoop (length fds) rr cs) \<longrightarrow> openFds S (acceptTrace lfd fds rr cs) = S)"
  using assms
proof (induction cs arbitrary: rr)
  case (Cons a cs)
  show ?case
  proof (cases a)
    case (Some c)
    obtain f rr' where o': "acceptOne (length fds) rr c = (f, rr')" by force
    then show ?thesis using Cons acceptCalls_fds [of S lfd fds rr c] by (cases "f = Stuck") (simp_all add: Some fd_simps)
  qed (use Cons in \<open>simp add: fd_simps\<close>)
qed (simp add: fd_simps)

lemma serving_fds:
  assumes "r = (case openListener port backlog os of
      (ls, Inl e) \<Rightarrow> (ls, e) | (ls, Inr lfd) \<Rightarrow> (ls @ acceptTrace lfd fds 0 cs, Serving fds (acceptLoop (length fds) 0 cs)))"
    "fresh S (fst r)" "set fds \<subseteq> S" "fds \<noteq> []"
  shows "proper S (fst r) \<and> (\<forall>fds' fates. snd r = Serving fds' fates \<longrightarrow> Stuck \<notin> set fates \<longrightarrow> fds' = fds \<and>
    (\<exists>lfd. lfd \<notin> S \<and> openFds S (fst r) = insert lfd S))"
proof -
  obtain ls q where l: "openListener port backlog os = (ls, q)" by force
  show ?thesis
  proof (cases q)
    case (Inl x)
    have "x \<noteq> Serving fds fates" for fds fates using l by (auto simp: Inl openListener_def Let_def split: option.splits if_splits)
    then show ?thesis using assms(1,2) l openListener_fds(1) [OF l] by (simp add: Inl)
  next
    case (Inr lfd)
    then have r: "r = (ls @ acceptTrace lfd fds 0 cs, Serving fds (acceptLoop (length fds) 0 cs))" using assms(1) l by simp
    have f: "fresh S ls" "fresh (openFds S ls) (acceptTrace lfd fds 0 cs)" using assms(2) by (simp_all add: r fd_simps)
    have o': "lfd \<notin> S" "openFds S ls = insert lfd S" using openListener_fds(2) [OF l f(1) Inr] by simp_all
    show ?thesis using openListener_fds(1) [OF l f(1)] acceptTrace_fds [OF f(2)] o' assms(3,4) by (auto simp: r fd_simps)
  qed
qed

section \<open>The fleet\<close>

text \<open>What the balancer hands to backend \<open>i\<close>, in order: the client, the message and the bytes left in the
  socket.\<close>

definition accepted :: "client option list \<Rightarrow> client list" where
  "accepted cs = List.map_filter id cs"

definition deliveries :: "nat \<Rightarrow> client list \<Rightarrow> fate list \<Rightarrow> (client \<times> bytes \<times> bytes) list" where
  "deliveries i cs fs =
     List.map_filter (\<lambda>(c, f). case f of Handed j msg rest \<Rightarrow> if j = i then Some (c, msg, rest) else None | _ \<Rightarrow> None) (zip cs fs)"

text \<open>The packets the backend receives, with the descriptors its kernel gave the connections.\<close>

definition inbox :: "int list \<Rightarrow> (client \<times> bytes \<times> bytes) list \<Rightarrow> packet list" where
  "inbox fds ds = map2 (\<lambda>fd d. Pkt (fst (snd d)) (Some [Some [fd]])) fds ds"

lemma accepted_simps [simp]: "accepted [] = []" "accepted (None # cs) = accepted cs" "accepted (Some c # cs) = c # accepted cs"
  by (simp_all add: accepted_def map_filter_simps)

lemma deliveries_Cons [simp]:
  "deliveries i [] fs = []" "deliveries i cs [] = []"
  "deliveries i (c # cs) (f # fs) =
    (case f of Handed j msg rest \<Rightarrow> if j = i then [(c, msg, rest)] else [] | _ \<Rightarrow> []) @ deliveries i cs fs"
  by (auto simp: deliveries_def map_filter_simps split: fate.split)

lemma acceptOne_msg:
  assumes "acceptOne n rr c = (Handed i msg rest, rr')"
  shows "\<exists>pre. msg = message pre \<and> length pre \<le> maxPrefix \<and> pre @ rest = cStream c \<and> i < n"
proof -
  obtain pre r where pre: "readReadyPrefix [] (cStream c) (cReads c) = Prefix pre r"
      "offer (cSends c) pre r n rr [0..<n] = (Handed i msg rest, rr')"
    using assms by (auto simp: acceptOne_def split: if_splits prefixed.splits)
  have p: "pre @ r = cStream c" "length pre \<le> maxPrefix" using readReadyPrefix_exact [OF pre(1)] by simp_all
  show ?thesis using offer_Handed [OF pre(2)] p sendData_message [OF p(2)] by auto
qed

lemma deliveries_messages:
  "\<forall>(c, msg, rest) \<in> set (deliveries i (accepted cs) (acceptLoop n rr cs)).
     \<exists>pre. msg = message pre \<and> length pre \<le> maxPrefix \<and> pre @ rest = cStream c"
proof (induction cs arbitrary: rr)
  case (Cons a cs)
  show ?case
  proof (cases a)
    case (Some c)
    obtain f rr' where o': "acceptOne n rr c = (f, rr')" by force
    show ?thesis using Cons.IH [of rr'] acceptOne_msg [of n rr c] o' by (cases f) (auto simp: Some)
  qed (use Cons in simp)
qed simp

lemma inbox_handlers:
  assumes "\<forall>(c, msg, rest) \<in> set ds. \<exists>pre. msg = message pre \<and> length pre \<le> maxPrefix \<and> pre @ rest = cStream c"
    "length fds = length ds" "\<forall>fd \<in> set fds. 0 \<le> fd" "length rbuf = maxPrefix"
  shows "\<exists>pres. ctrlLoop rbuf (inbox fds ds) = zip fds pres \<and> length pres = length ds \<and>
    map2 (\<lambda>p d. p @ snd (snd d)) pres ds = map (cStream \<circ> fst) ds"
  using assms
proof (induction ds arbitrary: fds rbuf)
  case (Cons d ds)
  obtain c msg rest where d: "d = (c, msg, rest)" by (cases d) auto
  obtain pre where pre: "msg = message pre" "length pre \<le> maxPrefix" "pre @ rest = cStream c" using Cons.prems(1) d by auto
  obtain fd fds' where fds: "fds = fd # fds'" using Cons.prems(2) by (cases fds) auto
  have r: "recvFDWithBytes rbuf (Pkt (message pre) (Some [Some [fd]])) = (pre @ drop (length pre) rbuf, [], Inr (fd, length pre))"
    using pre(2) Cons.prems(3,4) by (intro recv_message) (simp_all add: fds)
  obtain pres where "ctrlLoop (pre @ drop (length pre) rbuf) (inbox fds' ds) = zip fds' pres" "length pres = length ds"
      "map2 (\<lambda>p d. p @ snd (snd d)) pres ds = map (cStream \<circ> fst) ds"
    using Cons.IH [of fds' "pre @ drop (length pre) rbuf"] Cons.prems pre(2) by (auto simp: fds)
  then show ?case using r pre(1,3) Cons.prems(3) by (intro exI [of _ "pre # pres"]) (simp add: inbox_def fds d)
qed (simp add: inbox_def)

section \<open>Properties\<close>

text \<open>(C15) The balancer keeps its descriptors: when the kernel never returns a descriptor that is open, every call
  of \<open>main\<close>, whatever fails, is on open descriptors, so none is closed twice or used after it was
  closed. While it serves, it holds one descriptor per configured backend and the listener, and no descriptor of
  a client whose connection it is done with, whether answered, dropped, passed on or refused.\<close>

theorem lb_descriptors:
  assumes "lb_main getenv polls socks os cs = (tr, e)" "fresh S tr"
  shows "proper S tr \<and>
    (\<forall>fds fates. e = Serving fds fates \<longrightarrow> Stuck \<notin> set fates \<longrightarrow>
       (\<exists>lfd paths. backendPaths (getenv ''API_SOCKETS'') = Some paths \<and> length fds = length paths \<and>
          distinct (lfd # fds) \<and> set (lfd # fds) \<inter> S = {} \<and> openFds S tr = S \<union> set (lfd # fds)))"
proof (cases "backendPaths (getenv ''API_SOCKETS'')")
  case None
  then show ?thesis using assms by (auto simp: lb_main_def fd_simps)
next
  case (Some paths)
  have ne: "paths \<noteq> []" using Some by (auto simp: backendPaths_def Let_def split: if_splits)
  obtain ds r where c: "connectAll polls socks paths [] = (ds, r)" by force
  show ?thesis
  proof (cases r)
    case (Inl x)
    then have "tr = ds" "e = x" using assms(1) Some c by (simp_all add: lb_main_def Let_def)
    moreover have "x \<noteq> Serving fds fates" for fds fates using c connectAll_end [of polls socks paths "[]"] by (simp add: Inl)
    ultimately show ?thesis using connectAll_proper [OF c] assms(2) by simp
  next
    case (Inr fds)
    define rest where "rest = (case openListener (envInt (getenv ''LB_PORT'') 9999) (envInt (getenv ''LB_BACKLOG'') 4096) os of
        (ls, Inl e) \<Rightarrow> (ls, e) | (ls, Inr lfd) \<Rightarrow> (ls @ acceptTrace lfd fds 0 cs, Serving fds (acceptLoop (length fds) 0 cs)))"
    have t: "tr = ds @ fst rest" "e = snd rest"
      using assms(1) Some c Inr by (auto simp: lb_main_def Let_def rest_def split: prod.splits sum.splits)
    have f: "fresh S ds" "fresh (openFds S ds) (fst rest)" using assms(2) by (simp_all add: t fd_simps)
    have n: "length fds = length paths" "distinct fds" "set fds \<inter> S = {}" "openFds S ds = S \<union> set fds"
      using connectAll_fds [of polls socks paths "[]" ds fds S] c f(1) by (auto simp: Inr)
    have l: "proper (openFds S ds) (fst rest) \<and> (\<forall>fds' fates. snd rest = Serving fds' fates \<longrightarrow> Stuck \<notin> set fates \<longrightarrow> fds' = fds \<and>
        (\<exists>lfd. lfd \<notin> openFds S ds \<and> openFds (openFds S ds) (fst rest) = insert lfd (openFds S ds)))"
      by (rule serving_fds [OF rest_def f(2)]) (use n(1,4) ne in auto)
    show ?thesis using connectAll_proper [OF c f(1)] l n Some by (auto simp: t fd_simps)
  qed
qed

text \<open>The balancer accepts clients only with all of its backends: when \<open>main\<close> gets as far as the accept loop, it
  holds one connected socket for each configured path, in the configured order, and there are
  between one and eight of them.\<close>

theorem lb_backends_complete:
  assumes "lb_main getenv polls socks os cs = (tr, Serving fds fates)"
  shows "\<exists>paths. backendPaths (getenv ''API_SOCKETS'') = Some paths \<and> fds = map (\<lambda>k. the (fst (socks k))) [0..<length paths] \<and>
    1 \<le> length fds \<and> length fds \<le> 8 \<and> fates = acceptLoop (length fds) 0 cs"
proof -
  obtain paths ds where p: "backendPaths (getenv ''API_SOCKETS'') = Some paths" "connectAll polls socks paths [] = (ds, Inr fds)"
      "fates = acceptLoop (length fds) 0 cs"
    using assms connectAll_end [of polls socks _ "[]" _ fds fates]
    by (auto simp: lb_main_def Let_def openListener_def split: option.splits prod.splits sum.splits if_splits)
  have "1 \<le> length paths" "length paths \<le> 8" using p(1) by (auto simp: backendPaths_def Let_def Suc_le_eq split: if_splits)
  then show ?thesis using p connectAll_spec [OF p(2)] by simp
qed

text \<open>Nothing is lost between the balancer and its backends: over any sequence of accepted, failing, answered
  and refused connections, the control loop of backend \<open>i\<close> starts one handler for each connection that was
  handed to it, in the order of acceptance, and what the handler is given and what is left in the
  socket make up exactly what that client sent.\<close>

theorem fleet_delivers:
  assumes "ds = deliveries i (accepted cs) (acceptLoop n 0 cs)" "length fds = length ds" "\<forall>fd \<in> set fds. 0 \<le> fd"
  shows "\<exists>pres. ctrlLoop recvPrefixBuf0 (inbox fds ds) = zip fds pres \<and> length pres = length ds \<and>
    map2 (\<lambda>p d. p @ snd (snd d)) pres ds = map (cStream \<circ> fst) ds"
  using inbox_handlers [OF _ assms(2,3), of recvPrefixBuf0] deliveries_messages [of i cs n 0] assms(1) by simp

section \<open>Witnesses\<close>

lemma one_loop: "acceptLoop 2 0 [None, Some one_client] = [Handed 1 (sendData []) (cStream one_client)]"
  using one_handed by simp

theorem fleet_delivers_witness:
  "\<exists>pres. ctrlLoop recvPrefixBuf0 (inbox [5] [(one_client, sendData [], cStream one_client)]) = zip [5] pres \<and>
    map2 (\<lambda>p d. p @ snd (snd d)) pres [(one_client, sendData [], cStream one_client)] = [cStream one_client]"
proof -
  have "[(one_client, sendData [], cStream one_client)] = deliveries 1 (accepted [None, Some one_client]) (acceptLoop 2 0 [None, Some one_client])"
    by (simp only: one_loop) simp
  from fleet_delivers [OF this, of "[5]"] show ?thesis by auto
qed

definition env_lb :: "bytes \<Rightarrow> bytes" where
  "env_lb k = (if k = ''API_SOCKETS'' then ''/a, /b'' else [])"

definition socks_lb :: "nat \<Rightarrow> int option \<times> bool" where
  "socks_lb k = (Some (if k = 0 then 3 else 4), True)"

definition os_lb :: listen_os where
  "os_lb = \<lparr>oSock = Some 5, oBind = True, oListen = True, oEpoll = Some 6\<rparr>"

lemma lb_run:
  "lb_main env_lb (\<lambda>p. [(True, True)]) socks_lb os_lb [None, Some one_client] =
    ([Socket AF_UNIX SOCK_SEQPACKET (Some 3), Setsockopt 3 SO_SNDBUF 262144, Connect 3 (Path ''/a''),
      Socket AF_UNIX SOCK_SEQPACKET (Some 4), Setsockopt 4 SO_SNDBUF 262144, Connect 4 (Path ''/b''),
      Socket AF_INET SOCK_STREAM (Some 5), Setsockopt 5 SO_REUSEADDR 1, Setsockopt 5 SO_REUSEPORT 1, Setsockopt 5 TCP_DEFER_ACCEPT 1,
      Setsockopt 5 SO_BUSY_POLL 50, Bind 5 (Port 9999), Listen 5 4096, EpollCreate (Some 6), EpollAdd 6 5, Epiocsparams 6 50 8 1, Close 6,
      Accept 5 None, Accept 5 (Some 9), Setsockopt 9 TCP_NODELAY 1, Setsockopt 9 TCP_QUICKACK 1, Peek 9 64, Read 9,
      Sendmsg 3 9 (sendData []), Sendmsg 4 9 (sendData []), Close 9],
     Serving [3, 4] [Handed 1 (sendData []) (cStream one_client)])"
proof -
  have p: "backendPaths (env_lb ''API_SOCKETS'') = Some [''/a'', ''/b'']"
    using splitTrim_padded [of "[([], ''/a'', []), ('' '', ''/b'', [])]"]
    by (simp add: env_lb_def backendPaths_def pad_def pad_ok_def path_ok_def plainChar_def isBlank_def)
  have a: "acceptCalls 5 [3, 4] 0 one_client = [Accept 5 (Some 9), Setsockopt 9 TCP_NODELAY 1, Setsockopt 9 TCP_QUICKACK 1, Peek 9 64,
      Read 9, Sendmsg 3 9 (sendData []), Sendmsg 4 9 (sendData []), Close 9]"
    using one_handed
    by (simp add: acceptCalls_def one_client_def handleReadyPeek_def readReadyPrefix.simps [of "[]"] Let_def numeral_2_eq_2)
  show ?thesis
    using p a one_handed
    by (simp add: lb_main_def connectUDS_def socks_lb_def os_lb_def openListener_def epollTuning_def env_lb_def envInt_def Let_def
        numeral_2_eq_2)
qed

theorem lb_descriptors_witness:
  "\<exists>tr e. lb_main env_lb (\<lambda>p. [(True, True)]) socks_lb os_lb [None, Some one_client] = (tr, e) \<and>
    proper {0, 1, 2} tr \<and> openFds {0, 1, 2} tr = {0, 1, 2, 3, 4, 5}"
proof -
  let ?r = "lb_main env_lb (\<lambda>p. [(True, True)]) socks_lb os_lb [None, Some one_client]"
  have e: "?r = (fst ?r, snd ?r)" by simp
  have f: "fresh {0, 1, 2} (fst ?r)" by (simp add: lb_run)
  have "proper {0, 1, 2} (fst ?r)" using lb_descriptors [OF e f] by blast
  moreover have "openFds {0, 1, 2} (fst ?r) = {0, 1, 2, 3, 4, 5}" by (auto simp: lb_run fd_simps)
  ultimately show ?thesis using e by blast
qed

end
