(* ===== verification/Fleet.thy ===== *)
theory Fleet
  imports Goroutines Lb_Main
begin

text \<open>
  The balancer and the goroutines of its backends together: which client's bytes a handler works on, from the accept
  loop through the control channel to the interleaved handlers on pooled buffers.
\<close>

section \<open>From the balancer to the goroutines\<close>

text \<open>The connections of backend \<open>i\<close> and the goroutines of its process: handler \<open>k\<close> is started with the prefix the
  control loop copied for connection \<open>k\<close>, and reads what is left in the socket of that client.\<close>

definition serves :: "int list \<Rightarrow> (client \<times> bytes \<times> bytes) list \<Rightarrow> nat \<Rightarrow> bytes \<times> bytes \<Rightarrow> bool" where
  "serves fds ds k a \<longleftrightarrow> k < length ds \<and> a = (snd (ctrlLoop recvPrefixBuf0 (inbox fds ds) ! k), snd (snd (ds ! k)))"

lemma serves_stream:
  assumes "ds = deliveries i (accepted cs) (acceptLoop n 0 cs)" "length fds = length ds" "\<forall>fd \<in> set fds. 0 \<le> fd" "serves fds ds k a"
  shows "fst a @ snd a = cStream (fst (ds ! k))"
proof -
  obtain pres where p: "ctrlLoop recvPrefixBuf0 (inbox fds ds) = zip fds pres" "length pres = length ds"
      "map2 (\<lambda>p d. p @ snd (snd d)) pres ds = map (cStream \<circ> fst) ds"
    using inbox_handlers [OF _ assms(2,3), of recvPrefixBuf0] deliveries_messages [of i cs n 0] assms(1) by auto
  have k: "k < length ds" "a = (pres ! k, snd (snd (ds ! k)))" using assms(2,4) p(1,2) by (simp_all add: serves_def)
  have "map2 (\<lambda>p d. p @ snd (snd d)) pres ds ! k = cStream (fst (ds ! k))" using k(1) by (simp add: p(3))
  then show ?thesis using k p(2) by simp
qed

text \<open>(C3) The whole fleet: over any sequence of connections and any interleaving of the goroutines of a backend,
  with reused buffers and payloads, what the handler of the \<open>k\<close>-th connection handed to backend \<open>i\<close> has
  written is at every moment a prefix of the responses to the requests which that client sent, in
  their order; and a handler that has returned has done what the sequential handler does on
  these bytes.\<close>

theorem fleet_serves:
  assumes "ds = deliveries i (accepted cs) (acceptLoop n 0 cs)" "length fds = length ds" "\<forall>fd \<in> set fds. 0 \<le> fd"
    "api_reachable kern ix w"
  shows "(\<forall>k a b j g. running w k = Some (a, b, j, g) \<longrightarrow> serves fds ds k a \<longrightarrow>
      prefix (gOut g) (concat (fst (answers kern ix (cStream (fst (ds ! k))))))) \<and>
    (\<forall>k a g. finished w k = Some (a, g) \<longrightarrow> serves fds ds k a \<longrightarrow>
      prefix (gOut g) (concat (fst (answers kern ix (cStream (fst (ds ! k)))))) \<and>
      (\<exists>rs ws. handleRawConn kern ix (fst a) (snd a) rs ws = (gOut g, Closed)))"
proof (intro conjI allI impI)
  fix k a b j g
  assume "running w k = Some (a, b, j, g)" "serves fds ds k a"
  then show "prefix (gOut g) (concat (fst (answers kern ix (cStream (fst (ds ! k))))))"
    using sequential_prefix [OF assms(4)] serves_stream [OF assms(1-3)] by metis
next
  fix k a g
  assume f: "finished w k = Some (a, g)" "serves fds ds k a"
  show "\<exists>rs ws. handleRawConn kern ix (fst a) (snd a) rs ws = (gOut g, Closed)" by (rule finished_sequential [OF assms(4) f(1)])
  show "prefix (gOut g) (concat (fst (answers kern ix (cStream (fst (ds ! k))))))"
    using finished_prefix [OF assms(4) f(1)] serves_stream [OF assms(1-3) f(2)] by simp
qed

theorem fleet_serves_witness:
  "\<exists>w i j g. api_reachable amd64 ix_far w \<and> running w 0 = Some (([], cStream one_client), i, j, g) \<and>
    prefix (gOut g) (concat (fst (answers amd64 ix_far (cStream one_client))))"
proof -
  define ds where "ds = deliveries 1 (accepted [None, Some one_client]) (acceptLoop 2 0 [None, Some one_client])"
  have d: "ds = [(one_client, sendData [], cStream one_client)]" unfolding ds_def by (simp only: one_loop) simp
  have "sendData [] = message []" by (rule sendData_message) simp
  then have "ctrlLoop recvPrefixBuf0 (inbox [5] ds) = [(5, [])]"
    using ctrlLoop_messages [of "[(5, [])]" recvPrefixBuf0] by (simp add: inbox_def d)
  then have s: "serves [5] ds 0 ([], cStream one_client)" by (simp add: serves_def d)
  have 0: "api_reachable amd64 ix_far world0" "alive (world0 :: (bytes \<times> bytes, gor) world)" "running (world0 :: (bytes \<times> bytes, gor) world) 0 = None"
    "finished (world0 :: (bytes \<times> bytes, gor) world) 0 = None"
    by (rule reach0) (simp_all add: world0_def)
  obtain w i j g where w: "api_reachable amd64 ix_far w" "running w 0 = Some (([], cStream one_client), i, j, g)"
    using starts [OF 0, of "([], cStream one_client)"] by auto
  have "length [5 :: int] = length ds" "\<forall>fd \<in> set [5 :: int]. 0 \<le> fd" by (simp_all add: d)
  from fleet_serves [OF ds_def this w(1)] w(2) s have "prefix (gOut g) (concat (fst (answers amd64 ix_far (cStream (fst (ds ! 0))))))" by blast
  then show ?thesis using w by (auto simp: d)
qed

end
