(* ===== verification/Ctrl_Fds.thy ===== *)
theory Ctrl_Fds
  imports Ctrl Os "HOL-Library.Multiset"
begin

text \<open>
  The control channel as a process of system calls (\<open>runCtrl\<close>, \<open>ctrlLoop\<close> and \<open>handleConnFD\<close> of
  \<open>cmd/api/ctrl_linux.go\<close>): the socket is set up, every accepted peer gets a loop, every received
  connection a handler, and all of them make their calls in any order. The calls of the handlers
  are those of \<open>handleRawConn\<close>: reads and writes on the connection, and its close at the end.
\<close>

section \<open>The code\<close>

datatype ctrl_end = CtrlSocketFailed | CtrlBindFailed | CtrlListenFailed

definition ctrlSetup :: "bytes \<Rightarrow> int option \<Rightarrow> bool \<Rightarrow> bool \<Rightarrow> sys list \<times> (ctrl_end + int)" where
  "ctrlSetup sockPath sock bound listening =
     (case sock of
        None \<Rightarrow> ([Remove sockPath, Socket AF_UNIX SOCK_SEQPACKET None], Inl CtrlSocketFailed)
      | Some fd \<Rightarrow>
          let cs = [Remove sockPath, Socket AF_UNIX SOCK_SEQPACKET (Some fd), Bind fd (Path sockPath)]
          in if \<not> bound then (cs, Inl CtrlBindFailed)
             else if \<not> listening then (cs @ [Chmod sockPath 438, Listen fd 8], Inl CtrlListenFailed)
             else (cs @ [Chmod sockPath 438, Listen fd 8], Inr fd))"

text \<open>The calls made so far, the socket of each running control loop, the connections whose handler has not
  made a call yet, those being served, and the descriptors that were received and that nothing refers to any more.\<close>

record io =
  calls :: "sys list"
  peer :: "nat \<Rightarrow> int option"
  handed :: "int list"
  serving :: "int list"
  lost :: "int list"

text \<open>The descriptors that come with a packet.\<close>

definition received :: "packet \<Rightarrow> int list" where
  "received pkt = (case pkt of Pkt msg (Some ms) \<Rightarrow> concat (map (case_option [] id) ms) | _ \<Rightarrow> [])"

text \<open>What \<open>handleConnFD\<close> does before \<open>handleRawConn\<close>.\<close>

definition connCalls :: "int \<Rightarrow> sys list" where
  "connCalls fdInt = [SetNonblock fdInt False]"

inductive io_step :: "int \<Rightarrow> io \<Rightarrow> io \<Rightarrow> bool" for lfd where
  accept_fail: "io_step lfd st (st\<lparr>calls := calls st @ [Accept lfd None]\<rparr>)"
| accept: "peer st i = None \<Longrightarrow>
    io_step lfd st (st\<lparr>calls := calls st @ [Accept lfd (Some cfd)], peer := (peer st)(i \<mapsto> cfd)\<rparr>)"
| recv: "peer st i = Some cfd \<Longrightarrow> list_all (\<lambda>fd. 0 \<le> fd) (received pkt) \<Longrightarrow> recvFDWithBytes rbuf pkt = (rbuf', shut, Inr (fd, plen)) \<Longrightarrow>
    io_step lfd st (st\<lparr>calls := calls st @ [Recvmsg cfd (received pkt)] @ map Close shut, handed := fd # handed st\<rparr>)"
| recv_intr: "peer st i = Some cfd \<Longrightarrow> recvFDWithBytes rbuf (PktErr EINTR) = (rbuf', shut, Inl EINTR) \<Longrightarrow>
    io_step lfd st (st\<lparr>calls := calls st @ [Recvmsg cfd []]\<rparr>)"
| recv_fail: "peer st i = Some cfd \<Longrightarrow> list_all (\<lambda>fd. 0 \<le> fd) (received pkt) \<Longrightarrow> recvFDWithBytes rbuf pkt = (rbuf', shut, Inl e) \<Longrightarrow> e \<noteq> EINTR \<Longrightarrow>
    io_step lfd st (st\<lparr>calls := calls st @ [Recvmsg cfd (received pkt)] @ map Close shut @ [Close cfd], peer := (peer st)(i := None),
      lost := filter (\<lambda>fd. fd \<notin> set shut) (received pkt) @ lost st\<rparr>)"
| unblock: "fd \<in> set (handed st) \<Longrightarrow>
    io_step lfd st (st\<lparr>calls := calls st @ connCalls fd, handed := remove1 fd (handed st), serving := fd # serving st\<rparr>)"
| serve: "fd \<in> set (serving st) \<Longrightarrow> c = Read fd \<or> c = Write fd resp \<Longrightarrow> io_step lfd st (st\<lparr>calls := calls st @ [c]\<rparr>)"
| finish: "fd \<in> set (serving st) \<Longrightarrow>
    io_step lfd st (st\<lparr>calls := calls st @ [Close fd], serving := remove1 fd (serving st)\<rparr>)"

inductive io_reach :: "sys list \<Rightarrow> int \<Rightarrow> io \<Rightarrow> bool" for cs lfd where
  io_init: "io_reach cs lfd \<lparr>calls = cs, peer = (\<lambda>i. None), handed = [], serving = [], lost = []\<rparr>"
| io_more: "io_reach cs lfd st \<Longrightarrow> io_step lfd st st' \<Longrightarrow> io_reach cs lfd st'"

section \<open>Descriptors\<close>

lemma ctrlSetup_fds:
  assumes "ctrlSetup p sock b l = (cs, r)" "fresh S cs"
  shows "proper S cs" "r = Inr lfd \<Longrightarrow> lfd \<notin> S \<and> openFds S cs = insert lfd S"
  using assms by (auto simp: ctrlSetup_def Let_def fd_simps split: option.splits if_splits)

lemma pickFd_cases: "list_all (\<lambda>fd. 0 \<le> fd) fds \<Longrightarrow> pickFd fds = (case fds of [] \<Rightarrow> (- 1, []) | fd # r \<Rightarrow> (fd, r))"
  by (cases fds) (simp_all add: pickFd_first, simp add: pickFd_def)

lemma recv_fds:
  assumes "recvFDWithBytes rbuf pkt = (rbuf', shut, Inr (fd, plen))" "list_all (\<lambda>fd. 0 \<le> fd) (received pkt)"
  shows "received pkt = fd # shut"
  using assms
  by (auto simp: recvFDWithBytes_def received_def Let_def pickFd_cases split: packet.splits option.splits prod.splits if_splits list.splits)

lemma recv_err_fds:
  assumes "recvFDWithBytes rbuf pkt = (rbuf', shut, Inl e)" "list_all (\<lambda>fd. 0 \<le> fd) (received pkt)"
  shows "shut = []"
  using assms
  by (auto simp: recvFDWithBytes_def received_def Let_def pickFd_cases split: packet.splits option.splits prod.splits if_splits list.splits)

lemma close_many: "set fds \<subseteq> S \<Longrightarrow> distinct fds \<Longrightarrow> proper S (map Close fds) \<and> openFds S (map Close fds) = S - set fds"
  by (induction fds arbitrary: S) (auto simp: fd_simps subset_Diff_insert)

text \<open>Who owns which descriptor: the process before the set-up (\<open>S\<close>), the listener, one loop, one handler, or
  nobody. No descriptor has two owners.\<close>

abbreviation owned_fds :: "io \<Rightarrow> int list" where
  "owned_fds st \<equiv> handed st @ serving st @ lost st"

definition io_inv :: "int set \<Rightarrow> int \<Rightarrow> io \<Rightarrow> bool" where
  "io_inv S lfd st \<longleftrightarrow> proper S (calls st) \<and> lfd \<notin> S \<and> distinct (owned_fds st) \<and> set (owned_fds st) \<inter> insert lfd S = {} \<and>
     ran (peer st) \<inter> (insert lfd S \<union> set (owned_fds st)) = {} \<and> inj_on (peer st) (dom (peer st)) \<and>
     openFds S (calls st) = insert lfd S \<union> ran (peer st) \<union> set (owned_fds st)"

lemma io_invD:
  assumes "io_inv S lfd st"
  shows "proper S (calls st)" "lfd \<notin> S" "distinct (owned_fds st)" "set (owned_fds st) \<inter> insert lfd S = {}"
    "ran (peer st) \<inter> (insert lfd S \<union> set (owned_fds st)) = {}" "inj_on (peer st) (dom (peer st))"
    "openFds S (calls st) = insert lfd S \<union> ran (peer st) \<union> set (owned_fds st)"
  using assms by (simp_all add: io_inv_def)

text \<open>Calls that only use what is owned.\<close>

lemma inv_inert:
  assumes "io_inv S lfd st" "inert cs" "\<And>c fd. c \<in> set cs \<Longrightarrow> fd \<in> set (uses c) \<Longrightarrow> fd \<in> insert lfd (ran (peer st) \<union> set (owned_fds st))"
    "calls st' = calls st @ cs" "peer st' = peer st" "mset (owned_fds st') = mset (owned_fds st)"
  shows "io_inv S lfd st'"
proof -
  have o': "set (owned_fds st') = set (owned_fds st)" "distinct (owned_fds st') = distinct (owned_fds st)"
    using assms(6) mset_eq_setD mset_eq_imp_distinct_iff by blast+
  have "proper (openFds S (calls st)) cs" using assms(2,3) io_invD(7) [OF assms(1)] by (intro inert_proper) auto
  then show ?thesis using assms(1) inert_openFds [OF assms(2)] unfolding io_inv_def assms(4,5) o' by (simp add: fd_simps)
qed

text \<open>A new descriptor of a loop, and the end of a loop.\<close>

lemma ran_upd: "m i = None \<Longrightarrow> ran (m(i \<mapsto> x)) = insert x (ran m)"
  by (rule ran_map_upd)

lemma inj_upd: "inj_on m (dom m) \<Longrightarrow> x \<notin> ran m \<Longrightarrow> inj_on (m(i \<mapsto> x)) (dom (m(i \<mapsto> x)))"
  by (auto simp: inj_on_def ran_def)

lemma ran_del: "inj_on m (dom m) \<Longrightarrow> m i = Some x \<Longrightarrow> ran (m(i := None)) = ran m - {x}"
  by (auto simp: inj_on_def ran_def dom_def) (metis option.inject)

lemma inj_del: "inj_on m (dom m) \<Longrightarrow> inj_on (m(i := None)) (dom (m(i := None)))"
  by (auto simp: inj_on_def)

lemma inv_accept:
  assumes "io_inv S lfd st" "peer st i = None" "cfd \<notin> openFds S (calls st)"
  shows "io_inv S lfd (st\<lparr>calls := calls st @ [Accept lfd (Some cfd)], peer := (peer st)(i \<mapsto> cfd)\<rparr>)"
proof -
  note d = io_invD [OF assms(1)]
  have "cfd \<notin> ran (peer st)" using assms(3) d(7) by simp
  then show ?thesis using d assms(2,3) inj_upd [OF d(6), of cfd i] by (auto simp: io_inv_def fd_simps ran_upd)
qed

lemma inv_recv:
  assumes "io_inv S lfd st" "peer st i = Some cfd" "distinct (fd # shut)" "set (fd # shut) \<inter> openFds S (calls st) = {}"
  shows "io_inv S lfd (st\<lparr>calls := calls st @ [Recvmsg cfd (fd # shut)] @ map Close shut, handed := fd # handed st\<rparr>)"
proof -
  note d = io_invD [OF assms(1)]
  have c: "cfd \<in> openFds S (calls st)" using assms(2) d(7) by (auto simp: ran_def)
  have "proper (openFds S (calls st) \<union> set (fd # shut)) (map Close shut) \<and>
      openFds (openFds S (calls st) \<union> set (fd # shut)) (map Close shut) = openFds S (calls st) \<union> set (fd # shut) - set shut"
    using assms(3) by (intro close_many) auto
  moreover have "openFds S (calls st) \<union> set (fd # shut) - set shut = insert fd (openFds S (calls st))" using assms(3,4) by auto
  ultimately show ?thesis using d c assms(4) unfolding io_inv_def by (auto simp: fd_simps)
qed

lemma inv_recv_fail:
  assumes "io_inv S lfd st" "peer st i = Some cfd" "distinct fds" "set fds \<inter> openFds S (calls st) = {}"
  shows "io_inv S lfd (st\<lparr>calls := calls st @ [Recvmsg cfd fds, Close cfd], peer := (peer st)(i := None), lost := fds @ lost st\<rparr>)"
proof -
  note d = io_invD [OF assms(1)]
  have c: "cfd \<in> ran (peer st)" using assms(2) by (auto simp: ran_def)
  show ?thesis
    using d c assms(3,4) ran_del [OF d(6) assms(2)] inj_del [OF d(6), of i] unfolding io_inv_def by (simp add: fd_simps) blast
qed

lemma inv_finish:
  assumes "io_inv S lfd st" "fd \<in> set (serving st)"
  shows "io_inv S lfd (st\<lparr>calls := calls st @ [Close fd], serving := remove1 fd (serving st)\<rparr>)"
proof -
  note d = io_invD [OF assms(1)]
  have "distinct (serving st)" "fd \<notin> set (handed st)" "fd \<notin> set (lost st)" "fd \<notin> insert lfd S" "fd \<notin> ran (peer st)"
    using d(3,4,5) assms(2) by auto
  then show ?thesis using d assms(2) unfolding io_inv_def by (simp add: fd_simps set_remove1_eq) blast
qed

lemma inv_step:
  assumes "io_step lfd st st'" "io_inv S lfd st" "fresh S (calls st')"
  shows "io_inv S lfd st'"
  using assms(1)
proof cases
  case (accept i cfd)
  then show ?thesis using assms(3) inv_accept [OF assms(2)] by (simp add: fd_simps)
next
  case (recv i cfd pkt rbuf rbuf' shut fd plen)
  have r: "received pkt = fd # shut" by (rule recv_fds [OF recv(4,3)])
  have "distinct (fd # shut)" "set (fd # shut) \<inter> openFds S (calls st) = {}"
    using assms(3) recv(1) r by (auto simp: fd_simps list_all_iff)
  then show ?thesis using inv_recv [OF assms(2) recv(2)] recv(1) r by simp
next
  case (recv_fail i cfd pkt rbuf rbuf' shut e)
  have sh: "shut = []" by (rule recv_err_fds [OF recv_fail(4,3)])
  have "distinct (received pkt)" "set (received pkt) \<inter> openFds S (calls st) = {}"
    using assms(3) recv_fail(1) by (auto simp: fd_simps list_all_iff)
  then show ?thesis using inv_recv_fail [OF assms(2) recv_fail(2)] recv_fail(1) sh by simp
next
  case (finish fd)
  then show ?thesis using inv_finish [OF assms(2)] by simp
next
  case accept_fail
  then show ?thesis by (intro inv_inert [OF assms(2), of "[Accept lfd None]"]) (auto simp: inert_def)
next
  case (recv_intr i cfd)
  then show ?thesis by (intro inv_inert [OF assms(2), of "[Recvmsg cfd []]"]) (auto simp: inert_def ran_def)
next
  case (unblock fd)
  then show ?thesis by (intro inv_inert [OF assms(2), of "connCalls fd"]) (auto simp: inert_def connCalls_def)
next
  case (serve fd c)
  then show ?thesis by (intro inv_inert [OF assms(2), of "[c]"]) (auto simp: inert_def)
qed

lemma step_calls: "io_step lfd st st' \<Longrightarrow> \<exists>cs. calls st' = calls st @ cs"
  by (erule io_step.cases) auto

lemma inv_reach:
  assumes "io_reach cs lfd st" "ctrlSetup p sock b l = (cs, Inr lfd)" "fresh S (calls st)"
  shows "io_inv S lfd st"
  using assms(1,3)
proof (induction rule: io_reach.induct)
  case io_init
  then show ?case using ctrlSetup_fds [OF assms(2)] by (simp add: io_inv_def)
next
  case (io_more st st')
  then have "fresh S (calls st)" using step_calls [OF io_more(2)] by (auto simp: fd_simps)
  then show ?case using io_more inv_step by blast
qed

section \<open>Properties\<close>

text \<open>(C16) The descriptors of the API. Suppose the kernel never returns a descriptor that is open. Then, whatever the order of
  the control loops and handlers, every system call is on an open descriptor, so none is closed twice or used after its
  close by another goroutine. What is open is what was open before the set-up, the listener, the peer of each
  running control loop, the connections handed over or being served, and the descriptors that \<open>recvFDWithBytes\<close> dropped
  on an error. These groups are disjoint, no two loops have the same peer and no descriptor occurs twice:
  an open descriptor is in one place, and it is without an owner exactly when it was dropped.\<close>

theorem api_descriptors:
  assumes "ctrlSetup path sock b l = (cs, Inr lfd)" "io_reach cs lfd st" "fresh S (calls st)"
  shows "proper S (calls st) \<and>
    openFds S (calls st) = S \<union> {lfd} \<union> ran (peer st) \<union> set (handed st) \<union> set (serving st) \<union> set (lost st) \<and>
    inj_on (peer st) (dom (peer st)) \<and> distinct (lfd # handed st @ serving st @ lost st) \<and>
    S \<inter> (ran (peer st) \<union> set (lfd # handed st @ serving st @ lost st)) = {} \<and>
    ran (peer st) \<inter> set (lfd # handed st @ serving st @ lost st) = {}"
  using io_invD [OF inv_reach [OF assms(2,1,3)]] by auto

text \<open>A packet that is framed the way the balancer frames it loses no descriptor: it is handed over with the others
  closed, or there was none.\<close>

theorem framed_loses_none:
  assumes "recvFDWithBytes rbuf (Pkt (message p) cmsgs) = (rbuf', shut, r)" "length p \<le> length rbuf" "length rbuf < 65536"
    "list_all (\<lambda>fd. 0 \<le> fd) (received (Pkt (message p) cmsgs))"
  shows "case r of Inl e \<Rightarrow> received (Pkt (message p) cmsgs) = [] | Inr (fd, plen) \<Rightarrow> received (Pkt (message p) cmsgs) = fd # shut"
proof (cases r)
  case (Inl e)
  have "plenOf (char_of (length p)) (char_of (length p div 256)) = length p" using assms(2,3) by (intro plenOf_char) simp
  then show ?thesis using assms
    by (auto simp: Inl recvFDWithBytes_def received_def message_def Let_def pickFd_cases min_def
        split: option.splits prod.splits if_splits list.splits)
next
  case (Inr x)
  then show ?thesis using recv_fds [of rbuf "Pkt (message p) cmsgs" rbuf' shut] assms by (cases x) simp
qed

section \<open>Witness\<close>

text \<open>A packet of one byte makes \<open>recvFDWithBytes\<close> return before it has looked at the descriptor that came with it:
  the loop ends, and descriptor 7 stays open without an owner.\<close>

theorem api_descriptors_witness:
  "\<exists>cs st. ctrlSetup ''s'' (Some 3) True True = (cs, Inr 3) \<and> io_reach cs 3 st \<and> proper {0, 1, 2} (calls st) \<and>
    openFds {0, 1, 2} (calls st) = {0, 1, 2, 3, 7} \<and> lost st = [7] \<and> peer st 0 = None"
proof -
  define cs where "cs = fst (ctrlSetup ''s'' (Some 3) True True)"
  have su: "ctrlSetup ''s'' (Some 3) True True = (cs, Inr 3)" by (simp add: cs_def ctrlSetup_def Let_def)
  define s0 where "s0 = \<lparr>calls = cs, peer = (\<lambda>i. None), handed = [], serving = [], lost = []\<rparr>"
  define s1 where "s1 = s0\<lparr>calls := calls s0 @ [Accept 3 (Some 4)], peer := (peer s0)(0 \<mapsto> 4)\<rparr>"
  define s2 where "s2 = s1\<lparr>calls := calls s1 @ [Recvmsg 4 [7]] @ map Close [] @ [Close 4], peer := (peer s1)(0 := None),
      lost := filter (\<lambda>fd. fd \<notin> set []) [7] @ lost s1\<rparr>"
  have "io_step 3 s0 s1" unfolding s1_def by (rule accept) (simp add: s0_def)
  moreover have "recvFDWithBytes recvPrefixBuf0 (Pkt ''A'' (Some [Some [7]])) = (fst (recvFDWithBytes recvPrefixBuf0 (Pkt ''A'' (Some [Some [7]]))), [], Inl EBADMSG)"
    by (simp add: recvFDWithBytes_def Let_def)
  then have "io_step 3 s1 s2" unfolding s2_def using recv_fail [of s1 0 4 "Pkt ''A'' (Some [Some [7]])" _ _ "[]" EBADMSG 3]
    by (simp add: s1_def received_def)
  moreover have "io_reach cs 3 s0" unfolding s0_def by (rule io_init)
  ultimately have r: "io_reach cs 3 s2" by (blast intro: io_more)
  have f: "fresh {0, 1, 2} (calls s2)" by (simp add: s2_def s1_def s0_def cs_def ctrlSetup_def Let_def)
  have "proper {0, 1, 2} (calls s2)"
      "openFds {0, 1, 2} (calls s2) = {0, 1, 2} \<union> {3} \<union> ran (peer s2) \<union> set (handed s2) \<union> set (serving s2) \<union> set (lost s2)"
    using api_descriptors [OF su r f] by blast+
  then show ?thesis using su r by (intro exI [of _ cs] exI [of _ s2]) (auto simp: s2_def s1_def s0_def)
qed

end
