(* ===== verification/RefParse.thy ===== *)
theory RefParse
  imports Jsonp
begin

text \<open>
  The reader of the training file (\<open>cmd/buildindex/main.go\<close>): \<open>parseAll\<close> and its helpers. As in
  \<open>Jsonp\<close> the index into the buffer is the rest of the buffer. An index past the end of the
  buffer is the empty rest; the one place where this matters, the slice expression of
  \<open>parseLabel\<close> behind the end, is allowed when the buffer has spare capacity (\<open>slack\<close>), which
  the buffer returned by \<open>os.ReadFile\<close> always has.

  \<open>fmt.Sscanf(s, "%g", &f)\<close> is modelled on tokens of digits, signs, dots and exponent letters. Its
  other spellings (NaN, infinities, hexadecimal digits, underscores, binary exponents) and its
  errors on other characters are the parameter \<open>other\<close>, about which nothing is assumed.
\<close>

section \<open>The code\<close>

definition isSpace :: "char \<Rightarrow> bool" where
  "isSpace c \<longleftrightarrow> c = CHR '' '' \<or> c = CHR 0x09 \<or> c = CHR 0x0D \<or> c = CHR 0x0A"

definition isSep :: "char \<Rightarrow> bool" where
  "isSep c \<longleftrightarrow> isSpace c \<or> c = CHR '',''"

definition decimalChar :: "char \<Rightarrow> bool" where
  "decimalChar c \<longleftrightarrow> isDigit c \<or> isSign c \<or> c = CHR ''.'' \<or> c = CHR ''e'' \<or> c = CHR ''E''"

text \<open>The characters the scanner accepts: a sign, digits, a dot and digits, an exponent letter, a
  sign, digits. The rest of the token stays unread.\<close>

definition floatToken :: "bytes \<Rightarrow> bytes" where
  "floatToken s =
     (let (sg, s1) = (if s \<noteq> [] \<and> isSign (hd s) then ([hd s], tl s) else ([], s));
          ip = takeWhile isDigit s1; s2 = dropWhile isDigit s1;
          (fp, s3) = (if s2 \<noteq> [] \<and> hd s2 = CHR ''.''
                      then (CHR ''.'' # takeWhile isDigit (tl s2), dropWhile isDigit (tl s2)) else ([], s2));
          ex = (if s3 \<noteq> [] \<and> (hd s3 = CHR ''e'' \<or> hd s3 = CHR ''E'')
                then hd s3 # (let t = tl s3 in if t \<noteq> [] \<and> isSign (hd t)
                                               then hd t # takeWhile isDigit (tl t) else takeWhile isDigit t)
                else [])
      in sg @ ip @ fp @ ex)"

definition Sscanf_g :: "(bytes \<Rightarrow> fl option) \<Rightarrow> bytes \<Rightarrow> fl option" where
  "Sscanf_g other s = (if list_all decimalChar s then ParseFloat round64 (floatToken s) else other s)"

definition parseFloatBytes :: "(bytes \<Rightarrow> fl option) \<Rightarrow> bytes \<Rightarrow> fl option" where
  "parseFloatBytes other b = map_option (fl_map round32) (Sscanf_g other b)"

definition isStop :: "char \<Rightarrow> bool" where
  "isStop c \<longleftrightarrow> c = CHR '','' \<or> c = CHR '']'' \<or> isSpace c"

text \<open>The loop of \<open>parseVector\<close>: \<^const>\<open>None\<close> is the panic of \<open>buf[*i]\<close> at the end of the buffer,
  \<^term>\<open>Inl ()\<close> a number that cannot be read.\<close>

fun vecLoop :: "(bytes \<Rightarrow> fl option) \<Rightarrow> nat \<Rightarrow> nat \<Rightarrow> bytes \<Rightarrow> fl list \<Rightarrow> (unit + (fl list \<times> bytes)) option" where
  "vecLoop other 0 k s out = Some (Inr (out, s))"
| "vecLoop other (Suc n) k s out =
     (if s = [] then Some (Inr (out, s))
      else case dropWhile isSep s of
          [] \<Rightarrow> None
        | c # r \<Rightarrow>
            if c = CHR '']'' then Some (Inr (out, c # r))
            else (case parseFloatBytes other (takeWhile (\<lambda>c. \<not> isStop c) (c # r)) of
                     None \<Rightarrow> Some (Inl ())
                   | Some f \<Rightarrow> vecLoop other n (k + 1) (dropWhile (\<lambda>c. \<not> isStop c) (c # r)) (out[k := f])))"

definition parseVector :: "(bytes \<Rightarrow> fl option) \<Rightarrow> bytes \<Rightarrow> fl list \<Rightarrow> (unit + (fl list \<times> bytes)) option" where
  "parseVector other s out =
     (case dropWhile (\<lambda>c. c \<noteq> CHR ''['') s of
        [] \<Rightarrow> Some (Inl ())
      | _ # r \<Rightarrow>
          (case vecLoop other 14 0 r out of
             Some (Inr (out', r')) \<Rightarrow> Some (Inr (out', drop 1 (dropWhile (\<lambda>c. c \<noteq> CHR '']'') r')))
           | x \<Rightarrow> x))"

definition parseLabel :: "bool \<Rightarrow> bytes \<Rightarrow> (nat \<times> bytes) option" where
  "parseLabel slack s =
     (case dropWhile (\<lambda>c. c \<noteq> CHR 0x22) s of
        [] \<Rightarrow> if slack then Some (0, []) else None
      | _ # r \<Rightarrow> Some (if takeWhile (\<lambda>c. c \<noteq> CHR 0x22) r = ''fraud'' then 1 else 0,
                       drop 1 (dropWhile (\<lambda>c. c \<noteq> CHR 0x22) r)))"

definition skipValue :: "bytes \<Rightarrow> bytes" where
  "skipValue s =
     (case dropWhile isSpace s of
        [] \<Rightarrow> []
      | c # r \<Rightarrow>
          if c = CHR 0x22 then drop 1 (dropWhile (\<lambda>x. x \<noteq> CHR 0x22) r)
          else if c = CHR ''{'' \<or> c = CHR ''['' then skipNest c (if c = CHR ''['' then CHR '']'' else CHR ''}'') 1 r
          else dropWhile (\<lambda>x. x \<noteq> CHR '','' \<and> x \<noteq> CHR ''}'' \<and> x \<noteq> CHR '']'') (c # r))"

record entry =
  eVec :: "fl list"
  eLab :: nat
  gotV :: bool
  gotL :: bool

text \<open>The switch over a key.\<close>

definition entryField :: "bool \<Rightarrow> (bytes \<Rightarrow> fl option) \<Rightarrow> bytes \<Rightarrow> bytes \<Rightarrow> entry \<Rightarrow> (unit + (entry \<times> bytes)) option" where
  "entryField slack other key s e =
     (if key = ''vector'' then
        (case parseVector other s (eVec e) of
           None \<Rightarrow> None
         | Some (Inl u) \<Rightarrow> Some (Inl u)
         | Some (Inr (v, r)) \<Rightarrow> Some (Inr (e\<lparr>eVec := v, gotV := True\<rparr>, r)))
      else if key = ''label'' then
        (case parseLabel slack s of
           None \<Rightarrow> None
         | Some (l, r) \<Rightarrow> Some (Inr (e\<lparr>eLab := l, gotL := True\<rparr>, r)))
      else Some (Inr (e, skipValue s)))"

lemma skipNest_length: "length (skipNest c d n s) \<le> length s"
  by (induction s arbitrary: n) (simp_all add: le_SucI)

lemma vecLoop_length: "vecLoop other n k s out = Some (Inr (out', s')) \<Longrightarrow> length s' \<le> length s"
proof (induction n arbitrary: k s out)
  case (Suc n)
  show ?case
  proof (cases "s = [] \<or> dropWhile isSep s = []")
    case False
    then obtain c r where d: "dropWhile isSep s = c # r" "s \<noteq> []" by (cases "dropWhile isSep s") auto
    have l: "length (c # r) \<le> length s" using length_dropWhile_le [of isSep s] d by simp
    show ?thesis
    proof (cases "c = CHR '']''")
      case False
      then obtain f where "vecLoop other n (k + 1) (dropWhile (\<lambda>c. \<not> isStop c) (c # r)) (out[k := f]) = Some (Inr (out', s'))"
        using Suc.prems d by (auto simp del: dropWhile.simps takeWhile.simps split: option.splits)
      from Suc.IH [OF this] show ?thesis using l length_dropWhile_le [of "\<lambda>c. \<not> isStop c" "c # r"] by linarith
    qed (use Suc.prems d l in auto)
  qed (use Suc.prems in \<open>auto split: if_splits simp del: dropWhile_eq_Nil_conv\<close>)
qed simp

lemma parseVector_length: "parseVector other s out = Some (Inr (out', s')) \<Longrightarrow> length s' \<le> length s"
proof -
  assume p: "parseVector other s out = Some (Inr (out', s'))"
  obtain c r where d: "dropWhile (\<lambda>c. c \<noteq> CHR ''['') s = c # r"
    using p by (cases "dropWhile (\<lambda>c. c \<noteq> CHR ''['') s") (auto simp: parseVector_def)
  obtain r' where v: "vecLoop other 14 0 r out = Some (Inr (out', r'))" and s': "s' = drop 1 (dropWhile (\<lambda>c. c \<noteq> CHR '']'') r')"
    using p d by (auto simp: parseVector_def split: option.splits sum.splits)
  have "length s' \<le> length r'" unfolding s' using length_dropWhile_le [of "\<lambda>c. c \<noteq> CHR '']''" r'] by simp
  also have "\<dots> \<le> length r" by (rule vecLoop_length [OF v])
  also have "\<dots> \<le> length s" using length_dropWhile_le [of "\<lambda>c. c \<noteq> CHR ''[''" s] d by simp
  finally show ?thesis .
qed

lemma parseLabel_length: "parseLabel slack s = Some (l, s') \<Longrightarrow> length s' \<le> length s"
proof -
  assume p: "parseLabel slack s = Some (l, s')"
  show ?thesis
  proof (cases "dropWhile (\<lambda>c. c \<noteq> CHR 0x22) s")
    case (Cons c r)
    have "length (c # r) \<le> length s" using length_dropWhile_le [of "\<lambda>c. c \<noteq> CHR 0x22" s] Cons by simp
    moreover have "length (dropWhile (\<lambda>c. c \<noteq> CHR 0x22) r) \<le> length r" by (rule length_dropWhile_le)
    ultimately show ?thesis using p unfolding parseLabel_def Cons by (auto simp del: dropWhile.simps)
  next
    case Nil
    show ?thesis using p unfolding parseLabel_def Nil by (simp split: if_splits)
  qed
qed

lemma skipValue_length: "length (skipValue s) \<le> length s"
proof (cases "dropWhile isSpace s")
  case (Cons c r)
  have l: "length (c # r) \<le> length s" using length_dropWhile_le [of isSpace s] Cons by simp
  have "length (dropWhile P r) \<le> length r" "length (skipNest c d n r) \<le> length r" for P d n
    by (rule length_dropWhile_le, rule skipNest_length)
  then have "length (skipValue s) \<le> length (c # r)"
    unfolding skipValue_def Cons by (auto simp: le_SucI le_diff_conv)
  then show ?thesis using l by simp
next
  case Nil
  show ?thesis unfolding skipValue_def Nil by simp
qed

lemma entryField_length: "entryField slack other key s e = Some (Inr (e', s')) \<Longrightarrow> length s' \<le> length s"
  using skipValue_length [of s] parseVector_length parseLabel_length
  by (auto simp: entryField_def split: if_splits option.splits sum.splits)

text \<open>The loop over the fields of an object, up to its closing brace or the end of the buffer.\<close>

function objLoop :: "bool \<Rightarrow> (bytes \<Rightarrow> fl option) \<Rightarrow> bytes \<Rightarrow> entry \<Rightarrow> (unit + (entry \<times> bytes)) option" where
  "objLoop slack other s e =
     (if s = [] \<or> hd s = CHR ''}'' then Some (Inr (e, s))
      else case dropWhile isSep s of
          [] \<Rightarrow> Some (Inr (e, []))
        | c # r \<Rightarrow>
            if c = CHR ''}'' then Some (Inr (e, c # r))
            else if c \<noteq> CHR 0x22 then objLoop slack other r e
            else let key = takeWhile (\<lambda>c. c \<noteq> CHR 0x22) r;
                     r1 = drop 1 (dropWhile (\<lambda>c. c \<noteq> CHR 0x22) r);
                     r2 = dropWhile (\<lambda>c. isSpace c \<or> c = CHR '':'') r1
                 in case entryField slack other key r2 e of
                     None \<Rightarrow> None
                   | Some (Inl u) \<Rightarrow> Some (Inl u)
                   | Some (Inr (e', r3)) \<Rightarrow> objLoop slack other r3 e')"
  by pat_completeness auto

lemma key_rest_length:
  "length (dropWhile P (drop 1 (dropWhile Q r))) \<le> length r"
  using length_dropWhile_le [of P "drop 1 (dropWhile Q r)"] length_dropWhile_le [of Q r] by simp

lemma after_sep_less: "dropWhile isSep s = c # r \<Longrightarrow> length r < length s"
  using length_dropWhile_le [of isSep s] by simp

termination objLoop
proof (relation "measure (\<lambda>(slack, other, s, e). length s)")
  fix slack other s e c r key r1 r2 x y z e' r3
  assume a: "dropWhile isSep s = c # r" and k: "r1 = drop 1 (dropWhile (\<lambda>c. c \<noteq> CHR 0x22) r)"
    "r2 = dropWhile (\<lambda>c. isSpace c \<or> c = CHR '':'') r1" "entryField slack other key r2 e = Some x" "x = Inr z" "(e', r3) = z"
  have "length r3 \<le> length r2" using entryField_length k(3-5) by metis
  also have "\<dots> \<le> length r" unfolding k(1,2) by (rule key_rest_length)
  also have "\<dots> < length s" by (rule after_sep_less [OF a])
  finally show "((slack, other, r3, e'), slack, other, s, e) \<in> measure (\<lambda>(slack, other, s, e). length s)" by simp
qed (auto dest: after_sep_less)

declare objLoop.simps [simp del]

lemma objLoop_length: "objLoop slack other s e = Some (Inr (e', s')) \<Longrightarrow> length s' \<le> length s"
proof (induction slack other s e rule: objLoop.induct)
  case (1 slack other s e)
  note run = 1(3) [unfolded objLoop.simps [of slack other s e]]
  show ?case
  proof (cases "dropWhile isSep s")
    case (Cons c r)
    note l = after_sep_less [OF Cons]
    show ?thesis
    proof (cases "s = [] \<or> hd s = CHR ''}'' \<or> c = CHR ''}'' \<or> c \<noteq> CHR 0x22")
      case True
      then show ?thesis using 1(1) run Cons l by (auto intro: length_dropWhile_le split: if_splits)
    next
      case False
      let ?r2 = "dropWhile (\<lambda>c. isSpace c \<or> c = CHR '':'') (drop 1 (dropWhile (\<lambda>c. c \<noteq> CHR 0x22) r))"
      obtain e1 r3 where f: "entryField slack other (takeWhile (\<lambda>c. c \<noteq> CHR 0x22) r) ?r2 e = Some (Inr (e1, r3))"
          "objLoop slack other r3 e1 = Some (Inr (e', s'))"
        using run False Cons by (auto simp: Let_def split: option.splits sum.splits)
      have "length s' \<le> length r3"
        using 1(2) [of c r] False Cons f by simp
      also have "\<dots> \<le> length ?r2" by (rule entryField_length [OF f(1)])
      also have "\<dots> \<le> length r" by (rule key_rest_length)
      finally show ?thesis using l by simp
    qed
  next
    case Nil
    show ?thesis using run Nil by (auto split: if_splits simp del: dropWhile_eq_Nil_conv)
  qed
qed

definition entry0 :: entry where
  "entry0 = \<lparr>eVec = replicate 14 (Fin 0), eLab = 0, gotV = False, gotL = False\<rparr>"

text \<open>The loop over the objects of the array. A number that cannot be read makes the whole result empty.\<close>

function rowLoop ::
  "bool \<Rightarrow> (bytes \<Rightarrow> fl option) \<Rightarrow> bytes \<Rightarrow> fl list list \<Rightarrow> nat list \<Rightarrow> (fl list list \<times> nat list) option" where
  "rowLoop slack other s vecs labels =
     (if s = [] then Some (vecs, labels)
      else case dropWhile isSpace s of
          [] \<Rightarrow> Some (vecs, labels)
        | c # r \<Rightarrow>
            if c = CHR '']'' then Some (vecs, labels)
            else if c \<noteq> CHR ''{'' then rowLoop slack other r vecs labels
            else (case objLoop slack other r entry0 of
                    None \<Rightarrow> None
                  | Some (Inl u) \<Rightarrow> Some ([], [])
                  | Some (Inr (e, r1)) \<Rightarrow>
                      let r2 = dropWhile isSep (drop 1 r1)
                      in if gotV e \<and> gotL e then rowLoop slack other r2 (vecs @ [eVec e]) (labels @ [eLab e])
                         else rowLoop slack other r2 vecs labels))"
  by pat_completeness auto

lemma after_space_less: "dropWhile isSpace s = c # r \<Longrightarrow> length r < length s"
  using length_dropWhile_le [of isSpace s] by simp

lemma next_row_less:
  assumes "dropWhile isSpace s = c # r" "objLoop slack other r e = Some (Inr (e', r1))"
  shows "length (dropWhile isSep (drop 1 r1)) < length s"
proof -
  have "length (dropWhile isSep (drop 1 r1)) \<le> length r1"
    using length_dropWhile_le [of isSep "drop 1 r1"] by simp
  also have "\<dots> \<le> length r" by (rule objLoop_length [OF assms(2)])
  also have "\<dots> < length s" by (rule after_space_less [OF assms(1)])
  finally show ?thesis .
qed

termination rowLoop
  by (relation "measure (\<lambda>(slack, other, s, vecs, labels). length s)")
    (auto dest: after_space_less next_row_less)

declare rowLoop.simps [simp del]

definition parseAll :: "bool \<Rightarrow> (bytes \<Rightarrow> fl option) \<Rightarrow> bytes \<Rightarrow> (fl list list \<times> nat list) option" where
  "parseAll slack other buf =
     (case dropWhile (\<lambda>c. c \<noteq> CHR ''['') buf of
        [] \<Rightarrow> Some ([], [])
      | _ # r \<Rightarrow> rowLoop slack other r [] [])"

section \<open>The shape of the result\<close>

definition entry_ok :: "entry \<Rightarrow> bool" where
  "entry_ok e \<longleftrightarrow> length (eVec e) = 14 \<and> eLab e \<le> 1"

lemma vecLoop_out: "vecLoop other n k s out = Some (Inr (out', s')) \<Longrightarrow> length out' = length out"
proof (induction n arbitrary: k s out)
  case (Suc n)
  show ?case using Suc.prems
    by (auto simp del: dropWhile.simps takeWhile.simps split: if_splits list.splits option.splits dest!: Suc.IH)
qed simp

lemma entryField_ok:
  assumes "entryField slack other key s e = Some (Inr (e', s'))" "entry_ok e"
  shows "entry_ok e'"
proof -
  have "length v = 14" if "parseVector other s (eVec e) = Some (Inr (v, r))" for v r
    using that vecLoop_out assms(2) by (auto simp: parseVector_def entry_ok_def split: list.splits option.splits sum.splits)
  moreover have "l \<le> 1" if "parseLabel slack s = Some (l, r)" for l r
    using that by (auto simp: parseLabel_def split: list.splits if_splits)
  ultimately show ?thesis using assms by (auto simp: entryField_def entry_ok_def split: if_splits option.splits sum.splits)
qed

lemma objLoop_ok: "objLoop slack other s e = Some (Inr (e', s')) \<Longrightarrow> entry_ok e \<Longrightarrow> entry_ok e'"
proof (induction slack other s e rule: objLoop.induct)
  case (1 slack other s e)
  note run = 1(3) [unfolded objLoop.simps [of slack other s e]]
  show ?case
  proof (cases "dropWhile isSep s")
    case (Cons c r)
    show ?thesis
    proof (cases "s = [] \<or> hd s = CHR ''}'' \<or> c = CHR ''}'' \<or> c \<noteq> CHR 0x22")
      case True
      then show ?thesis using 1(1,4) run Cons by (auto split: if_splits)
    next
      case False
      let ?r2 = "dropWhile (\<lambda>c. isSpace c \<or> c = CHR '':'') (drop 1 (dropWhile (\<lambda>c. c \<noteq> CHR 0x22) r))"
      obtain e1 r3 where f: "entryField slack other (takeWhile (\<lambda>c. c \<noteq> CHR 0x22) r) ?r2 e = Some (Inr (e1, r3))"
          "objLoop slack other r3 e1 = Some (Inr (e', s'))"
        using run False Cons by (auto simp: Let_def split: option.splits sum.splits)
      show ?thesis using 1(2) [of c r] False Cons f entryField_ok [OF f(1) 1(4)] by simp
    qed
  next
    case Nil
    show ?thesis using run 1(4) Nil by (auto split: if_splits simp del: dropWhile_eq_Nil_conv)
  qed
qed

definition refs_ok :: "fl list list \<Rightarrow> nat list \<Rightarrow> bool" where
  "refs_ok vecs labels \<longleftrightarrow> length labels = length vecs \<and> (\<forall>v \<in> set vecs. length v = 14) \<and> (\<forall>l \<in> set labels. l \<le> 1)"

lemma rowLoop_ok: "rowLoop slack other s vecs labels = Some (vs, ls) \<Longrightarrow> refs_ok vecs labels \<Longrightarrow> refs_ok vs ls"
proof (induction slack other s vecs labels rule: rowLoop.induct)
  case (1 slack other s vecs labels)
  note run = 1(4) [unfolded rowLoop.simps [of slack other s]]
  show ?case
  proof (cases "s = [] \<or> dropWhile isSpace s = []")
    case False
    then obtain c r where d: "dropWhile isSpace s = c # r" "s \<noteq> []" by (cases "dropWhile isSpace s") auto
    show ?thesis
    proof (cases "c = CHR ''{''")
      case True
      have "entry_ok entry0" by (simp add: entry_ok_def entry0_def)
      then have ok: "entry_ok e" if "objLoop slack other r entry0 = Some (Inr (e, r1))" for e r1
        using objLoop_ok that by blast
      consider "objLoop slack other r entry0 = None" | u where "objLoop slack other r entry0 = Some (Inl u)"
        | e r1 where "objLoop slack other r entry0 = Some (Inr (e, r1))"
        by (metis not_None_eq sum.exhaust surj_pair)
      then show ?thesis
      proof cases
        case (3 e r1)
        then have "refs_ok (vecs @ [eVec e]) (labels @ [eLab e])"
          using ok 1(5) by (auto simp: refs_ok_def entry_ok_def)
        then show ?thesis using run d True 1(2,3) [OF _ d(1)] 3 1(5)
          by (cases "gotV e \<and> gotL e") (simp_all add: Let_def)
      qed (use run d True in \<open>simp_all add: refs_ok_def\<close>)
    next
      case False
      then show ?thesis using run d 1(1,5) by (auto split: if_splits)
    qed
  qed (use run 1(5) in \<open>auto split: if_splits simp del: dropWhile_eq_Nil_conv\<close>)
qed

lemma parseAll_ok: "parseAll slack other buf = Some (vs, ls) \<Longrightarrow> refs_ok vs ls"
  by (auto simp: parseAll_def refs_ok_def [of "[]" "[]"] split: list.splits intro: rowLoop_ok)

section \<open>Reading back a printed training file\<close>

definition numeral_ok :: "bytes \<Rightarrow> bool" where
  "numeral_ok t \<longleftrightarrow> t \<noteq> [] \<and> list_all decimalChar t \<and> ParseFloat round64 (floatToken t) \<noteq> None"

definition numeral_val :: "bytes \<Rightarrow> fl" where
  "numeral_val t = fl_map round32 (the (ParseFloat round64 (floatToken t)))"

definition row_text :: "bytes list \<times> bool \<Rightarrow> bytes" where
  "row_text e = braces [field ''vector'' (CHR ''['' # join (fst e) @ '']''),
     field ''label'' (quote (if snd e then ''fraud'' else ''legit''))]"

definition file_text :: "(bytes list \<times> bool) list \<Rightarrow> bytes" where
  "file_text es = CHR ''['' # join (map row_text es) @ '']''"

definition row_ok :: "bytes list \<times> bool \<Rightarrow> bool" where
  "row_ok e \<longleftrightarrow> length (fst e) = 14 \<and> list_all numeral_ok (fst e)"

lemma numeral_parse: "numeral_ok t \<Longrightarrow> parseFloatBytes other t = Some (numeral_val t)"
  by (auto simp: numeral_ok_def numeral_val_def parseFloatBytes_def Sscanf_g_def)

lemma decimal_not_stop: "decimalChar c \<Longrightarrow> \<not> isStop c \<and> \<not> isSep c \<and> c \<noteq> CHR '']''"
  by (auto simp: decimalChar_def isStop_def isSep_def isSpace_def isDigit_def isSign_def)

lemma vecLoop_step:
  assumes "numeral_ok t" "pre = [] \<or> pre = [CHR '','']" "u \<noteq> []" "isStop (hd u)"
  shows "vecLoop other (Suc n) k (pre @ t @ u) out = vecLoop other n (k + 1) u (out[k := numeral_val t])"
proof -
  obtain c t' where t: "t = c # t'" using assms(1) by (cases t) (auto simp: numeral_ok_def)
  have c: "\<forall>x \<in> set t. \<not> isStop x \<and> \<not> isSep x \<and> x \<noteq> CHR '']''"
    using assms(1) decimal_not_stop by (auto simp: numeral_ok_def list_all_iff)
  have u: "takeWhile (\<lambda>c. \<not> isStop c) u = []" "dropWhile (\<lambda>c. \<not> isStop c) u = u" using assms(3,4) by (cases u; simp)+
  have "isSep (CHR '','')" "\<not> isSep c" using c by (simp_all add: isSep_def t)
  then have d: "dropWhile isSep (pre @ t @ u) = t @ u" using assms(2) by (elim disjE) (simp_all add: t)
  have "takeWhile (\<lambda>c. \<not> isStop c) (t @ u) = t" "dropWhile (\<lambda>c. \<not> isStop c) (t @ u) = u"
    using c u by (simp_all add: takeWhile_append dropWhile_append)
  then show ?thesis using d numeral_parse [OF assms(1), of other] c
    by (simp add: t del: takeWhile.simps dropWhile.simps)
qed

lemma join_Cons: "join (x # xs) = x @ concat (map (\<lambda>y. CHR '','' # y) xs)"
  by (induction xs arbitrary: x) simp_all

lemma commas_stop: "isStop (hd (concat (map (\<lambda>y. CHR '','' # y) ts) @ CHR '']'' # r))"
  by (cases ts) (simp_all add: isStop_def)

lemma vecLoop_more:
  "list_all numeral_ok ts \<Longrightarrow> k + length ts \<le> length out \<Longrightarrow>
   vecLoop other (length ts) k (concat (map (\<lambda>y. CHR '','' # y) ts) @ CHR '']'' # r) out =
     Some (Inr (take k out @ map numeral_val ts @ drop (k + length ts) out, CHR '']'' # r))"
proof (induction ts arbitrary: k out)
  case (Cons t ts)
  let ?u = "concat (map (\<lambda>y. CHR '','' # y) ts) @ CHR '']'' # r"
  have "vecLoop other (length (t # ts)) k (concat (map (\<lambda>y. CHR '','' # y) (t # ts)) @ CHR '']'' # r) out
      = vecLoop other (length ts) (k + 1) ?u (out[k := numeral_val t])"
    using vecLoop_step [of t "[CHR '','']" ?u other "length ts" k out] Cons.prems(1) commas_stop by simp
  also have "\<dots> = Some (Inr (take (k + 1) (out[k := numeral_val t]) @ map numeral_val ts
      @ drop (k + 1 + length ts) (out[k := numeral_val t]), CHR '']'' # r))"
    using Cons by simp
  also have "take (k + 1) (out[k := numeral_val t]) = take k out @ [numeral_val t]"
    using Cons.prems(2) by (simp add: take_Suc_conv_app_nth)
  finally show ?case by simp
qed simp

lemma parseVector_row:
  assumes "length ts = 14" "list_all numeral_ok ts" "length out = 14"
  shows "parseVector other (CHR ''['' # join ts @ CHR '']'' # r) out = Some (Inr (map numeral_val ts, r))"
proof -
  obtain t ts' where ts: "ts = t # ts'" "length ts' = 13" using assms(1) by (cases ts) auto
  let ?u = "concat (map (\<lambda>y. CHR '','' # y) ts') @ CHR '']'' # r"
  have "vecLoop other (Suc (length ts')) 0 ([] @ t @ ?u) out = vecLoop other (length ts') (0 + 1) ?u (out[0 := numeral_val t])"
    using assms(2) commas_stop by (intro vecLoop_step) (simp_all add: ts)
  also have "\<dots> = Some (Inr (map numeral_val ts, CHR '']'' # r))"
    using vecLoop_more [of ts' 1 "out[0 := numeral_val t]" other r] assms ts by (cases out) simp_all
  finally have "vecLoop other 14 0 (join ts @ CHR '']'' # r) out = Some (Inr (map numeral_val ts, CHR '']'' # r))"
    using ts by (simp add: join_Cons del: vecLoop.simps)
  then show ?thesis by (simp add: parseVector_def del: vecLoop.simps)
qed

lemma parseLabel_quote: "parseLabel slack (quote (if b then ''fraud'' else ''legit'') @ r) = Some (if b then 1 else 0, r)"
  by (cases b) (simp_all add: parseLabel_def quote_def)

lemma objLoop_field:
  assumes "CHR 0x22 \<notin> set key" "t \<noteq> []" "\<not> isSpace (hd t)" "hd t \<noteq> CHR '':''" "pre = [] \<or> pre = [CHR '','']"
  shows "objLoop slack other (pre @ field key t @ r) e =
    (case entryField slack other key (t @ r) e of
       None \<Rightarrow> None | Some (Inl u) \<Rightarrow> Some (Inl u) | Some (Inr (e', r3)) \<Rightarrow> objLoop slack other r3 e')"
proof -
  have k: "takeWhile (\<lambda>c. c \<noteq> CHR 0x22) (key @ CHR 0x22 # u) = key"
      "dropWhile (\<lambda>c. c \<noteq> CHR 0x22) (key @ CHR 0x22 # u) = CHR 0x22 # u" for u
    using assms(1) by (auto simp: takeWhile_append dropWhile_append)
  have t: "dropWhile (\<lambda>c. isSpace c \<or> c = CHR '':'') (t @ r) = t @ r"
    using assms(2-4) by (cases t) simp_all
  have f: "field key t @ r = CHR 0x22 # key @ CHR 0x22 # CHR '':'' # t @ r" by (simp add: field_def quote_def)
  have q: "isSep (CHR '','')" "\<not> isSep (CHR 0x22)" by (simp_all add: isSep_def isSpace_def)
  then have d: "dropWhile isSep (pre @ field key t @ r) = field key t @ r" using assms(5) by (elim disjE) (simp_all add: f)
  have "pre @ field key t @ r \<noteq> []" "hd (pre @ field key t @ r) \<noteq> CHR ''}''" using assms(5) by (elim disjE; simp add: f)+
  then show ?thesis
    by (simp only: objLoop.simps [of slack other "pre @ field key t @ r"] d) (simp add: f k t)
qed

lemma objLoop_row:
  assumes "row_ok e"
  shows "objLoop slack other (tl (row_text e) @ r) entry0 =
    Some (Inr (\<lparr>eVec = map numeral_val (fst e), eLab = (if snd e then 1 else 0), gotV = True, gotL = True\<rparr>, CHR ''}'' # r))"
proof -
  let ?v = "CHR ''['' # join (fst e) @ '']''" and ?l = "quote (if snd e then ''fraud'' else ''legit'')"
  have "tl (row_text e) @ r = [] @ field ''vector'' ?v @ [CHR '',''] @ field ''label'' ?l @ CHR ''}'' # r"
    by (simp add: row_text_def braces_def)
  moreover have "objLoop slack other ([] @ field ''vector'' ?v @ [CHR '',''] @ field ''label'' ?l @ CHR ''}'' # r) entry0 =
      objLoop slack other ([CHR '',''] @ field ''label'' ?l @ CHR ''}'' # r) (entry0\<lparr>eVec := map numeral_val (fst e), gotV := True\<rparr>)"
    using assms parseVector_row [of "fst e" "eVec entry0" other "[CHR '',''] @ field ''label'' ?l @ CHR ''}'' # r"]
    by (subst objLoop_field) (simp_all add: isSpace_def entryField_def row_ok_def entry0_def)
  moreover have "objLoop slack other ([CHR '',''] @ field ''label'' ?l @ CHR ''}'' # r) e1 =
      objLoop slack other (CHR ''}'' # r) (e1\<lparr>eLab := (if snd e then 1 else 0), gotL := True\<rparr>)" for e1
    by (subst objLoop_field) (simp_all add: isSpace_def entryField_def quote_def parseLabel_quote [unfolded quote_def, simplified])
  ultimately show ?thesis by (simp add: objLoop.simps [of slack other "CHR ''}'' # r"] entry0_def)
qed

lemma rowLoop_rows:
  "list_all row_ok es \<Longrightarrow> rowLoop slack other (join (map row_text es) @ CHR '']'' # r) vecs labels =
     Some (vecs @ map (\<lambda>e. map numeral_val (fst e)) es, labels @ map (\<lambda>e. if snd e then 1 else 0) es)"
proof (induction es arbitrary: vecs labels)
  case Nil
  show ?case by (simp add: rowLoop.simps [of slack other "CHR '']'' # r"] isSpace_def)
next
  case (Cons e es)
  define u where "u = concat (map (\<lambda>y. CHR '','' # y) (map row_text es)) @ CHR '']'' # r"
  have row: "row_text x = CHR ''{'' # tl (row_text x)" for x by (simp add: row_text_def braces_def)
  have whole: "join (map row_text (e # es)) @ CHR '']'' # r = CHR ''{'' # tl (row_text e) @ u"
    unfolding u_def using row [of e] by (simp only: list.map join_Cons) (metis append_Cons append_assoc)
  have sep: "\<not> isSpace (CHR ''{'')" "isSep (CHR '','')" "\<not> isSep (CHR ''{'')" "\<not> isSep (CHR '']'')"
    by (simp_all add: isSep_def isSpace_def)
  have next_text: "dropWhile isSep u = join (map row_text es) @ CHR '']'' # r"
  proof (cases es)
    case (Cons e' es')
    then show ?thesis using row [of e'] sep by (simp add: u_def join_Cons del: list.sel) (metis append_Cons dropWhile.simps(2) sep(3))
  qed (use sep in \<open>simp add: u_def\<close>)
  have "objLoop slack other (tl (row_text e) @ u) entry0 = 
      Some (Inr (\<lparr>eVec = map numeral_val (fst e), eLab = (if snd e then 1 else 0), gotV = True, gotL = True\<rparr>, CHR ''}'' # u))"
    using Cons.prems by (intro objLoop_row) simp
  then show ?case unfolding whole using Cons.IH Cons.prems sep(1)
    by (simp add: rowLoop.simps [of slack other "CHR ''{'' # tl (row_text e) @ u"] next_text)
qed

lemma parseAll_text:
  "list_all row_ok es \<Longrightarrow> parseAll slack other (file_text es) =
     Some (map (\<lambda>e. map numeral_val (fst e)) es, map (\<lambda>e. if snd e then 1 else 0) es)"
  using rowLoop_rows [of es slack other "[]" "[]" "[]"] by (simp add: parseAll_def file_text_def)

section \<open>Properties\<close>

text \<open>(C20) Reading back a printed training file: for any entries of fourteen decimal numbers and a label,
  \<open>parseAll\<close> returns the numbers, rounded to 64 and then to 32 bits, and one label per entry, in
  order.\<close>

theorem parseAll_render:
  assumes "list_all row_ok es"
  shows "parseAll slack other (file_text es) =
     Some (map (\<lambda>e. map numeral_val (fst e)) es, map (\<lambda>e. if snd e then 1 else 0) es)"
  using assms by (rule parseAll_text)

text \<open>Whatever the text, a result of \<open>parseAll\<close> has one label, zero or one, per vector, and every
  vector has fourteen entries.\<close>

theorem parseAll_shape:
  assumes "parseAll slack other buf = Some (vs, ls)"
  shows "length ls = length vs \<and> (\<forall>v \<in> set vs. length v = 14) \<and> (\<forall>l \<in> set ls. l \<le> 1)"
  using parseAll_ok [OF assms] by (simp add: refs_ok_def)

text \<open>A training file that ends inside a vector, after a separator, makes the reader panic: the
  loop skips the separators and then reads \<open>buf[*i]\<close> without a check.\<close>

theorem parseAll_truncated:
  assumes "numeral_ok t"
  shows "parseAll slack other (''[{'' @ quote ''vector'' @ '':['' @ t @ '','') = None"
proof -
  have "vecLoop other (Suc 13) 0 ([] @ t @ '','') out = vecLoop other (Suc 12) (0 + 1) '','' (out[0 := numeral_val t])" for out
    using vecLoop_step [OF assms, of "[]" "'',''" other 13 0 out] by (simp add: isStop_def)
  moreover have "vecLoop other (Suc 12) (0 + 1) '','' out = None" for out by (simp only: vecLoop.simps) (simp add: isSep_def)
  ultimately have "vecLoop other 14 0 (t @ '','') out = None" for out by (simp del: vecLoop.simps)
  then have "parseVector other (CHR ''['' # t @ '','') out = None" for out by (simp add: parseVector_def)
  then have "objLoop slack other ([] @ field ''vector'' (CHR ''['' # t @ '','') @ []) entry0 = None"
    by (subst objLoop_field) (simp_all add: isSpace_def entryField_def)
  then have "rowLoop slack other (CHR ''{'' # field ''vector'' (CHR ''['' # t @ '','')) [] [] = None"
    by (subst rowLoop.simps) (simp add: isSpace_def)
  then show ?thesis by (simp add: parseAll_def field_def quote_def)
qed

section \<open>Witnesses\<close>

lemma numeral_one: "numeral_ok ''1''" "numeral_val ''1'' = Fin 1"
proof -
  have "ulpExp 53 (- 1022) 1 \<le> 0" using ulpExp_le [of 1 52 "- 1022" 53] by simp
  then have "roundVal 53 (- 1022) 1 = 1" by (rule roundVal_exact [where m = 1]) simp
  then have "round64 1 = Fin 1" using round64_Fin [of 1] by simp
  then have p: "ParseFloat round64 (floatToken ''1'') = Some (Fin 1)"
    by (simp add: floatToken_def ParseFloat_def isSign_def isDigit_def parseExp_def digitsVal_def byte_sub_def)
  then show "numeral_ok ''1''" by (simp add: numeral_ok_def decimalChar_def isDigit_def)
  show "numeral_val ''1'' = Fin 1" using round32_int [of 1] by (simp add: numeral_val_def p)
qed

definition row_one :: "bytes list \<times> bool" where
  "row_one = (replicate 14 ''1'', True)"

lemma row_one_ok: "row_ok row_one"
  by (simp add: row_ok_def row_one_def numeral_one list_all_iff)

theorem parseAll_render_witness:
  "parseAll True (\<lambda>t. None) (file_text [row_one]) = Some ([replicate 14 (Fin 1)], [1])"
  using parseAll_render [of "[row_one]" True "\<lambda>t. None"] row_one_ok by (simp add: row_one_def numeral_one)

theorem parseAll_shape_witness:
  "length ([1]::nat list) = length [replicate 14 (Fin 1)] \<and> (\<forall>v \<in> set [replicate 14 (Fin 1)]. length v = 14) \<and>
    (\<forall>l \<in> set [1]. l \<le> (1::nat))"
proof -
  have "parseAll True (\<lambda>t. None) (file_text [row_one]) = Some ([replicate 14 (Fin 1)], [1])"
    using parseAll_text [of "[row_one]" True "\<lambda>t. None"] row_one_ok by (simp add: row_one_def numeral_one)
  from parseAll_shape [OF this] show ?thesis .
qed

theorem parseAll_truncated_witness:
  "parseAll True (\<lambda>t. None) (''[{'' @ quote ''vector'' @ '':['' @ ''1'' @ '','') = None"
  using parseAll_truncated [OF numeral_one(1)] by blast

end
