(* ===== verification/Index_File.thy ===== *)
theory Index_File
  imports Quantize Index
begin

text \<open>
  The writer of the index file (\<open>cmd/buildindex/main.go\<close>, the end of \<open>main\<close>, \<open>writeI16\<close>,
  \<open>writeU32\<close>), and that \<open>Open\<close> of package \<open>index\<close> reads back what it writes. A write that
  fails ends the program; the model is the file that results when all of them succeed.
\<close>

section \<open>The code\<close>

abbreviation (input) "K \<equiv> 4096 :: nat"

definition PutUint16 :: "int \<Rightarrow> nat list" where
  "PutUint16 v = [nat (v mod 256), nat (v div 256 mod 256)]"

definition PutUint32 :: "nat \<Rightarrow> nat list" where
  "PutUint32 v = [v mod 256, v div 256 mod 256, v div 65536 mod 256, v div 16777216 mod 256]"

definition writeI16 :: "int list \<Rightarrow> nat list" where
  "writeI16 vs = concat (map PutUint16 vs)"

definition writeU32 :: "nat list \<Rightarrow> nat list" where
  "writeU32 vs = concat (map PutUint32 vs)"

text \<open>The tables of the program at the time of writing; the bits of the \<open>float32\<close> 10000.\<close>

record tables =
  tN :: nat
  tBlocks :: nat
  tCentroids :: "int list"
  tMin :: "int list list"
  tMax :: "int list list"
  tOffsets :: "nat list"
  tCounts :: "nat list"
  tCodes :: "int list"
  tLabels :: "nat list"

definition scaleBits :: nat where
  "scaleBits = 0x461C4000"

definition headerBytes :: "tables \<Rightarrow> nat list" where
  "headerBytes t =
     PutUint32 Magic @ PutUint32 Version @ PutUint32 K @ PutUint32 (u32 (tN t)) @ PutUint32 (tBlocks t) @
     PutUint32 scaleBits @ replicate 40 0"

definition indexFile :: "tables \<Rightarrow> nat list" where
  "indexFile t =
     headerBytes t @ writeI16 (tCentroids t) @ concat (map writeI16 (tMin t)) @ concat (map writeI16 (tMax t)) @
     writeU32 (tOffsets t) @ writeU32 (tCounts t) @ writeI16 (tCodes t) @ tLabels t"

section \<open>Reading back\<close>

definition i16_ok :: "int list \<Rightarrow> bool" where
  "i16_ok vs \<longleftrightarrow> (\<forall>v \<in> set vs. - 32768 \<le> v \<and> v < 32768)"

lemma le16_Put: "- 32768 \<le> v \<Longrightarrow> v < 32768 \<Longrightarrow> le16 (PutUint16 v) 0 = v"
proof -
  assume v: "- 32768 \<le> v" "v < 32768"
  have "int (nat (v mod 256) + 256 * nat (v div 256 mod 256)) = v mod 256 + 256 * (v div 256 mod 256)"
    by simp
  also have "\<dots> = v mod 65536" using mod_mult2_eq' [of v 256 256] by simp
  finally have "le16 (PutUint16 v) 0 = wrap16 (v mod 65536)" by (simp add: le16_def PutUint16_def)
  also have "\<dots> = wrap16 v"
    unfolding wrap16_def by (simp add: signed_take_bit_eq_iff_take_bit_eq take_bit_eq_mod)
  finally show ?thesis using v by (simp add: wrap16_id)
qed

lemma le32_Put: "v < 2 ^ 32 \<Longrightarrow> le32 (PutUint32 v) 0 = v"
proof -
  assume v: "v < 2 ^ 32"
  have "v div 256 * 256 + v mod 256 = v" by simp
  moreover have "v div 65536 * 256 + v div 256 mod 256 = v div 256"
    using div_mult_mod_eq [of "v div 256" 256] by (simp flip: div_mult2_eq)
  moreover have "v div 16777216 * 256 + v div 65536 mod 256 = v div 65536"
    using div_mult_mod_eq [of "v div 65536" 256] by (simp flip: div_mult2_eq)
  moreover have "v div 16777216 mod 256 = v div 16777216" using v by simp
  ultimately have "v mod 256 + 256 * (v div 256 mod 256) + 65536 * (v div 65536 mod 256) + 16777216 * (v div 16777216 mod 256) = v"
    by linarith
  then show ?thesis using v by (simp add: le32_def PutUint32_def)
qed

lemma length_Put [simp]: "length (PutUint16 v) = 2" "length (PutUint32 n) = 4"
  by (simp_all add: PutUint16_def PutUint32_def)

lemma length_writeI16 [simp]: "length (writeI16 vs) = length vs * 2"
  unfolding writeI16_def by (rule length_concat_chunks) simp

lemma length_writeU32 [simp]: "length (writeU32 vs) = length vs * 4"
  unfolding writeU32_def by (rule length_concat_chunks) simp

lemma i16Slice_write: "i16_ok vs \<Longrightarrow> n = length vs \<Longrightarrow> i16Slice (writeI16 vs @ r) n = vs"
proof (rule nth_equalityI)
  assume vs: "i16_ok vs" "n = length vs"
  then show "length (i16Slice (writeI16 vs @ r) n) = length vs" by simp
  fix i assume "i < length (i16Slice (writeI16 vs @ r) n)"
  then have i: "i < length vs" using vs(2) by simp
  have b: "(writeI16 vs @ r) ! (2 * i + j) = PutUint16 (vs ! i) ! j" if "j < 2" for j
    using nth_concat_chunks [of vs PutUint16 2 i j] i that
    by (simp add: nth_append writeI16_def [symmetric] mult.commute)
  have "le16 (writeI16 vs @ r) (2 * i) = le16 (PutUint16 (vs ! i)) 0"
    using b [of 0] b [of 1] by (simp add: le16_def)
  also have "\<dots> = vs ! i" using vs(1) i by (intro le16_Put) (auto simp: i16_ok_def)
  finally show "i16Slice (writeI16 vs @ r) n ! i = vs ! i" using i vs(2) by (simp add: i16Slice_def)
qed

lemma u32Slice_write: "\<forall>v \<in> set vs. v < 2 ^ 32 \<Longrightarrow> n = length vs \<Longrightarrow> u32Slice (writeU32 vs @ r) n = vs"
proof (rule nth_equalityI)
  assume vs: "\<forall>v \<in> set vs. v < 2 ^ 32" "n = length vs"
  then show "length (u32Slice (writeU32 vs @ r) n) = length vs" by simp
  fix i assume "i < length (u32Slice (writeU32 vs @ r) n)"
  then have i: "i < length vs" using vs(2) by simp
  have b: "(writeU32 vs @ r) ! (4 * i + j) = PutUint32 (vs ! i) ! j" if "j < 4" for j
    using nth_concat_chunks [of vs PutUint32 4 i j] i that
    by (simp add: nth_append writeU32_def [symmetric] mult.commute)
  have "le32 (writeU32 vs @ r) (4 * i) = le32 (PutUint32 (vs ! i)) 0"
    using b [of 0] b [of 1] b [of 2] b [of 3] by (simp add: le32_def numeral_2_eq_2)
  also have "\<dots> = vs ! i" using vs(1) i by (intro le32_Put) simp
  finally show "u32Slice (writeU32 vs @ r) n ! i = vs ! i" using i vs(2) by (simp add: u32Slice_def)
qed

lemma concat_writeI16: "concat (map writeI16 vss) = writeI16 (concat vss)"
  by (induction vss) (simp_all add: writeI16_def)

definition tables_ok :: "tables \<Rightarrow> bool" where
  "tables_ok t \<longleftrightarrow> tN t < 2 ^ 32 \<and> tBlocks t < 2 ^ 32 \<and>
     length (tCentroids t) = 65536 \<and> i16_ok (tCentroids t) \<and>
     length (concat (tMin t)) = K * 16 \<and> i16_ok (concat (tMin t)) \<and>
     length (concat (tMax t)) = K * 16 \<and> i16_ok (concat (tMax t)) \<and>
     length (tOffsets t) = K + 1 \<and> (\<forall>v \<in> set (tOffsets t). v < 2 ^ 32) \<and>
     length (tCounts t) = K \<and> (\<forall>v \<in> set (tCounts t). v < 2 ^ 32) \<and>
     length (tCodes t) = tBlocks t * 128 \<and> i16_ok (tCodes t) \<and> length (tLabels t) = tBlocks t * 8"

definition indexOf :: "nat list \<Rightarrow> tables \<Rightarrow> Index" where
  "indexOf data t =
     \<lparr>mmap = Some data,
      Hdr = \<lparr>hMagic = Magic, hVersion = Version, hK = K, hN = tN t, hNBlocks = tBlocks t, hScale = scaleBits\<rparr>,
      Centroids = tCentroids t, NCentroidBlk = 512, BBoxMin = concat (tMin t), BBoxMax = concat (tMax t),
      BlockOffsets = tOffsets t, Counts = tCounts t, Vectors = tCodes t, Labels = tLabels t,
      IxK = K, IxN = tN t, IxNBlocks = tBlocks t\<rparr>"

lemma le32_append: "i + 3 < length xs \<Longrightarrow> le32 (xs @ ys) i = le32 xs i"
  by (simp add: le32_def nth_append)

lemma le32_skip: "length xs = n \<Longrightarrow> le32 (xs @ ys) (n + i) = le32 ys i"
  by (auto simp: le32_def nth_append ac_simps)

lemma readHeader_file:
  assumes "tables_ok t"
  shows "readHeader (indexFile t) = Hdr (indexOf d t)"
proof -
  define r where "r = drop 24 (indexFile t)"
  have n: "u32 (tN t) = tN t" using assms by (simp add: tables_ok_def u32_id)
  have f: "indexFile t = writeU32 [Magic, Version, K, tN t, tBlocks t, scaleBits] @ r"
    by (simp add: r_def indexFile_def headerBytes_def writeU32_def n PutUint32_def)
  have s: "u32Slice (indexFile t) 6 = [Magic, Version, K, tN t, tBlocks t, scaleBits]"
    unfolding f by (rule u32Slice_write) (use assms in \<open>simp_all add: tables_ok_def Magic_def Version_def scaleBits_def\<close>)
  then have "u32Slice (indexFile t) 6 ! i = [Magic, Version, K, tN t, tBlocks t, scaleBits] ! i" for i by simp
  from this [of 0] this [of 1] this [of 2] this [of 3] this [of 4] this [of 5]
  show ?thesis by (simp add: readHeader_def indexOf_def u32Slice_def numeral_eq_Suc)
qed


lemma drop_chunk: "length xs = n \<Longrightarrow> m = n + j \<Longrightarrow> drop m (xs @ ys) = drop j ys"
  by simp

lemma cutIndex_file:
  assumes "tables_ok t"
  shows "cutIndex (indexFile t) (readHeader (indexFile t)) = Some (indexOf (indexFile t) t)"
proof -
  define h c mn mx off cnt code where
    "h = headerBytes t" "c = writeI16 (tCentroids t)" "mn = writeI16 (concat (tMin t))" "mx = writeI16 (concat (tMax t))"
    "off = writeU32 (tOffsets t)" "cnt = writeU32 (tCounts t)" "code = writeI16 (tCodes t)"
  note d = this
  have f: "indexFile t = h @ c @ mn @ mx @ off @ cnt @ code @ tLabels t"
    by (simp add: indexFile_def d concat_writeI16)
  have len: "length h = 64" "length c = 131072" "length mn = 131072" "length mx = 131072" "length off = 16388"
    "length cnt = 16384" "length code = tBlocks t * 256" "length (tLabels t) = tBlocks t * 8"
    using assms by (simp_all add: d headerBytes_def tables_ok_def)
  let ?f = "indexFile t"
  have s: "drop 64 ?f = c @ mn @ mx @ off @ cnt @ code @ tLabels t"
    "drop 131136 ?f = mn @ mx @ off @ cnt @ code @ tLabels t"
    "drop 262208 ?f = mx @ off @ cnt @ code @ tLabels t"
    "drop 393280 ?f = off @ cnt @ code @ tLabels t"
    "drop 409668 ?f = cnt @ code @ tLabels t"
    "drop 426052 ?f = code @ tLabels t"
    "drop (426052 + tBlocks t * 256) ?f = tLabels t"
    by (simp_all add: f len)
  have total: "length ?f = 426052 + tBlocks t * 256 + tBlocks t * 8" by (simp add: f len)
  have "i16Slice (drop 64 ?f) 65536 = tCentroids t" "i16Slice (drop 131136 ?f) 65536 = concat (tMin t)"
    "i16Slice (drop 262208 ?f) 65536 = concat (tMax t)" "u32Slice (drop 393280 ?f) 4097 = tOffsets t"
    "u32Slice (drop 409668 ?f) 4096 = tCounts t" "i16Slice (drop 426052 ?f) (tBlocks t * 128) = tCodes t"
    unfolding s using assms by (simp_all add: d tables_ok_def i16Slice_write u32Slice_write)
  moreover have "slice ?f (426052 + tBlocks t * 256) (426052 + tBlocks t * 256 + tBlocks t * 8) = Some (tLabels t)"
    by (simp add: slice_def total s len)
  ultimately show ?thesis
    unfolding readHeader_file [OF assms, of ?f]
    by (simp add: cutIndex_def indexOf_def slice_from_def total Let_def mult.assoc)
qed

definition stored :: "nat list \<Rightarrow> os_file" where
  "stored data = \<lparr>open_ok = True, stat_ok = True, mmap_ok = True, mmap_retry_ok = True, contents = data\<rparr>"

lemma Open_indexFile:
  assumes "tables_ok t"
  shows "Open (stored (indexFile t)) = Some (Inr (indexOf (indexFile t) t))"
proof -
  have "64 \<le> length (indexFile t)" by (simp add: indexFile_def headerBytes_def)
  then show ?thesis
    unfolding Open_Inr using cutIndex_file [OF assms]
    by (simp add: stored_def readHeader_file [OF assms, of "indexFile t"]) (simp add: indexOf_def)
qed

end
