(* ===== verification/BuildIndex.thy ===== *)
theory BuildIndex
  imports Index_File Knn
begin

text \<open>
  The index builder (\<open>cmd/buildindex/main.go\<close>) from the trained centers to the tables of the
  index file: assignment of the training vectors to clusters, the offsets of the blocks, the
  order inside a cluster, the packing of the quantized rows with their bounding boxes, and the
  packing of the centers.

  \<open>sort.Slice\<close> is the parameter \<open>srt\<close>: given the comparison and a slice it returns the
  sorted slice. The results below rely on one fact about it, that it permutes the slice.
  Indexing by a cluster number is always in range, since \<open>nearest\<close> returns a number below
  the number of centers (\<open>nearest_less\<close>). The writes of \<open>packRow\<close> are list updates, which do nothing out of range,
  where Go panics; that every row is found in the result shows that none of them is out of range.
\<close>

section \<open>The code\<close>

definition fl_sub :: "(rat \<Rightarrow> fl) \<Rightarrow> fl \<Rightarrow> fl \<Rightarrow> fl" where
  "fl_sub rnd x y = fl_add rnd x (fl_neg y)"

definition dist2F32 :: "fl list \<Rightarrow> fl list \<Rightarrow> fl" where
  "dist2F32 a b =
     foldl (\<lambda>s j. let d = fl_sub round32 (a ! j) (b ! j) in fl_add round32 s (fl_mul round32 d d)) (Fin 0) [0..<DIMS]"

fun nearestFrom :: "nat \<Rightarrow> nat \<Rightarrow> fl \<Rightarrow> fl list list \<Rightarrow> fl list \<Rightarrow> nat" where
  "nearestFrom i best bd [] p = best"
| "nearestFrom i best bd (c # cs) p =
     (let d = dist2F32 p c
      in if fl_less d bd then nearestFrom (i + 1) (u32 i) d cs p else nearestFrom (i + 1) best bd cs p)"

definition nearest_center :: "fl list list \<Rightarrow> fl list \<Rightarrow> nat" where
  "nearest_center centers p = nearestFrom 0 0 (Inf False) centers p"

definition countClusters :: "nat \<Rightarrow> nat list \<Rightarrow> nat list" where
  "countClusters k assignments = foldl (\<lambda>counts c. counts[c := u32 (counts ! c + 1)]) (replicate k 0) assignments"

definition blocksOf :: "nat \<Rightarrow> nat" where
  "blocksOf c = u32 (c + LANES - 1) div LANES"

definition totalOf :: "nat list \<Rightarrow> nat" where
  "totalOf blocksPer = foldl (\<lambda>n b. u32 (n + b)) 0 blocksPer"

fun offsetsFrom :: "nat \<Rightarrow> nat list \<Rightarrow> nat list" where
  "offsetsFrom n [] = [n]"
| "offsetsFrom n (b # bs) = n # offsetsFrom (u32 (n + b)) bs"

definition clusterIndex :: "nat \<Rightarrow> nat list \<Rightarrow> nat list list" where
  "clusterIndex k assignments =
     foldl (\<lambda>idx (i, c). idx[c := idx ! c @ [u32 i]]) (replicate k []) (enumerate 0 assignments)"

definition sortClusters ::
  "((nat \<Rightarrow> nat \<Rightarrow> bool) \<Rightarrow> nat list \<Rightarrow> nat list) \<Rightarrow> fl list list \<Rightarrow> fl list list \<Rightarrow> nat list list \<Rightarrow> nat list list" where
  "sortClusters srt centers vecs idx =
     map (\<lambda>ci. srt (\<lambda>a b. fl_less (dist2F32 (vecs ! a) (centers ! ci)) (dist2F32 (vecs ! b) (centers ! ci))) (idx ! ci))
       [0..<length idx]"

record packing =
  codes :: "int list"
  lbls :: "nat list"
  bboxMin :: "int list list"
  bboxMax :: "int list list"
  curBlock :: "nat list"
  curLane :: "nat list"

definition putLane :: "int list \<Rightarrow> nat \<Rightarrow> nat \<Rightarrow> int list \<Rightarrow> int list" where
  "putLane cs blockIdx lane q =
     (let blockBase = blockIdx * PADDED_DIMS * LANES in
      foldl (\<lambda>cs p. let pairBase = blockBase + p * LANES * 2
                     in cs[pairBase + lane * 2 := q ! (p * 2), pairBase + lane * 2 + 1 := q ! (p * 2 + 1)])
        cs [0..<PADDED_DIMS div 2])"

text \<open>The builder has its own copy of the quantizer of package \<open>knn\<close>; the two are the same function.\<close>

definition build_roundF32 :: "fl \<Rightarrow> fl" where
  "build_roundF32 x =
     (if fl_le (Fin 0) x then fl_map round32 (floor64 (fl_add round64 x (Fin (1 / 2))))
      else fl_map round32 (ceil64 (fl_add round64 x (Fin (- 1 / 2)))))"

definition build_quant :: "fl list \<Rightarrow> int list option" where
  "build_quant v =
     do {
       xs \<leftarrow> those (map (\<lambda>j.
           let x = fl_mul round32 (v ! j) (Fin 10000);
               x' = (if fl_less (Fin 10000) x then Fin 10000 else if fl_less x (fl_neg (Fin 10000)) then fl_neg (Fin 10000) else x)
           in toInt16 (build_roundF32 x')) [0..<DIMS]);
       Some (xs @ replicate (PADDED_DIMS - DIMS) 0)
     }"

lemma build_quant_Quantize: "length v = DIMS \<Longrightarrow> build_quant v = Quantize v"
proof -
  assume v: "length v = DIMS"
  have "map (\<lambda>j. quantOne (v ! j)) [0..<DIMS] = map quantOne v" unfolding v [symmetric] by (rule map_nth [THEN arg_cong [of _ _ "map quantOne"], unfolded map_map o_def])
  then show ?thesis by (simp add: build_quant_def Quantize_def quantOne_def build_roundF32_def roundF32_def Let_def)
qed

definition packRow :: "fl list list \<Rightarrow> nat list \<Rightarrow> nat \<Rightarrow> packing \<Rightarrow> nat \<Rightarrow> packing option" where
  "packRow vecs labels c st i =
     do {
       v \<leftarrow> read_at vecs i;
       q \<leftarrow> build_quant v;
       l \<leftarrow> read_at labels i;
       let mn = map (\<lambda>j. if q ! j < bboxMin st ! c ! j then q ! j else bboxMin st ! c ! j) [0..<PADDED_DIMS];
       let mx = map (\<lambda>j. if q ! j > bboxMax st ! c ! j then q ! j else bboxMax st ! c ! j) [0..<PADDED_DIMS];
       let blockIdx = curBlock st ! c;
       let lane = curLane st ! c;
       Some \<lparr>codes = putLane (codes st) blockIdx lane q,
             lbls = (lbls st)[blockIdx * LANES + lane := l],
             bboxMin = (bboxMin st)[c := mn], bboxMax = (bboxMax st)[c := mx],
             curBlock = (if lane + 1 = LANES then (curBlock st)[c := u32 (blockIdx + 1)] else curBlock st),
             curLane = (curLane st)[c := if lane + 1 = LANES then 0 else lane + 1]\<rparr>
     }"

fun packRows :: "fl list list \<Rightarrow> nat list \<Rightarrow> nat \<Rightarrow> nat list \<Rightarrow> packing \<Rightarrow> packing option" where
  "packRows vecs labels c [] st = Some st"
| "packRows vecs labels c (i # arr) st = do { st' \<leftarrow> packRow vecs labels c st i; packRows vecs labels c arr st' }"

fun packClusters :: "fl list list \<Rightarrow> nat list \<Rightarrow> nat \<Rightarrow> nat list list \<Rightarrow> packing \<Rightarrow> packing option" where
  "packClusters vecs labels c [] st = Some st"
| "packClusters vecs labels c (arr # arrs) st =
     do { st' \<leftarrow> packRows vecs labels c arr st; packClusters vecs labels (c + 1) arrs st' }"

fun packCenters :: "nat \<Rightarrow> fl list list \<Rightarrow> int list \<Rightarrow> int list option" where
  "packCenters ci [] soa = Some soa"
| "packCenters ci (c # cs) soa =
     do { q \<leftarrow> build_quant c; packCenters (ci + 1) cs (putLane soa (ci div LANES) (ci mod LANES) q) }"

definition buildTables ::
  "((nat \<Rightarrow> nat \<Rightarrow> bool) \<Rightarrow> nat list \<Rightarrow> nat list) \<Rightarrow> fl list list \<Rightarrow> fl list list \<Rightarrow> nat list \<Rightarrow> tables option" where
  "buildTables srt centers vecs labels =
     do {
       let assignments = map (nearest_center centers) vecs;
       let counts = countClusters K assignments;
       let blocksPer = map blocksOf counts;
       let totalBlocks = totalOf blocksPer;
       let blockOffsets = offsetsFrom 0 blocksPer;
       let idx = sortClusters srt centers vecs (clusterIndex K assignments);
       st \<leftarrow> packClusters vecs labels 0 idx
              \<lparr>codes = replicate (totalBlocks * PADDED_DIMS * LANES) 0, lbls = replicate (totalBlocks * LANES) 0,
               bboxMin = replicate K (replicate PADDED_DIMS 32767),
               bboxMax = replicate K (replicate PADDED_DIMS (- 32768)),
               curBlock = take K blockOffsets, curLane = replicate K 0\<rparr>;
       let nCentroidBlocks = (K + LANES - 1) div LANES;
       soa \<leftarrow> packCenters 0 centers (replicate (nCentroidBlocks * PADDED_DIMS * LANES) 0);
       Some \<lparr>tN = u32 (length vecs), tBlocks = totalBlocks, tCentroids = soa, tMin = bboxMin st, tMax = bboxMax st,
             tOffsets = blockOffsets, tCounts = counts, tCodes = codes st, tLabels = lbls st\<rparr>
     }"

section \<open>Lanes\<close>

definition laneOf :: "int list \<Rightarrow> nat \<Rightarrow> int list" where
  "laneOf cs j = vecOf cs (j div 8) (j mod 8)"

lemma lane_index_inj:
  fixes b p l e :: nat
  assumes "b * 128 + p * 16 + l * 2 + e = b' * 128 + p' * 16 + l' * 2 + e'"
    "p < 8" "l < 8" "e < 2" "p' < 8" "l' < 8" "e' < 2"
  shows "b = b' \<and> p = p' \<and> l = l' \<and> e = e'"
proof -
  have "(b * 128 + p * 16 + l * 2 + e) div 128 = b" "(b' * 128 + p' * 16 + l' * 2 + e') div 128 = b'"
    using assms(2-) by auto
  then have b: "b = b'" using assms(1) by simp
  then have "(p * 16 + l * 2 + e) div 16 = (p' * 16 + l' * 2 + e') div 16" using assms(1) by simp
  moreover have "(p * 16 + l * 2 + e) div 16 = p" "(p' * 16 + l' * 2 + e') div 16 = p'" using assms(2-) by auto
  ultimately have p: "p = p'" by simp
  then have "l * 2 + e = l' * 2 + e'" using assms(1) b by simp
  then have "l = l' \<and> e = e'" using assms(4,7) by presburger
  then show ?thesis using b p by simp
qed

lemma length_putLane [simp]: "length (putLane cs b l q) = length cs"
proof -
  have "length (foldl (\<lambda>cs p. cs[f p := g p, f' p := g' p]) cs ps) = length cs" for f g f' g' and ps :: "nat list"
    by (induction ps arbitrary: cs) simp_all
  then show ?thesis by (simp add: putLane_def Let_def)
qed

lemma nth_update_pair:
  "y + 1 < length xs \<Longrightarrow> xs[y := u, y + 1 := w] ! x = (if x = y + 1 then w else if x = y + 0 then u else xs ! x)"
  by (auto simp: nth_list_update)

lemma nth_putLane:
  assumes "b * 128 + 128 \<le> length cs" "l < 8" "l' < 8" "p < 8" "e < 2" "b' * 128 + 128 \<le> length cs"
  shows "putLane cs b l q ! (b' * 128 + p * 16 + l' * 2 + e) =
    (if b' = b \<and> l' = l then q ! (p * 2 + e) else cs ! (b' * 128 + p * 16 + l' * 2 + e))"
proof -
  define put where "put cs p = cs[b * 128 + p * 16 + l * 2 := q ! (p * 2), b * 128 + p * 16 + l * 2 + 1 := q ! (p * 2 + 1)]" for cs p
  let ?x = "b' * 128 + p * 16 + l' * 2 + e"
  have len: "length (foldl put cs ps) = length cs" for ps cs
    by (induction ps arbitrary: cs) (simp_all add: put_def)
  have "foldl put cs [0..<n] ! ?x = (if b' = b \<and> l' = l \<and> p < n then q ! (p * 2 + e) else cs ! ?x)" if "n \<le> 8" for n
    using that
  proof (induction n)
    case (Suc n)
    let ?y = "b * 128 + n * 16 + l * 2"
    have y: "?y + 1 < length cs" using assms(1,2) Suc.prems by linarith
    have eq: "?x = ?y + d \<longleftrightarrow> b' = b \<and> l' = l \<and> p = n \<and> e = d" if "d < 2" for d
      using lane_index_inj [of b' p l' e b n l d] assms Suc.prems that by auto
    have "foldl put cs [0..<Suc n] ! ?x = put (foldl put cs [0..<n]) n ! ?x" by simp
    also have "\<dots> = (if ?x = ?y + 1 then q ! (n * 2 + 1) else if ?x = ?y + 0 then q ! (n * 2) else foldl put cs [0..<n] ! ?x)"
      unfolding put_def [of "foldl put cs [0..<n]"] using y
      by (subst nth_update_pair) (simp_all add: len)
    also have "\<dots> = (if b' = b \<and> l' = l \<and> p = n then q ! (p * 2 + e) else foldl put cs [0..<n] ! ?x)"
      using assms(5) eq [of 0] eq [of 1] by (cases "e = 0") (simp_all only:, auto simp: less_2_cases_iff)
    also have "\<dots> = (if b' = b \<and> l' = l \<and> p < Suc n then q ! (p * 2 + e) else cs ! ?x)"
      using Suc.IH Suc.prems by auto
    finally show ?case .
  qed simp
  from this [of 8] have "foldl put cs [0..<8] ! ?x = (if b' = b \<and> l' = l then q ! (p * 2 + e) else cs ! ?x)"
    using assms(4) by simp
  moreover have "putLane cs b l q = foldl put cs [0..<8]"
    by (simp add: putLane_def Let_def put_def [abs_def] mult.assoc)
  ultimately show ?thesis by simp
qed

lemma laneOf_putLane:
  assumes "j div 8 * 128 + 128 \<le> length cs" "j' div 8 * 128 + 128 \<le> length cs" "length q = 16"
  shows "laneOf (putLane cs (j div 8) (j mod 8) q) j' = (if j' = j then q else laneOf cs j')"
proof (rule nth_equalityI)
  show "length (laneOf (putLane cs (j div 8) (j mod 8) q) j') = length (if j' = j then q else laneOf cs j')"
    using assms(3) by (simp add: laneOf_def vecOf_def)
  fix i assume "i < length (laneOf (putLane cs (j div 8) (j mod 8) q) j')"
  then have i: "i < 16" by (simp add: laneOf_def vecOf_def)
  have "j' = j \<longleftrightarrow> j' div 8 = j div 8 \<and> j' mod 8 = j mod 8" by (metis div_mult_mod_eq)
  then show "laneOf (putLane cs (j div 8) (j mod 8) q) j' ! i = (if j' = j then q else laneOf cs j') ! i"
    using nth_putLane [OF assms(1), of "j mod 8" "j' mod 8" "i div 2" "i mod 2" "j' div 8" q] i assms(2)
    by (simp add: laneOf_def nth_vecOf)
qed

section \<open>Packing one row\<close>

definition train_ok :: "fl list list \<Rightarrow> nat list \<Rightarrow> bool" where
  "train_ok vecs labels \<longleftrightarrow> length labels = length vecs \<and> (\<forall>l \<in> set labels. l \<le> 1) \<and>
     (\<forall>v \<in> set vecs. length v = 14 \<and> NaN \<notin> set v)"

definition qv :: "fl list list \<Rightarrow> nat \<Rightarrow> int list" where
  "qv vecs i = the (Quantize (vecs ! i))"

lemma Quantize_qv:
  assumes "train_ok vecs labels" "i < length vecs"
  shows "Quantize (vecs ! i) = Some (qv vecs i)" "query_ok (qv vecs i)" "build_quant (vecs ! i) = Some (qv vecs i)"
proof -
  have l: "length (vecs ! i) = 14" "NaN \<notin> set (vecs ! i)" using assms by (auto simp: train_ok_def)
  then obtain q where q: "Quantize (vecs ! i) = Some q" "query_ok q" using Quantize_range by fastforce
  then show "Quantize (vecs ! i) = Some (qv vecs i)" "query_ok (qv vecs i)" by (simp_all add: qv_def)
  then show "build_quant (vecs ! i) = Some (qv vecs i)" using build_quant_Quantize [of "vecs ! i"] l(1) by simp
qed

definition pack_ok :: "nat \<Rightarrow> nat \<Rightarrow> packing \<Rightarrow> bool" where
  "pack_ok nb k st \<longleftrightarrow> length (codes st) = nb * 128 \<and> length (lbls st) = nb * 8 \<and> length (bboxMin st) = k \<and>
     length (bboxMax st) = k \<and> length (curBlock st) = k \<and> length (curLane st) = k \<and> in_range (codes st) \<and>
     (\<forall>l \<in> set (lbls st). l \<le> 1)"

definition cursor :: "packing \<Rightarrow> nat \<Rightarrow> nat" where
  "cursor st c = curBlock st ! c * 8 + curLane st ! c"

definition boxMin :: "int list \<Rightarrow> int list list \<Rightarrow> int list" where
  "boxMin = foldl (\<lambda>b q. map (\<lambda>j. if q ! j < b ! j then q ! j else b ! j) [0..<16])"

definition boxMax :: "int list \<Rightarrow> int list list \<Rightarrow> int list" where
  "boxMax = foldl (\<lambda>b q. map (\<lambda>j. if q ! j > b ! j then q ! j else b ! j) [0..<16])"

lemma in_range_update: "in_range cs \<Longrightarrow> - 10000 \<le> x \<Longrightarrow> x \<le> 10000 \<Longrightarrow> in_range (cs[i := x])"
  unfolding in_range_def using set_update_subset_insert by fastforce

lemma in_range_putLane: "in_range cs \<Longrightarrow> in_range q \<Longrightarrow> length q = 16 \<Longrightarrow> in_range (putLane cs b l q)"
proof -
  assume cs: "in_range cs" and q: "in_range q" "length q = 16"
  have step: "in_range (foldl (\<lambda>cs p. cs[f p := q ! (p * 2), f p + 1 := q ! (p * 2 + 1)]) cs ps)"
    if "\<forall>p \<in> set ps. p < 8" "in_range cs" for f ps cs
    using that
  proof (induction ps arbitrary: cs)
    case (Cons p ps)
    have "q ! (p * 2) \<in> set q" "q ! (p * 2 + 1) \<in> set q" using Cons.prems(1) q(2) by simp_all
    then have "in_range (cs[f p := q ! (p * 2), f p + 1 := q ! (p * 2 + 1)])"
      using q(1) Cons.prems(2) by (intro in_range_update) (auto simp: in_range_def)
    then show ?case using Cons by simp
  qed simp
  show ?thesis using step [of "[0..<8]" cs "\<lambda>p. b * 128 + p * 16 + l * 2"] cs
    by (simp add: putLane_def Let_def mult.assoc)
qed

lemma packRow_spec:
  assumes "train_ok vecs labels" "i < length vecs" "pack_ok nb k st" "c < k" "cursor st c < nb * 8" "curLane st ! c < 8"
    "nb < 2 ^ 32"
  shows "\<exists>st'. packRow vecs labels c st i = Some st' \<and> pack_ok nb k st' \<and>
    cursor st' c = cursor st c + 1 \<and> curLane st' ! c < 8 \<and>
    (\<forall>x < nb * 8. laneOf (codes st') x = (if x = cursor st c then qv vecs i else laneOf (codes st) x)) \<and>
    lbls st' = (lbls st)[cursor st c := labels ! i] \<and>
    bboxMin st' = (bboxMin st)[c := boxMin (bboxMin st ! c) [qv vecs i]] \<and>
    bboxMax st' = (bboxMax st)[c := boxMax (bboxMax st ! c) [qv vecs i]] \<and>
    (\<forall>d. d \<noteq> c \<longrightarrow> curBlock st' ! d = curBlock st ! d \<and> curLane st' ! d = curLane st ! d)"
proof -
  let ?q = "qv vecs i" and ?j = "cursor st c"
  have q: "build_quant (vecs ! i) = Some ?q" "length ?q = 16" "in_range ?q"
    using Quantize_qv [OF assms(1,2)] by (auto simp: query_ok_def)
  have l: "i < length labels" "labels ! i \<le> 1" using assms(1,2) by (auto simp: train_ok_def)
  have j: "?j div 8 = curBlock st ! c" "?j mod 8 = curLane st ! c" using assms(6) by (simp_all add: cursor_def)
  then have lt: "curBlock st ! c < nb" using assms(5) by (metis less_mult_imp_div_less)
  then have bl: "u32 (curBlock st ! c + 1) = curBlock st ! c + 1" using assms(7) by (simp add: u32_id)
  define st' where "st' = \<lparr>codes = putLane (codes st) (?j div 8) (?j mod 8) ?q, lbls = (lbls st)[?j := labels ! i],
      bboxMin = (bboxMin st)[c := boxMin (bboxMin st ! c) [?q]], bboxMax = (bboxMax st)[c := boxMax (bboxMax st ! c) [?q]],
      curBlock = (if curLane st ! c + 1 = 8 then (curBlock st)[c := curBlock st ! c + 1] else curBlock st),
      curLane = (curLane st)[c := if curLane st ! c + 1 = 8 then 0 else curLane st ! c + 1]\<rparr>"
  have len: "length (codes st) = nb * 128" "length (curBlock st) = k" "length (curLane st) = k" "in_range (codes st)"
    "\<forall>l \<in> set (lbls st). l \<le> 1" using assms(3) by (simp_all add: pack_ok_def)
  have eq: "packRow vecs labels c st i = Some st'"
    using q(1) l(1) assms(2,6) bl
    by (simp add: packRow_def panic_simps Let_def st'_def j boxMin_def boxMax_def cursor_def mult.commute)
  have "in_range (codes st')" using in_range_putLane [OF len(4) q(3,2)] by (simp add: st'_def)
  moreover have "\<forall>x \<in> set (lbls st'). x \<le> 1"
    using len(5) l(2) set_update_subset_insert [of "lbls st" ?j "labels ! i"] by (auto simp: st'_def)
  ultimately have "pack_ok nb k st'"
    using assms(3) by (simp add: pack_ok_def) (simp add: st'_def)
  moreover have "cursor st' c = ?j + 1" "curLane st' ! c < 8"
    using assms(4,6) len by (simp_all add: st'_def cursor_def)
  moreover have "laneOf (codes st') x = (if x = ?j then ?q else laneOf (codes st) x)" if "x < nb * 8" for x
  proof -
    have "x div 8 < nb" using that by (simp add: less_mult_imp_div_less)
    then show ?thesis using lt laneOf_putLane [of ?j "codes st" x ?q] q(2) len(1) j(1) by (simp add: st'_def)
  qed
  moreover have "lbls st' = (lbls st)[?j := labels ! i]" "bboxMin st' = (bboxMin st)[c := boxMin (bboxMin st ! c) [?q]]"
    "bboxMax st' = (bboxMax st)[c := boxMax (bboxMax st ! c) [?q]]"
    "\<forall>d. d \<noteq> c \<longrightarrow> curBlock st' ! d = curBlock st ! d \<and> curLane st' ! d = curLane st ! d"
    by (simp_all add: st'_def)
  ultimately show ?thesis using eq by blast
qed

section \<open>Packing clusters\<close>

definition shifted :: "nat \<Rightarrow> nat list \<Rightarrow> (nat \<Rightarrow> 'a) \<Rightarrow> (nat \<Rightarrow> 'a) \<Rightarrow> nat \<Rightarrow> 'a" where
  "shifted j arr f g x = (if j \<le> x \<and> x < j + length arr then f (arr ! (x - j)) else g x)"

lemma shifted_Cons: "shifted (j + 1) arr f (g(j := f i)) x = shifted j (i # arr) f g x"
proof (cases "j < x")
  case True
  then have "x - j = Suc (x - (j + 1))" by simp
  then show ?thesis using True by (simp add: shifted_def)
qed (auto simp: shifted_def)

lemma packRows_spec:
  assumes "train_ok vecs labels" "\<forall>i \<in> set arr. i < length vecs" "pack_ok nb k st" "c < k"
    "cursor st c + length arr \<le> nb * 8" "curLane st ! c < 8" "nb < 2 ^ 32"
  shows "\<exists>st'. packRows vecs labels c arr st = Some st' \<and> pack_ok nb k st' \<and>
    (\<forall>x < nb * 8. laneOf (codes st') x = shifted (cursor st c) arr (qv vecs) (laneOf (codes st)) x \<and>
       lbls st' ! x = shifted (cursor st c) arr ((!) labels) ((!) (lbls st)) x) \<and>
    bboxMin st' = (bboxMin st)[c := boxMin (bboxMin st ! c) (map (qv vecs) arr)] \<and>
    bboxMax st' = (bboxMax st)[c := boxMax (bboxMax st ! c) (map (qv vecs) arr)] \<and>
    (\<forall>d. d \<noteq> c \<longrightarrow> curBlock st' ! d = curBlock st ! d \<and> curLane st' ! d = curLane st ! d)"
  using assms(2-)
proof (induction arr arbitrary: st)
  case Nil
  then show ?case by (auto simp: shifted_def boxMin_def boxMax_def)
next
  case (Cons i arr)
  let ?j = "cursor st c"
  have "?j < nb * 8" "i < length vecs" using Cons.prems by auto
  then obtain s1 where s1: "packRow vecs labels c st i = Some s1" "pack_ok nb k s1" "cursor s1 c = ?j + 1" "curLane s1 ! c < 8"
      "\<forall>x < nb * 8. laneOf (codes s1) x = (if x = ?j then qv vecs i else laneOf (codes st) x)"
      "lbls s1 = (lbls st)[?j := labels ! i]"
      "bboxMin s1 = (bboxMin st)[c := boxMin (bboxMin st ! c) [qv vecs i]]"
      "bboxMax s1 = (bboxMax st)[c := boxMax (bboxMax st ! c) [qv vecs i]]"
      "\<forall>d. d \<noteq> c \<longrightarrow> curBlock s1 ! d = curBlock st ! d \<and> curLane s1 ! d = curLane st ! d"
    using packRow_spec [OF assms(1), of i nb k st c] Cons.prems by blast
  then obtain st' where st': "packRows vecs labels c arr s1 = Some st'" "pack_ok nb k st'"
      "\<forall>x < nb * 8. laneOf (codes st') x = shifted (?j + 1) arr (qv vecs) (laneOf (codes s1)) x \<and>
         lbls st' ! x = shifted (?j + 1) arr ((!) labels) ((!) (lbls s1)) x"
      "bboxMin st' = (bboxMin s1)[c := boxMin (bboxMin s1 ! c) (map (qv vecs) arr)]"
      "bboxMax st' = (bboxMax s1)[c := boxMax (bboxMax s1 ! c) (map (qv vecs) arr)]"
      "\<forall>d. d \<noteq> c \<longrightarrow> curBlock st' ! d = curBlock s1 ! d \<and> curLane st' ! d = curLane s1 ! d"
    using Cons.IH [of s1] Cons.prems by auto
  have len: "length (lbls st) = nb * 8" "length (bboxMin st) = k" "length (bboxMax st) = k"
    using Cons.prems(2) by (simp_all add: pack_ok_def)
  have "laneOf (codes st') x = shifted ?j (i # arr) (qv vecs) (laneOf (codes st)) x \<and>
      lbls st' ! x = shifted ?j (i # arr) ((!) labels) ((!) (lbls st)) x" if x: "x < nb * 8" for x
  proof -
    have "shifted (?j + 1) arr (qv vecs) (laneOf (codes s1)) x = shifted (?j + 1) arr (qv vecs) ((laneOf (codes st))(?j := qv vecs i)) x"
      using s1(5) x by (simp add: shifted_def)
    moreover have "shifted (?j + 1) arr ((!) labels) ((!) (lbls s1)) x = shifted (?j + 1) arr ((!) labels) (((!) (lbls st))(?j := labels ! i)) x"
      using s1(6) x len(1) by (simp add: shifted_def nth_list_update)
    ultimately show ?thesis using st'(3) x by (simp only: shifted_Cons)
  qed
  moreover have "bboxMin st' = (bboxMin st)[c := boxMin (bboxMin st ! c) (map (qv vecs) (i # arr))]"
    "bboxMax st' = (bboxMax st)[c := boxMax (bboxMax st ! c) (map (qv vecs) (i # arr))]"
    using st'(4,5) s1(7,8) len Cons.prems(3) by (simp_all add: boxMin_def boxMax_def)
  ultimately show ?case using s1(1,9) st'(1,2,6) by auto
qed

text \<open>What packing the clusters \<open>arrs\<close>, the first of them number \<open>c\<close>, makes of the tables: the rows of each
  cluster in order from its first block on, the boxes enlarged, everything before left alone.\<close>

definition packed ::
  "fl list list \<Rightarrow> nat list \<Rightarrow> (nat \<Rightarrow> nat) \<Rightarrow> nat \<Rightarrow> nat list list \<Rightarrow> packing \<Rightarrow> packing \<Rightarrow> bool" where
  "packed vecs labels off c arrs st st' \<longleftrightarrow>
    (\<forall>d < length arrs. \<forall>m < length (arrs ! d).
       laneOf (codes st') (off (c + d) * 8 + m) = qv vecs (arrs ! d ! m) \<and>
       lbls st' ! (off (c + d) * 8 + m) = labels ! (arrs ! d ! m)) \<and>
    (\<forall>x < off c * 8. laneOf (codes st') x = laneOf (codes st) x \<and> lbls st' ! x = lbls st ! x) \<and>
    (\<forall>d < length arrs. bboxMin st' ! (c + d) = boxMin (bboxMin st ! (c + d)) (map (qv vecs) (arrs ! d)) \<and>
       bboxMax st' ! (c + d) = boxMax (bboxMax st ! (c + d)) (map (qv vecs) (arrs ! d))) \<and>
    (\<forall>d < c. bboxMin st' ! d = bboxMin st ! d \<and> bboxMax st' ! d = bboxMax st ! d)"

lemma packed_Cons:
  assumes "packed vecs labels off (Suc c) arrs s1 st'"
    "\<forall>x < nb * 8. laneOf (codes s1) x = shifted (off c * 8) arr (qv vecs) (laneOf (codes st)) x \<and>
       lbls s1 ! x = shifted (off c * 8) arr ((!) labels) ((!) (lbls st)) x"
    "bboxMin s1 = (bboxMin st)[c := boxMin (bboxMin st ! c) (map (qv vecs) arr)]"
    "bboxMax s1 = (bboxMax st)[c := boxMax (bboxMax st ! c) (map (qv vecs) arr)]"
    "c < length (bboxMin st)" "c < length (bboxMax st)" "off (c + 1) \<le> nb" "off c * 8 + length arr \<le> off (c + 1) * 8"
  shows "packed vecs labels off c (arr # arrs) st st'"
proof -
  note st' = assms(1) [unfolded packed_def]
  have x0: "laneOf (codes st') x = shifted (off c * 8) arr (qv vecs) (laneOf (codes st)) x \<and>
      lbls st' ! x = shifted (off c * 8) arr ((!) labels) ((!) (lbls st)) x" if "x < off (c + 1) * 8" for x
    using st' assms(2,7) that by auto
  have first: "laneOf (codes st') (off c * 8 + m) = qv vecs (arr ! m) \<and> lbls st' ! (off c * 8 + m) = labels ! (arr ! m)"
    if "m < length arr" for m
    using x0 [of "off c * 8 + m"] assms(8) that by (simp add: shifted_def)
  have "laneOf (codes st') x = laneOf (codes st) x \<and> lbls st' ! x = lbls st ! x" if "x < off c * 8" for x
    using x0 [of x] that assms(8) by (simp add: shifted_def)
  moreover have "\<forall>m < length ((arr # arrs) ! d).
       laneOf (codes st') (off (c + d) * 8 + m) = qv vecs ((arr # arrs) ! d ! m) \<and>
       lbls st' ! (off (c + d) * 8 + m) = labels ! ((arr # arrs) ! d ! m)" if "d < length (arr # arrs)" for d
    using first st' that by (cases d) auto
  moreover have "bboxMin st' ! (c + d) = boxMin (bboxMin st ! (c + d)) (map (qv vecs) ((arr # arrs) ! d)) \<and>
       bboxMax st' ! (c + d) = boxMax (bboxMax st ! (c + d)) (map (qv vecs) ((arr # arrs) ! d))" if "d < length (arr # arrs)" for d
    using st' that assms(3-6) by (cases d) simp_all
  moreover have "\<forall>d < c. bboxMin st' ! d = bboxMin st ! d \<and> bboxMax st' ! d = bboxMax st ! d"
    using st' assms(3,4) by simp
  ultimately show ?thesis unfolding packed_def by blast
qed

lemma packClusters_spec:
  assumes "train_ok vecs labels" "\<forall>arr \<in> set arrs. \<forall>i \<in> set arr. i < length vecs" "pack_ok nb k st"
    "c + length arrs = k" "nb < 2 ^ 32" "mono off" "off k \<le> nb"
    "\<forall>d < length arrs. curBlock st ! (c + d) = off (c + d) \<and> curLane st ! (c + d) = 0 \<and>
       off (c + d) * 8 + length (arrs ! d) \<le> off (c + d + 1) * 8"
  shows "\<exists>st'. packClusters vecs labels c arrs st = Some st' \<and> pack_ok nb k st' \<and> packed vecs labels off c arrs st st'"
  using assms(2-5,8)
proof (induction arrs arbitrary: st c)
  case (Cons arr arrs)
  have c: "c < k" using Cons.prems(3) by simp
  have cur: "curBlock st ! c = off c" "curLane st ! c = 0" "off c * 8 + length arr \<le> off (c + 1) * 8"
    using Cons.prems(5) by (auto dest: spec [of _ 0])
  then have j: "cursor st c = off c * 8" by (simp add: cursor_def)
  have "off (c + 1) \<le> off k" using c assms(6) by (simp add: monoD)
  then have nb: "off c * 8 + length arr \<le> nb * 8" "off (c + 1) \<le> nb" using cur(3) assms(7) by linarith+
  obtain s1 where s1: "packRows vecs labels c arr st = Some s1" "pack_ok nb k s1"
      "\<forall>x < nb * 8. laneOf (codes s1) x = shifted (off c * 8) arr (qv vecs) (laneOf (codes st)) x \<and>
         lbls s1 ! x = shifted (off c * 8) arr ((!) labels) ((!) (lbls st)) x"
      "bboxMin s1 = (bboxMin st)[c := boxMin (bboxMin st ! c) (map (qv vecs) arr)]"
      "bboxMax s1 = (bboxMax st)[c := boxMax (bboxMax st ! c) (map (qv vecs) arr)]"
      "\<forall>d. d \<noteq> c \<longrightarrow> curBlock s1 ! d = curBlock st ! d \<and> curLane s1 ! d = curLane st ! d"
    using packRows_spec [OF assms(1), of arr nb k st c] Cons.prems c cur(2) nb(1) j by auto
  have "\<forall>d < length arrs. curBlock s1 ! (Suc c + d) = off (Suc c + d) \<and> curLane s1 ! (Suc c + d) = 0 \<and>
      off (Suc c + d) * 8 + length (arrs ! d) \<le> off (Suc c + d + 1) * 8"
    using Cons.prems(5) s1(6) by (auto dest: spec [of _ "Suc _"])
  then obtain st' where st': "packClusters vecs labels (c + 1) arrs s1 = Some st'" "pack_ok nb k st'"
      "packed vecs labels off (Suc c) arrs s1 st'"
    using Cons.IH [of s1 "Suc c"] Cons.prems(1,3,4) s1(2) by auto
  have "length (bboxMin st) = k" "length (bboxMax st) = k" using Cons.prems(2) by (simp_all add: pack_ok_def)
  then have "packed vecs labels off c (arr # arrs) st st'"
    using c packed_Cons [OF st'(3) s1(3-5) _ _ nb(2) cur(3)] by simp
  then show ?case using s1(1) st'(1,2) by simp
qed (simp add: packed_def)

section \<open>Clusters, counts and offsets\<close>

lemma nearestFrom_less:
  "best < n \<Longrightarrow> i + length cs \<le> n \<Longrightarrow> n \<le> 2 ^ 32 \<Longrightarrow> nearestFrom i best bd cs p < n"
proof (induction cs arbitrary: i best bd)
  case (Cons c cs)
  have "u32 i < n" using Cons.prems by (simp add: u32_id)
  then show ?case using Cons.IH [of "u32 i" "i + 1"] Cons.IH [of best "i + 1"] Cons.prems by (simp add: Let_def)
qed simp

lemma nearest_less: "centers \<noteq> [] \<Longrightarrow> length centers \<le> 2 ^ 32 \<Longrightarrow> nearest_center centers p < length centers"
  unfolding nearest_center_def by (rule nearestFrom_less) simp_all

lemma clusterIndex_snoc:
  "clusterIndex k (as @ [a]) = (clusterIndex k as)[a := clusterIndex k as ! a @ [u32 (length as)]]"
  by (simp add: clusterIndex_def enumerate_append_eq)

lemma length_clusterIndex [simp]: "length (clusterIndex k as) = k"
proof (induction as rule: rev_induct)
  case Nil
  then show ?case by (simp add: clusterIndex_def)
qed (simp add: clusterIndex_snoc)

lemma countClusters_snoc:
  "countClusters k (as @ [a]) = (countClusters k as)[a := u32 (countClusters k as ! a + 1)]"
  by (simp add: countClusters_def)

lemma concat_update_snoc: "c < length xs \<Longrightarrow> mset (concat (xs[c := xs ! c @ [i]])) = add_mset i (mset (concat xs))"
proof (induction xs arbitrary: c)
  case (Cons x xs)
  then show ?case by (cases c) simp_all
qed simp

lemma clusters_spec:
  assumes "\<forall>a \<in> set as. a < k" "length as < 2 ^ 32"
  shows "countClusters k as = map length (clusterIndex k as) \<and> mset (concat (clusterIndex k as)) = mset [0..<length as]"
  using assms
proof (induction as rule: rev_induct)
  case Nil
  have "concat (replicate k []) = ([] :: nat list)" by (induction k) simp_all
  then show ?case by (simp add: countClusters_def clusterIndex_def)
next
  case (snoc a as)
  let ?idx = "clusterIndex k as"
  have IH: "countClusters k as = map length ?idx" "mset (concat ?idx) = mset [0..<length as]" using snoc by auto
  have a: "a < k" using snoc.prems by simp
  have n: "u32 (length as) = length as" using snoc.prems(2) by (simp add: u32_id)
  have "length (?idx ! a) \<le> length (concat ?idx)" using a elem_le_sum_list [of a "map length ?idx"] by (simp add: length_concat)
  also have "\<dots> = length as" using arg_cong [OF IH(2), of size] by simp
  finally have "u32 (length (?idx ! a) + 1) = length (?idx ! a) + 1" using snoc.prems(2) by (simp add: u32_id)
  then have "countClusters k (as @ [a]) = map length (clusterIndex k (as @ [a]))"
    using IH(1) a by (simp add: countClusters_snoc clusterIndex_snoc map_update)
  moreover have "mset (concat (clusterIndex k (as @ [a]))) = mset [0..<length (as @ [a])]"
    using concat_update_snoc [of a ?idx "length as"] IH(2) a n by (simp add: clusterIndex_snoc)
  ultimately show ?case ..
qed

lemma totalOf_sum: "sum_list bs < 2 ^ 32 \<Longrightarrow> totalOf bs = sum_list bs"
proof -
  have "n + sum_list bs < 2 ^ 32 \<Longrightarrow> foldl (\<lambda>n b. u32 (n + b)) n bs = n + sum_list bs" for n
    by (induction bs arbitrary: n) (simp_all add: u32_id add.assoc)
  from this [of 0] show "sum_list bs < 2 ^ 32 \<Longrightarrow> totalOf bs = sum_list bs" by (simp add: totalOf_def)
qed

definition offs :: "nat list \<Rightarrow> nat \<Rightarrow> nat" where
  "offs bs i = sum_list (take i bs)"

lemma length_offsetsFrom [simp]: "length (offsetsFrom n bs) = Suc (length bs)"
  by (induction bs arbitrary: n) simp_all

lemma offsetsFrom_nth:
  "n + sum_list bs < 2 ^ 32 \<Longrightarrow> i \<le> length bs \<Longrightarrow> offsetsFrom n bs ! i = n + offs bs i"
proof (induction bs arbitrary: n i)
  case (Cons b bs)
  then show ?case using Cons.IH [of "n + b"] by (cases i) (simp_all add: offs_def u32_id add.assoc)
qed (simp add: offs_def)

lemma mono_offs: "mono (offs bs)"
proof (rule monoI)
  fix i j :: nat assume "i \<le> j"
  then have "take j bs = take i bs @ take (j - i) (drop i bs)" by (metis le_add_diff_inverse take_add)
  then show "offs bs i \<le> offs bs j" by (simp add: offs_def)
qed

lemma offs_Suc: "i < length bs \<Longrightarrow> offs bs (i + 1) = offs bs i + bs ! i"
  by (simp add: offs_def take_Suc_conv_app_nth)

lemma offs_le: "offs bs i \<le> sum_list bs"
proof -
  have "sum_list bs = offs bs i + sum_list (drop i bs)"
    by (metis append_take_drop_id offs_def sum_list_append)
  then show ?thesis by simp
qed

lemma blocksOf_bounds: "n + 7 < 2 ^ 32 \<Longrightarrow> n \<le> blocksOf n * 8 \<and> blocksOf n \<le> n"
  by (simp add: blocksOf_def u32_id) linarith

lemma sum_blocks: "\<forall>n \<in> set ns. n + 7 < 2 ^ 32 \<Longrightarrow> sum_list (map blocksOf ns) \<le> sum_list ns"
  by (induction ns) (use blocksOf_bounds in \<open>auto intro: add_mono\<close>)

section \<open>Boxes\<close>

lemma boxMin_le:
  assumes "length b = 16" "\<forall>q \<in> set qs. length q = 16 \<and> in_range q" "j < 16"
  shows "length (boxMin b qs) = 16 \<and> boxMin b qs ! j \<le> b ! j \<and> (\<forall>q \<in> set qs. boxMin b qs ! j \<le> q ! j) \<and>
    (- 10000 \<le> b ! j \<longrightarrow> - 10000 \<le> boxMin b qs ! j)"
  using assms(1,2)
proof (induction qs arbitrary: b)
  case (Cons q qs)
  let ?b = "map (\<lambda>j. if q ! j < b ! j then q ! j else b ! j) [0..<16]"
  have "q ! j \<in> set q" using Cons.prems(2) assms(3) by simp
  then have "- 10000 \<le> q ! j" using Cons.prems(2) by (auto simp: in_range_def)
  then show ?case using Cons.IH [of ?b] Cons.prems assms(3) by (auto simp: boxMin_def split: if_splits)
qed (simp add: boxMin_def)

lemma boxMax_ge:
  assumes "length b = 16" "\<forall>q \<in> set qs. length q = 16 \<and> in_range q" "j < 16"
  shows "length (boxMax b qs) = 16 \<and> b ! j \<le> boxMax b qs ! j \<and> (\<forall>q \<in> set qs. q ! j \<le> boxMax b qs ! j) \<and>
    (b ! j \<le> 10000 \<longrightarrow> boxMax b qs ! j \<le> 10000)"
  using assms(1,2)
proof (induction qs arbitrary: b)
  case (Cons q qs)
  let ?b = "map (\<lambda>j. if q ! j > b ! j then q ! j else b ! j) [0..<16]"
  have "q ! j \<in> set q" using Cons.prems(2) assms(3) by simp
  then have "q ! j \<le> 10000" using Cons.prems(2) by (auto simp: in_range_def)
  then show ?case using Cons.IH [of ?b] Cons.prems assms(3) by (auto simp: boxMax_def split: if_splits)
qed (simp add: boxMax_def)

section \<open>Centers\<close>

lemma packCenters_spec:
  assumes "\<forall>c \<in> set cs. length c = 14 \<and> NaN \<notin> set c" "ci + length cs \<le> nb * 8" "length soa = nb * 128" "in_range soa"
  shows "\<exists>soa'. packCenters ci cs soa = Some soa' \<and> length soa' = nb * 128 \<and> in_range soa' \<and>
    (\<forall>x < nb * 8. laneOf soa' x = shifted ci [0..<length cs] (qv cs) (laneOf soa) x)"
  using assms
proof (induction cs arbitrary: ci soa)
  case Nil
  then show ?case by (auto simp: shifted_def)
next
  case (Cons c cs)
  let ?q = "qv (c # cs) 0"
  have "train_ok [c] [0]" using Cons.prems(1) by (simp add: train_ok_def)
  then have q: "build_quant c = Some ?q" "length ?q = 16" "in_range ?q"
    using Quantize_qv [of "[c]" "[0]" 0] by (simp_all add: qv_def query_ok_def)
  let ?s = "putLane soa (ci div 8) (ci mod 8) ?q"
  obtain soa' where s: "packCenters (ci + 1) cs ?s = Some soa'" "length soa' = nb * 128" "in_range soa'"
      "\<forall>x < nb * 8. laneOf soa' x = shifted (ci + 1) [0..<length cs] (qv cs) (laneOf ?s) x"
    using Cons.IH [of "ci + 1" ?s] Cons.prems in_range_putLane [OF Cons.prems(4) q(3,2)] by auto
  have "laneOf soa' x = shifted ci [0..<length (c # cs)] (qv (c # cs)) (laneOf soa) x" if x: "x < nb * 8" for x
  proof -
    have "ci div 8 < nb" "x div 8 < nb" using Cons.prems(2) x by (simp_all add: less_mult_imp_div_less)
    then have l: "laneOf ?s x = (if x = ci then ?q else laneOf soa x)"
      using laneOf_putLane [of ci soa x ?q] q(2) Cons.prems(3) by simp
    show ?thesis
    proof (cases "ci < x")
      case True
      then have "x - ci = Suc (x - (ci + 1))" by simp
      then show ?thesis using s(4) x l True by (simp add: shifted_def qv_def del: upt_Suc)
    qed (use s(4) x l in \<open>auto simp: shifted_def simp del: upt_Suc\<close>)
  qed
  then show ?case using s q(1) by simp
qed

section \<open>The built tables\<close>

definition permutes :: "((nat \<Rightarrow> nat \<Rightarrow> bool) \<Rightarrow> nat list \<Rightarrow> nat list) \<Rightarrow> bool" where
  "permutes srt \<longleftrightarrow> (\<forall>lt xs. mset (srt lt xs) = mset xs)"

definition centers_ok :: "fl list list \<Rightarrow> bool" where
  "centers_ok cs \<longleftrightarrow> length cs = K \<and> (\<forall>c \<in> set cs. length c = 14 \<and> NaN \<notin> set c)"

definition arrsOf where
  "arrsOf srt centers vecs = sortClusters srt centers vecs (clusterIndex K (map (nearest_center centers) vecs))"

definition countsOf where
  "countsOf centers vecs = countClusters K (map (nearest_center centers) vecs)"

definition blocksPerOf where
  "blocksPerOf centers vecs = map blocksOf (countsOf centers vecs)"

lemma mset_concat_cong: "map mset xs = map mset ys \<Longrightarrow> mset (concat xs) = mset (concat ys)"
  by (simp add: mset_concat)

lemma arrs_facts:
  assumes "permutes srt" "centers_ok centers" "length vecs + 7 < 2 ^ 32"
  shows "length (arrsOf srt centers vecs) = K" "map length (arrsOf srt centers vecs) = countsOf centers vecs"
    "mset (concat (arrsOf srt centers vecs)) = mset [0..<length vecs]"
    "\<forall>arr \<in> set (arrsOf srt centers vecs). \<forall>i \<in> set arr. i < length vecs"
    "sum_list (countsOf centers vecs) = length vecs"
proof -
  let ?as = "map (nearest_center centers) vecs" and ?arrs = "arrsOf srt centers vecs"
  let ?idx = "clusterIndex K ?as"
  have "centers \<noteq> []" using assms(2) by (auto simp: centers_ok_def)
  then have "\<forall>a \<in> set ?as. a < K" using nearest_less [of centers] assms(2) by (auto simp: centers_ok_def)
  then have c: "countsOf centers vecs = map length ?idx" "mset (concat ?idx) = mset [0..<length vecs]"
    using clusters_spec [of ?as K] assms(3) by (simp_all add: countsOf_def)
  show "length ?arrs = K" by (simp add: arrsOf_def sortClusters_def)
  have m: "map mset ?arrs = map mset ?idx"
    using assms(1) by (intro nth_equalityI) (simp_all add: arrsOf_def sortClusters_def permutes_def)
  then have "map size (map mset ?arrs) = map size (map mset ?idx)" by simp
  then show "map length ?arrs = countsOf centers vecs" by (simp add: c(1) o_def)
  show ms: "mset (concat ?arrs) = mset [0..<length vecs]" using mset_concat_cong [OF m] c(2) by simp
  show "\<forall>arr \<in> set ?arrs. \<forall>i \<in> set arr. i < length vecs"
  proof (intro ballI)
    fix arr i assume "arr \<in> set ?arrs" "i \<in> set arr"
    then have "i \<in> set (concat ?arrs)" by auto
    then have "i \<in> set [0..<length vecs]" using ms by (metis mset_eq_setD)
    then show "i < length vecs" by simp
  qed
  show "sum_list (countsOf centers vecs) = length vecs"
    using arg_cong [OF c(2), of size] by (simp add: c(1) length_concat)
qed

lemma offs_facts:
  assumes "permutes srt" "centers_ok centers" "length vecs + 7 < 2 ^ 32"
  defines "bs \<equiv> blocksPerOf centers vecs"
  shows "length bs = K" "sum_list bs < 2 ^ 32" "totalOf bs = sum_list bs" "offs bs K = sum_list bs"
    "\<forall>c < K. offs bs c * 8 + length (arrsOf srt centers vecs ! c) \<le> offs bs (c + 1) * 8"
    "\<forall>c \<le> K. offsetsFrom 0 bs ! c = offs bs c" "\<forall>n \<in> set (countsOf centers vecs). n < 2 ^ 32"
proof -
  note a = arrs_facts [OF assms(1-3)]
  have lenc: "length (countsOf centers vecs) = K" using a(1,2) by (metis length_map)
  then show len: "length bs = K" by (simp add: bs_def blocksPerOf_def)
  have small: "\<forall>n \<in> set (countsOf centers vecs). n + 7 < 2 ^ 32"
    using a(5) assms(3) member_le_sum_list [of _ "countsOf centers vecs"] by fastforce
  then show "\<forall>n \<in> set (countsOf centers vecs). n < 2 ^ 32" by auto
  have "sum_list bs \<le> length vecs" using sum_blocks [OF small] a(5) by (simp add: bs_def blocksPerOf_def)
  then show s: "sum_list bs < 2 ^ 32" using assms(3) by simp
  then show "totalOf bs = sum_list bs" by (rule totalOf_sum)
  show "offs bs K = sum_list bs" using len by (simp add: offs_def)
  show "\<forall>c \<le> K. offsetsFrom 0 bs ! c = offs bs c" using offsetsFrom_nth [of 0 bs] s len by simp
  show "\<forall>c < K. offs bs c * 8 + length (arrsOf srt centers vecs ! c) \<le> offs bs (c + 1) * 8"
  proof (intro allI impI)
    fix c assume c: "c < K"
    have "length (arrsOf srt centers vecs ! c) = countsOf centers vecs ! c" using a(1,2) c by (metis nth_map)
    also have "\<dots> \<le> bs ! c * 8"
      using blocksOf_bounds small c lenc by (simp add: bs_def blocksPerOf_def)
    finally show "offs bs c * 8 + length (arrsOf srt centers vecs ! c) \<le> offs bs (c + 1) * 8"
      using offs_Suc [of c bs] c len by simp
  qed
qed

lemma pack_facts:
  assumes "permutes srt" "centers_ok centers" "train_ok vecs labels" "length vecs + 7 < 2 ^ 32"
  defines "bs \<equiv> blocksPerOf centers vecs" and "arrs \<equiv> arrsOf srt centers vecs"
  defines "st0 \<equiv> \<lparr>codes = replicate (totalOf bs * PADDED_DIMS * LANES) 0, lbls = replicate (totalOf bs * LANES) 0,
      bboxMin = replicate K (replicate PADDED_DIMS 32767), bboxMax = replicate K (replicate PADDED_DIMS (- 32768)),
      curBlock = take K (offsetsFrom 0 bs), curLane = replicate K 0\<rparr>"
  shows "\<exists>st. packClusters vecs labels 0 arrs st0 = Some st \<and> pack_ok (sum_list bs) K st \<and>
    (\<forall>c < K. \<forall>m < length (arrs ! c). laneOf (codes st) (offs bs c * 8 + m) = qv vecs (arrs ! c ! m) \<and>
       lbls st ! (offs bs c * 8 + m) = labels ! (arrs ! c ! m)) \<and>
    (\<forall>c < K. bboxMin st ! c = boxMin (replicate 16 32767) (map (qv vecs) (arrs ! c)) \<and>
       bboxMax st ! c = boxMax (replicate 16 (- 32768)) (map (qv vecs) (arrs ! c)))"
proof -
  note a = arrs_facts [OF assms(1,2,4), folded arrs_def]
  note o = offs_facts [OF assms(1,2,4), folded arrs_def bs_def]
  have "pack_ok (sum_list bs) K st0"
    using o(1,3) by (simp add: pack_ok_def st0_def in_range_def)
  moreover have "\<forall>d < length arrs. curBlock st0 ! (0 + d) = offs bs (0 + d) \<and> curLane st0 ! (0 + d) = 0 \<and>
      offs bs (0 + d) * 8 + length (arrs ! d) \<le> offs bs (0 + d + 1) * 8"
    using o(1,5,6) a(1) by (simp add: st0_def)
  ultimately obtain st where "packClusters vecs labels 0 arrs st0 = Some st \<and> pack_ok (sum_list bs) K st \<and>
      (\<forall>d < length arrs. \<forall>m < length (arrs ! d). laneOf (codes st) (offs bs (0 + d) * 8 + m) = qv vecs (arrs ! d ! m) \<and>
         lbls st ! (offs bs (0 + d) * 8 + m) = labels ! (arrs ! d ! m)) \<and>
      (\<forall>d < length arrs. bboxMin st ! (0 + d) = boxMin (bboxMin st0 ! (0 + d)) (map (qv vecs) (arrs ! d)) \<and>
         bboxMax st ! (0 + d) = boxMax (bboxMax st0 ! (0 + d)) (map (qv vecs) (arrs ! d)))"
    using packClusters_spec [OF assms(3) a(4), of "sum_list bs" K st0 0 "offs bs"] o(2,4) a(1) mono_offs
    by (auto simp: packed_def)
  then show ?thesis using a(1) by (intro exI [of _ st]) (simp add: st0_def)
qed

text \<open>What the tables hold: the quantized centers in their lanes, and per cluster the quantized rows
  and labels of its members from the first lane of its first block, with their bounding box.\<close>

definition layout_ok :: "fl list list \<Rightarrow> fl list list \<Rightarrow> nat list \<Rightarrow> nat list \<Rightarrow> nat list list \<Rightarrow> tables \<Rightarrow> bool" where
  "layout_ok centers vecs labels bs arrs t \<longleftrightarrow>
    tN t = length vecs \<and> tBlocks t = sum_list bs \<and> tOffsets t = offsetsFrom 0 bs \<and> tCounts t = map length arrs \<and>
    length (tCentroids t) = 65536 \<and> in_range (tCentroids t) \<and>
    (\<forall>c < K. laneOf (tCentroids t) c = qv centers c) \<and>
    length (tCodes t) = sum_list bs * 128 \<and> in_range (tCodes t) \<and>
    length (tLabels t) = sum_list bs * 8 \<and> (\<forall>l \<in> set (tLabels t). l \<le> 1) \<and>
    (\<forall>c < K. \<forall>m < length (arrs ! c). laneOf (tCodes t) (offs bs c * 8 + m) = qv vecs (arrs ! c ! m) \<and>
       tLabels t ! (offs bs c * 8 + m) = labels ! (arrs ! c ! m)) \<and>
    length (tMin t) = K \<and> length (tMax t) = K \<and>
    (\<forall>c < K. tMin t ! c = boxMin (replicate 16 32767) (map (qv vecs) (arrs ! c)) \<and>
       tMax t ! c = boxMax (replicate 16 (- 32768)) (map (qv vecs) (arrs ! c)))"

lemma build_facts:
  assumes "permutes srt" "centers_ok centers" "train_ok vecs labels" "length vecs + 7 < 2 ^ 32"
  defines "bs \<equiv> blocksPerOf centers vecs" and "arrs \<equiv> arrsOf srt centers vecs"
  shows "\<exists>t. buildTables srt centers vecs labels = Some t \<and>
    layout_ok centers vecs labels bs arrs t"
proof -
  note o = offs_facts [OF assms(1,2,4), folded arrs_def bs_def]
  obtain st where st: "packClusters vecs labels 0 arrs \<lparr>codes = replicate (totalOf bs * PADDED_DIMS * LANES) 0,
      lbls = replicate (totalOf bs * LANES) 0, bboxMin = replicate K (replicate PADDED_DIMS 32767),
      bboxMax = replicate K (replicate PADDED_DIMS (- 32768)), curBlock = take K (offsetsFrom 0 bs), curLane = replicate K 0\<rparr> = Some st"
    and ok: "pack_ok (sum_list bs) K st"
    and rows: "\<forall>c < K. \<forall>m < length (arrs ! c). laneOf (codes st) (offs bs c * 8 + m) = qv vecs (arrs ! c ! m) \<and>
       lbls st ! (offs bs c * 8 + m) = labels ! (arrs ! c ! m)"
    and box: "\<forall>c < K. bboxMin st ! c = boxMin (replicate 16 32767) (map (qv vecs) (arrs ! c)) \<and>
       bboxMax st ! c = boxMax (replicate 16 (- 32768)) (map (qv vecs) (arrs ! c))"
    using pack_facts [OF assms(1-4)] unfolding bs_def arrs_def by blast
  obtain soa where soa: "packCenters 0 centers (replicate 65536 0) = Some soa" "length soa = 65536" "in_range soa"
      "\<forall>x < 4096. laneOf soa x = shifted 0 [0..<length centers] (qv centers) (laneOf (replicate 65536 0)) x"
    using packCenters_spec [of centers 0 512 "replicate 65536 0"] assms(2) by (auto simp: centers_ok_def in_range_def)
  have lane: "\<forall>c < K. laneOf soa c = qv centers c" using soa(4) assms(2) by (simp add: shifted_def centers_ok_def)
  have n: "u32 (length vecs) = length vecs" using assms(4) by (simp add: u32_id)
  define t where "t = \<lparr>tN = length vecs, tBlocks = totalOf bs, tCentroids = soa, tMin = bboxMin st, tMax = bboxMax st,
      tOffsets = offsetsFrom 0 bs, tCounts = countsOf centers vecs, tCodes = codes st, tLabels = lbls st\<rparr>"
  have "buildTables srt centers vecs labels = Some t"
    using st soa(1)
    by (simp add: buildTables_def Let_def countsOf_def [symmetric] blocksPerOf_def [symmetric] arrsOf_def [symmetric]
        bs_def [symmetric] arrs_def [symmetric] t_def n)
  moreover have "countsOf centers vecs = map length arrs"
    using arrs_facts(2) [OF assms(1,2,4)] by (simp add: arrs_def)
  ultimately show ?thesis
    using soa(2,3) lane rows box ok o(3) by (intro exI [of _ t]) (simp add: t_def pack_ok_def layout_ok_def)
qed

section \<open>The built index\<close>

lemma box_facts:
  assumes "\<forall>q \<in> set qs. length q = 16 \<and> in_range q"
  defines "mn \<equiv> boxMin (replicate 16 32767) qs" and "mx \<equiv> boxMax (replicate 16 (- 32768)) qs"
  shows "length mn = 16" "length mx = 16" "i16_ok mn" "i16_ok mx"
    "j < 16 \<Longrightarrow> - 10000 \<le> mn ! j \<and> mx ! j \<le> 10000" "j < 16 \<Longrightarrow> q \<in> set qs \<Longrightarrow> mn ! j \<le> q ! j \<and> q ! j \<le> mx ! j"
proof -
  have b: "length mn = 16 \<and> mn ! j \<le> 32767 \<and> (\<forall>q \<in> set qs. mn ! j \<le> q ! j) \<and> - 10000 \<le> mn ! j"
    "length mx = 16 \<and> - 32768 \<le> mx ! j \<and> (\<forall>q \<in> set qs. q ! j \<le> mx ! j) \<and> mx ! j \<le> 10000" if "j < 16" for j
    using boxMin_le [of "replicate 16 32767" qs j] boxMax_ge [of "replicate 16 (- 32768)" qs j] assms that by simp_all
  show len: "length mn = 16" "length mx = 16" using b [of 0] by simp_all
  show "i16_ok mn" "i16_ok mx" using b len by (fastforce simp: i16_ok_def in_set_conv_nth)+
  show "j < 16 \<Longrightarrow> - 10000 \<le> mn ! j \<and> mx ! j \<le> 10000" "j < 16 \<Longrightarrow> q \<in> set qs \<Longrightarrow> mn ! j \<le> q ! j \<and> q ! j \<le> mx ! j"
    using b by auto
qed

lemma in_range_i16_ok: "in_range xs \<Longrightarrow> i16_ok xs"
  by (fastforce simp: in_range_def i16_ok_def)

lemma concat_boxes:
  assumes "length bss = K" "\<forall>c < K. length (bss ! c) = 16 \<and> i16_ok (bss ! c)"
  shows "length (concat bss) = K * 16" "i16_ok (concat bss)" "c < K \<Longrightarrow> i < 16 \<Longrightarrow> concat bss ! (c * 16 + i) = bss ! c ! i"
proof -
  have all: "\<forall>b \<in> set bss. length b = 16 \<and> i16_ok b" using assms by (metis in_set_conv_nth)
  then show "length (concat bss) = K * 16" using length_concat_chunks [of bss id 16] assms(1) by simp
  show "i16_ok (concat bss)" using all by (auto simp: i16_ok_def)
  show "c < K \<Longrightarrow> i < 16 \<Longrightarrow> concat bss ! (c * 16 + i) = bss ! c ! i"
    using nth_concat_chunks [of bss id 16 c i] all assms(1) by simp
qed

lemma offsets_small:
  assumes "sum_list bs < 2 ^ 32" "length bs = K"
  shows "\<forall>v \<in> set (offsetsFrom 0 bs). v < 2 ^ 32"
proof
  fix v assume "v \<in> set (offsetsFrom 0 bs)"
  then obtain i where "i \<le> length bs" "v = offsetsFrom 0 bs ! i" by (auto simp: in_set_conv_nth less_Suc_eq_le)
  then show "v < 2 ^ 32" using offsetsFrom_nth [of 0 bs i] offs_le [of bs i] assms(1) by simp
qed

lemma map_rows: "(\<And>m. m < length xs \<Longrightarrow> f (a + m) = g (xs ! m)) \<Longrightarrow> map f [a..<a + length xs] = map g xs"
  by (rule nth_equalityI) simp_all

text \<open>The shape of the clusters: every row number is a training vector's, and the blocks of a
  cluster hold its rows.\<close>

definition clusters_ok :: "fl list list \<Rightarrow> nat list \<Rightarrow> nat list list \<Rightarrow> bool" where
  "clusters_ok vecs bs arrs \<longleftrightarrow> length bs = K \<and> length arrs = K \<and> sum_list bs < 2 ^ 32 \<and> length vecs < 2 ^ 32 \<and>
     (\<forall>arr \<in> set arrs. \<forall>i \<in> set arr. i < length vecs) \<and> (\<forall>n \<in> set (map length arrs). n < 2 ^ 32) \<and>
     (\<forall>c < K. offs bs c * 8 + length (arrs ! c) \<le> offs bs (c + 1) * 8)"

lemma clusters_okI:
  assumes "permutes srt" "centers_ok centers" "length vecs + 7 < 2 ^ 32"
  shows "clusters_ok vecs (blocksPerOf centers vecs) (arrsOf srt centers vecs)"
  using arrs_facts [OF assms] offs_facts [OF assms] assms(3) by (simp add: clusters_ok_def)

lemma cluster_queries:
  assumes "clusters_ok vecs bs arrs" "train_ok vecs labels" "c < K"
  shows "\<forall>q \<in> set (map (qv vecs) (arrs ! c)). length q = 16 \<and> in_range q"
proof -
  have "arrs ! c \<in> set arrs" using assms(1,3) by (simp add: clusters_ok_def)
  then have "\<forall>i \<in> set (arrs ! c). i < length vecs" using assms(1) by (simp add: clusters_ok_def)
  then show ?thesis using Quantize_qv(2) [OF assms(2)] by (auto simp: query_ok_def)
qed

lemma layout_boxes:
  assumes "layout_ok centers vecs labels bs arrs t" "clusters_ok vecs bs arrs" "train_ok vecs labels"
  shows "length (concat (tMin t)) = K * 16" "i16_ok (concat (tMin t))" "length (concat (tMax t)) = K * 16" "i16_ok (concat (tMax t))"
    "c < K \<Longrightarrow> i < 16 \<Longrightarrow> - 10000 \<le> concat (tMin t) ! (c * 16 + i) \<and> concat (tMax t) ! (c * 16 + i) \<le> 10000"
    "c < K \<Longrightarrow> i < 16 \<Longrightarrow> r \<in> set (arrs ! c) \<Longrightarrow>
      concat (tMin t) ! (c * 16 + i) \<le> qv vecs r ! i \<and> qv vecs r ! i \<le> concat (tMax t) ! (c * 16 + i)"
proof -
  note qs = cluster_queries [OF assms(2,3)]
  have lm: "length (tMin t) = K" "length (tMax t) = K" using assms(1) by (simp_all add: layout_ok_def)
  have box: "tMin t ! c = boxMin (replicate 16 32767) (map (qv vecs) (arrs ! c))"
    "tMax t ! c = boxMax (replicate 16 (- 32768)) (map (qv vecs) (arrs ! c))" if "c < K" for c
    using assms(1) that by (simp_all add: layout_ok_def)
  have "\<forall>c < K. length (tMin t ! c) = 16 \<and> i16_ok (tMin t ! c)" "\<forall>c < K. length (tMax t ! c) = 16 \<and> i16_ok (tMax t ! c)"
    using box box_facts(1-4) [OF qs] by simp_all
  note cmin = concat_boxes [OF lm(1) this(1)] and cmax = concat_boxes [OF lm(2) this(2)]
  show "length (concat (tMin t)) = K * 16" "i16_ok (concat (tMin t))" "length (concat (tMax t)) = K * 16" "i16_ok (concat (tMax t))"
    using cmin(1,2) cmax(1,2) by simp_all
  show "c < K \<Longrightarrow> i < 16 \<Longrightarrow> - 10000 \<le> concat (tMin t) ! (c * 16 + i) \<and> concat (tMax t) ! (c * 16 + i) \<le> 10000"
    using cmin(3) cmax(3) box box_facts(5) [OF qs] by simp
  show "c < K \<Longrightarrow> i < 16 \<Longrightarrow> r \<in> set (arrs ! c) \<Longrightarrow>
      concat (tMin t) ! (c * 16 + i) \<le> qv vecs r ! i \<and> qv vecs r ! i \<le> concat (tMax t) ! (c * 16 + i)"
    using cmin(3) cmax(3) box box_facts(6) [OF qs] by simp
qed

lemma layout_tables_ok:
  assumes "layout_ok centers vecs labels bs arrs t" "clusters_ok vecs bs arrs" "train_ok vecs labels"
  shows "tables_ok t"
proof -
  have "\<forall>v \<in> set (offsetsFrom 0 bs). v < 2 ^ 32" using assms(2) by (intro offsets_small) (simp_all add: clusters_ok_def)
  then show ?thesis using assms(1,2) layout_boxes(1-4) [OF assms]
    by (simp add: tables_ok_def layout_ok_def clusters_ok_def in_range_i16_ok)
qed

lemma layout_rows:
  fixes d :: "nat list"
  assumes "layout_ok centers vecs labels bs arrs t" "clusters_ok vecs bs arrs" "c < K"
  defines "ix \<equiv> indexOf d t"
  shows "rows ix c = [offs bs c * 8..<offs bs c * 8 + length (arrs ! c)]"
    "BlockOffsets ix ! c = offs bs c" "BlockOffsets ix ! (c + 1) = offs bs (c + 1)" "Counts ix ! c = length (arrs ! c)"
    "map (\<lambda>j. (vecAt ix j, Labels ix ! j)) (rows ix c) = map (\<lambda>i. (qv vecs i, labels ! i)) (arrs ! c)"
proof -
  have f: "tOffsets t = offsetsFrom 0 bs" "tCounts t = map length arrs" using assms(1) by (simp_all add: layout_ok_def)
  have o: "offsetsFrom 0 bs ! c = offs bs c" if "c \<le> K" for c
    using offsetsFrom_nth [of 0 bs c] assms(2) that by (simp add: clusters_ok_def)
  show b: "BlockOffsets ix ! c = offs bs c" "BlockOffsets ix ! (c + 1) = offs bs (c + 1)" "Counts ix ! c = length (arrs ! c)"
    using o [of c] o [of "c + 1"] assms(2,3) by (simp_all add: ix_def indexOf_def f clusters_ok_def)
  then show r: "rows ix c = [offs bs c * 8..<offs bs c * 8 + length (arrs ! c)]" by (simp add: rows_def)
  have row: "laneOf (tCodes t) (offs bs c * 8 + m) = qv vecs (arrs ! c ! m) \<and>
      tLabels t ! (offs bs c * 8 + m) = labels ! (arrs ! c ! m)" if "m < length (arrs ! c)" for m
    using assms(1,3) that by (simp add: layout_ok_def)
  have "vecAt ix j = laneOf (tCodes t) j" "Labels ix ! j = tLabels t ! j" for j
    by (simp_all add: vecAt_def laneOf_def ix_def indexOf_def)
  then show "map (\<lambda>j. (vecAt ix j, Labels ix ! j)) (rows ix c) = map (\<lambda>i. (qv vecs i, labels ! i)) (arrs ! c)"
    unfolding r using row by (intro map_rows) simp
qed

lemma layout_wf_cluster:
  assumes "layout_ok centers vecs labels bs arrs t" "clusters_ok vecs bs arrs" "train_ok vecs labels" "c < K"
  shows "wf_cluster (indexOf d t) c"
proof -
  let ?ix = "indexOf d t"
  note r = layout_rows [OF assms(1,2,4), of d] and b = layout_boxes [OF assms(1-3)]
  have f: "BBoxMin ?ix = concat (tMin t)" "BBoxMax ?ix = concat (tMax t)" "IxNBlocks ?ix = sum_list bs"
    using assms(1) by (simp_all add: indexOf_def layout_ok_def)
  have "offs bs c \<le> offs bs (c + 1)" "offs bs (c + 1) \<le> sum_list bs"
    using mono_offs [of bs] offs_le by (simp_all add: monoD)
  moreover have "length (arrs ! c) \<le> 8 * (offs bs (c + 1) - offs bs c)" "length (arrs ! c) < 2 ^ 32"
    using assms(2,4) by (force simp: clusters_ok_def)+
  moreover have "in_box ?ix c (vecAt ?ix j)" if "j \<in> set (rows ?ix c)" for j
  proof -
    have "(vecAt ?ix j, Labels ?ix ! j) \<in> set (map (\<lambda>j. (vecAt ?ix j, Labels ?ix ! j)) (rows ?ix c))" using that by simp
    then obtain i where "i \<in> set (arrs ! c)" "vecAt ?ix j = qv vecs i" unfolding r(5) by auto
    then show ?thesis using b(6) [OF assms(4)] by (simp add: in_box_def f)
  qed
  moreover have "bbox_ok ?ix c" if "arrs ! c \<noteq> []"
  proof -
    have "hd (arrs ! c) \<in> set (arrs ! c)" using that by simp
    then have "\<forall>i<16. - 10000 \<le> concat (tMin t) ! (c * 16 + i) \<and> concat (tMin t) ! (c * 16 + i) \<le> concat (tMax t) ! (c * 16 + i) \<and>
        concat (tMax t) ! (c * 16 + i) \<le> 10000"
      using b(5,6) [OF assms(4)] by (meson order_trans)
    then show ?thesis using b(1,3) assms(4) by (simp add: bbox_ok_def f)
  qed
  ultimately show ?thesis unfolding wf_cluster_def r(2-4) f by simp
qed

lemma layout_wf:
  assumes "layout_ok centers vecs labels bs arrs t" "clusters_ok vecs bs arrs" "train_ok vecs labels"
  shows "wf_index (indexOf d t)"
  using assms(1,2) layout_wf_cluster [OF assms] by (simp add: wf_index_def indexOf_def layout_ok_def clusters_ok_def)

lemma build_index:
  assumes "permutes srt" "centers_ok centers" "train_ok vecs labels" "length vecs + 7 < 2 ^ 32"
  shows "\<exists>t ix. buildTables srt centers vecs labels = Some t \<and> Open (stored (indexFile t)) = Some (Inr ix) \<and>
    wf_index ix \<and> IxK ix = K \<and> (\<forall>c < K. vecOf (Centroids ix) (c div 8) (c mod 8) = qv centers c) \<and>
    mset (concat (map (\<lambda>c. map (\<lambda>j. (vecAt ix j, Labels ix ! j)) (rows ix c)) [0..<K])) =
      mset (map (\<lambda>i. (qv vecs i, labels ! i)) [0..<length vecs])"
proof -
  let ?arrs = "arrsOf srt centers vecs" and ?f = "\<lambda>i. (qv vecs i, labels ! i)"
  note cl = clusters_okI [OF assms(1,2,4)] and a = arrs_facts [OF assms(1,2,4)]
  obtain t where t: "buildTables srt centers vecs labels = Some t" "layout_ok centers vecs labels (blocksPerOf centers vecs) ?arrs t"
    using build_facts [OF assms] by blast
  define ix where "ix = indexOf (indexFile t) t"
  have "Open (stored (indexFile t)) = Some (Inr ix)"
    unfolding ix_def by (rule Open_indexFile [OF layout_tables_ok [OF t(2) cl assms(3)]])
  moreover have "wf_index ix" unfolding ix_def by (rule layout_wf [OF t(2) cl assms(3)])
  moreover have "\<forall>c < K. vecOf (Centroids ix) (c div 8) (c mod 8) = qv centers c"
    using t(2) by (simp add: layout_ok_def laneOf_def ix_def indexOf_def)
  moreover have "map (\<lambda>c. map (\<lambda>j. (vecAt ix j, Labels ix ! j)) (rows ix c)) [0..<K] = map (map ?f) ?arrs"
    using layout_rows(5) [OF t(2) cl] a(1) by (intro nth_equalityI) (simp_all add: ix_def)
  then have "mset (concat (map (\<lambda>c. map (\<lambda>j. (vecAt ix j, Labels ix ! j)) (rows ix c)) [0..<K])) = image_mset ?f (mset (concat ?arrs))"
    by (simp flip: map_concat)
  then have "mset (concat (map (\<lambda>c. map (\<lambda>j. (vecAt ix j, Labels ix ! j)) (rows ix c)) [0..<K])) = mset (map ?f [0..<length vecs])"
    using a(3) by simp
  moreover have "IxK ix = K" by (simp add: ix_def indexOf_def)
  ultimately show ?thesis using t(1) by blast
qed

definition train_cands :: "fl list list \<Rightarrow> nat list \<Rightarrow> int list \<Rightarrow> cand list" where
  "train_cands vecs labels q = map (\<lambda>i. (sqdist q (qv vecs i), labels ! i)) [0..<length vecs]"

lemma all_cands_trained:
  assumes "IxK ix = K"
    "mset (concat (map (\<lambda>c. map (\<lambda>j. (vecAt ix j, Labels ix ! j)) (rows ix c)) [0..<K])) =
      mset (map (\<lambda>i. (qv vecs i, labels ! i)) [0..<length vecs])"
  shows "mset (all_cands ix q) = mset (train_cands vecs labels q)"
proof -
  let ?g = "\<lambda>(v, l). (sqdist q v, l)"
  have "all_cands ix q = map ?g (concat (map (\<lambda>c. map (\<lambda>j. (vecAt ix j, Labels ix ! j)) (rows ix c)) [0..<K]))"
    by (simp add: all_cands_def cand_def [abs_def] candAt_def [abs_def] assms(1) map_concat o_def)
  then have "mset (all_cands ix q) = image_mset ?g (mset (map (\<lambda>i. (qv vecs i, labels ! i)) [0..<length vecs]))"
    by (simp only: mset_map assms(2))
  also have "\<dots> = mset (train_cands vecs labels q)" by (simp add: train_cands_def flip: mset_map) (simp add: o_def)
  finally show ?thesis .
qed

lemma trained_exact:
  assumes "permutes srt" "centers_ok centers" "train_ok vecs labels" "length vecs + 7 < 2 ^ 32"
  shows "\<exists>t ix. buildTables srt centers vecs labels = Some t \<and> Open (stored (indexFile t)) = Some (Inr ix) \<and> wf_index ix \<and>
    (\<forall>q. query_ok q \<longrightarrow> EarlyDist < fifth (train_cands vecs labels q) \<longrightarrow> length (within_fifth (train_cands vecs labels q)) \<le> 5 \<longrightarrow>
      search_spec ix q \<le> 4 \<longrightarrow> search_spec ix q = vote (train_cands vecs labels q))"
proof -
  obtain t ix where ix: "buildTables srt centers vecs labels = Some t" "Open (stored (indexFile t)) = Some (Inr ix)"
      "wf_index ix" "IxK ix = K"
      "mset (concat (map (\<lambda>c. map (\<lambda>j. (vecAt ix j, Labels ix ! j)) (rows ix c)) [0..<K])) =
        mset (map (\<lambda>i. (qv vecs i, labels ! i)) [0..<length vecs])"
    using build_index [OF assms] by blast
  have "search_spec ix q = vote (train_cands vecs labels q)"
    if q: "query_ok q" "EarlyDist < fifth (train_cands vecs labels q)"
      "length (within_fifth (train_cands vecs labels q)) \<le> 5" "search_spec ix q \<le> 4" for q
  proof -
    have perm: "mset (all_cands ix q) = mset (train_cands vecs labels q)" by (rule all_cands_trained [OF ix(4,5)])
    have "length (within_fifth (all_cands ix q)) = length (within_fifth (train_cands vecs labels q))"
      unfolding within_fifth_def fifth_perm [OF perm] by (metis perm mset_filter size_mset)
    then show ?thesis
      using search_spec_far [OF ix(3) q(1)] q(2-4) fifth_perm [OF perm] vote_perm [OF perm] by simp
  qed
  then show ?thesis using ix(1-3) by blast
qed

section \<open>Properties\<close>

text \<open>(C7) The builder and the reader fit together: for any training set of vectors without NaN and any
  centers, the tables are built without a panic, \<open>Open\<close> accepts the file written from them, and
  the index it returns is well formed, holds the quantized centers in order, and has as the rows
  of its clusters exactly the quantized training vectors with their labels, each once.\<close>

theorem built_index_wf:
  assumes "permutes srt" "centers_ok centers" "train_ok vecs labels" "length vecs + 7 < 2 ^ 32"
  shows "\<exists>t ix. buildTables srt centers vecs labels = Some t \<and> Open (stored (indexFile t)) = Some (Inr ix) \<and>
    wf_index ix \<and> IxK ix = 4096 \<and> (\<forall>c < 4096. vecOf (Centroids ix) (c div 8) (c mod 8) = qv centers c) \<and>
    mset (concat (map (\<lambda>c. map (\<lambda>j. (vecAt ix j, Labels ix ! j)) (rows ix c)) [0..<4096])) =
      mset (map (\<lambda>i. (qv vecs i, labels ! i)) [0..<length vecs])"
  using assms by (rule build_index)

section \<open>Witnesses\<close>

fun insert_by :: "(nat \<Rightarrow> nat \<Rightarrow> bool) \<Rightarrow> nat \<Rightarrow> nat list \<Rightarrow> nat list" where
  "insert_by lt x [] = [x]"
| "insert_by lt x (y # ys) = (if lt y x then y # insert_by lt x ys else x # y # ys)"

definition insertion_sort :: "(nat \<Rightarrow> nat \<Rightarrow> bool) \<Rightarrow> nat list \<Rightarrow> nat list" where
  "insertion_sort lt xs = foldr (insert_by lt) xs []"

lemma insertion_permutes: "permutes insertion_sort"
proof -
  have "mset (insert_by lt x ys) = add_mset x (mset ys)" for lt x ys by (induction ys) simp_all
  then have "mset (foldr (insert_by lt) xs []) = mset xs" for lt xs by (induction xs) simp_all
  then show ?thesis by (simp add: permutes_def insertion_sort_def)
qed

definition one_vec :: "fl list list" where
  "one_vec = [replicate 14 (Fin 1)]"

definition origin_centers :: "fl list list" where
  "origin_centers = replicate 4096 (replicate 14 (Fin 0))"

lemma one_ok: "train_ok one_vec [1]" "centers_ok origin_centers" "length one_vec + 7 < 2 ^ 32"
  by (simp_all add: train_ok_def one_vec_def centers_ok_def origin_centers_def)

theorem built_index_wf_witness:
  "\<exists>t ix. buildTables insertion_sort origin_centers one_vec [1] = Some t \<and> Open (stored (indexFile t)) = Some (Inr ix) \<and> wf_index ix"
  using built_index_wf [OF insertion_permutes one_ok(2,1,3)] by blast

end
