(* ===== verification/Train.thy ===== *)
theory Train
  imports BuildIndex
begin

text \<open>
  The training half of the index builder (\<open>cmd/buildindex/main.go\<close>): the random generator
  \<open>Rng\<close> and \<open>kmeansPlusPlus\<close>. Points are lists of fourteen floating-point numbers; an index out
  of range in a sample or a division by zero in \<open>pick\<close> is \<^const>\<open>None\<close>. The index \<open>best\<close> of \<open>addPoint\<close> is not checked:
  it is below the number of centers (\<open>closestFrom_less\<close>). The sum of squared errors is only
  logged and is left out.
\<close>

unbundle bit_operations_syntax

section \<open>The code\<close>

definition newRng :: "64 word \<Rightarrow> 64 word" where
  "newRng seed = (if seed = 0 then 1 else seed)"

definition rng_next :: "64 word \<Rightarrow> 64 word" where
  "rng_next r =
     (let x = r; x = x XOR push_bit 13 x; x = x XOR drop_bit 7 x; x = x XOR push_bit 17 x in x)"

definition pick :: "64 word \<Rightarrow> nat \<Rightarrow> (nat \<times> 64 word) option" where
  "pick r n = (if n = 0 then None else let x = rng_next r in Some (unat x mod n, x))"

definition rng_unit :: "64 word \<Rightarrow> fl \<times> 64 word" where
  "rng_unit r = (let x = rng_next r in (fl_div round64 (round64 (of_nat (unat (drop_bit 11 x)))) (Fin (2 ^ 53)), x))"

text \<open>One random element.\<close>

definition pickFrom :: "fl list list \<Rightarrow> 64 word \<Rightarrow> (fl list \<times> 64 word) option" where
  "pickFrom points r = do { (i, r') \<leftarrow> pick r (length points); p \<leftarrow> read_at points i; Some (p, r') }"

fun drawSample :: "fl list list \<Rightarrow> nat \<Rightarrow> 64 word \<Rightarrow> (fl list list \<times> 64 word) option" where
  "drawSample points 0 r = Some ([], r)"
| "drawSample points (Suc n) r =
     do { (p, r1) \<leftarrow> pickFrom points r; (ps, r2) \<leftarrow> drawSample points n r1; Some (p # ps, r2) }"

fun chooseFrom :: "fl \<Rightarrow> nat \<Rightarrow> fl \<Rightarrow> fl list \<Rightarrow> nat \<Rightarrow> nat" where
  "chooseFrom target i acc [] chosen = chosen"
| "chooseFrom target i acc (d # ds) chosen =
     (let acc' = fl_add round64 acc d in if fl_le target acc' then i else chooseFrom target (i + 1) acc' ds chosen)"

definition nextCenter :: "fl list list \<Rightarrow> fl list \<Rightarrow> 64 word \<Rightarrow> (fl list \<times> 64 word) option" where
  "nextCenter sample minDist r =
     (let sum = foldl (fl_add round64) (Fin 0) minDist in
      if fl_le sum (Fin 0) then pickFrom sample r
      else let (u, r') = rng_unit r; target = fl_mul round64 u sum
           in do { p \<leftarrow> read_at sample (chooseFrom target 0 (Fin 0) minDist (length sample - 1)); Some (p, r') })"

definition lowerDists :: "fl list list \<Rightarrow> fl list \<Rightarrow> fl list \<Rightarrow> fl list" where
  "lowerDists sample c minDist = map2 (\<lambda>s m. let d = dist2F32 s c in if fl_less d m then d else m) sample minDist"

fun seedCenters :: "fl list list \<Rightarrow> nat \<Rightarrow> fl list \<Rightarrow> 64 word \<Rightarrow> (fl list list \<times> 64 word) option" where
  "seedCenters sample 0 minDist r = Some ([], r)"
| "seedCenters sample (Suc n) minDist r =
     do {
       (c, r1) \<leftarrow> nextCenter sample minDist r;
       (cs, r2) \<leftarrow> seedCenters sample n (lowerDists sample c minDist) r1;
       Some (c # cs, r2)
     }"

fun closestFrom :: "nat \<Rightarrow> nat \<Rightarrow> fl \<Rightarrow> fl list list \<Rightarrow> fl list \<Rightarrow> nat" where
  "closestFrom ci best bd [] p = best"
| "closestFrom ci best bd (c # cs) p =
     (let d = dist2F32 p c
      in if fl_less d bd then closestFrom (ci + 1) ci d cs p else closestFrom (ci + 1) best bd cs p)"

definition addPoint :: "fl list list \<Rightarrow> fl list list \<times> nat list \<Rightarrow> fl list \<Rightarrow> fl list list \<times> nat list" where
  "addPoint centers st p =
     (case st of (tots, counts) \<Rightarrow>
        let best = closestFrom 0 0 (Inf False) centers p
        in (tots[best := map (\<lambda>j. fl_add round64 (tots ! best ! j) (p ! j)) [0..<DIMS]],
            counts[best := (counts ! best + 1) mod 2 ^ 64]))"

text \<open>The new centers: the mean of the points of a cluster, or a random point for an empty cluster.\<close>

fun recenter :: "fl list list \<Rightarrow> fl list list \<Rightarrow> nat list \<Rightarrow> 64 word \<Rightarrow> (fl list list \<times> 64 word) option" where
  "recenter sample (s # ss) (n # ns) r =
     do {
       (c, r1) \<leftarrow> (if n > 0 then
                     let inv' = fl_div round64 (Fin 1) (round64 (of_nat n))
                     in Some (map (\<lambda>j. fl_map round32 (fl_mul round64 (s ! j) inv')) [0..<DIMS], r)
                   else pickFrom sample r);
       (cs, r2) \<leftarrow> recenter sample ss ns r1;
       Some (c # cs, r2)
     }"
| "recenter sample _ _ r = Some ([], r)"

definition lloyd :: "fl list list \<Rightarrow> fl list list \<Rightarrow> 64 word \<Rightarrow> (fl list list \<times> 64 word) option" where
  "lloyd sample centers r =
     (case foldl (addPoint centers) (replicate (length centers) (replicate DIMS (Fin 0)), replicate (length centers) 0) sample of
        (tots, counts) \<Rightarrow> recenter sample tots counts r)"

fun lloydLoop :: "fl list list \<Rightarrow> nat \<Rightarrow> fl list list \<Rightarrow> 64 word \<Rightarrow> (fl list list \<times> 64 word) option" where
  "lloydLoop sample 0 centers r = Some (centers, r)"
| "lloydLoop sample (Suc it) centers r = do { (cs, r') \<leftarrow> lloyd sample centers r; lloydLoop sample it cs r' }"

definition kmeansPlusPlus :: "fl list list \<Rightarrow> nat \<Rightarrow> nat \<Rightarrow> fl list list option" where
  "kmeansPlusPlus points k iters =
     (if k = 0 then None else do {
       let rng = newRng 0xDEADBEEFCAFEBABE;
       let sampleN = (if 500000 > length points then length points else 500000);
       (sample, r1) \<leftarrow> drawSample points sampleN rng;
       (c0, r2) \<leftarrow> pickFrom sample r1;
       (cs, r3) \<leftarrow> seedCenters sample (k - 1) (map (\<lambda>s. dist2F32 s c0) sample) r2;
       (centers, r4) \<leftarrow> lloydLoop sample iters (c0 # cs) r3;
       Some centers
     })"

section \<open>The generator never sticks at zero\<close>

lemma push_fix_zero: "0 < n \<Longrightarrow> x XOR push_bit n x = 0 \<Longrightarrow> x = (0 :: 64 word)"
proof -
  assume n: "0 < n" and x: "x XOR push_bit n x = 0"
  have eq: "bit x i = bit (push_bit n x) i" if "i < 64" for i
    using arg_cong [OF x, of "\<lambda>w. bit w i"] that by (auto simp: bit_xor_iff)
  have "\<not> bit x i" for i
  proof (induction i rule: less_induct)
    case (less i)
    show ?case
    proof (cases "i < 64")
      case True
      then show ?thesis using eq [OF True] less [of "i - n"] n by (auto simp: bit_push_bit_iff)
    qed (use bit_imp_le_length in fastforce)
  qed
  then show "x = 0" by (simp add: bit_eq_iff)
qed

lemma drop_fix_zero: "0 < n \<Longrightarrow> x XOR drop_bit n x = 0 \<Longrightarrow> x = (0 :: 64 word)"
proof -
  assume n: "0 < n" and x: "x XOR drop_bit n x = 0"
  have eq: "bit x i = bit x (n + i)" for i
    using arg_cong [OF x, of "\<lambda>w. bit w i"] by (auto simp: bit_xor_iff bit_drop_bit_eq)
  have "\<not> bit x i" for i
  proof (induction "64 - i" arbitrary: i rule: less_induct)
    case less
    show ?case
    proof (cases "i < 64")
      case True
      then show ?thesis using eq [of i] less [of "n + i"] n by simp
    qed (use bit_imp_le_length in fastforce)
  qed
  then show "x = 0" by (simp add: bit_eq_iff)
qed

lemma rng_next_nonzero: "r \<noteq> 0 \<Longrightarrow> rng_next r \<noteq> 0"
proof
  assume r: "r \<noteq> 0" and z: "rng_next r = 0"
  let ?a = "r XOR push_bit 13 r"
  let ?b = "?a XOR drop_bit 7 ?a"
  have "?b XOR push_bit 17 ?b = 0" using z by (simp add: rng_next_def Let_def)
  then have "?b = 0" by (rule push_fix_zero [rotated]) simp
  then have "?a = 0" by (rule drop_fix_zero [rotated]) simp
  then have "r = 0" by (rule push_fix_zero [rotated]) simp
  then show False using r by simp
qed

section \<open>Training returns centers\<close>

definition point_ok :: "fl list \<Rightarrow> bool" where
  "point_ok p \<longleftrightarrow> length p = 14 \<and> (\<forall>x \<in> set p. \<exists>r. x = Fin r)"

definition center_ok :: "fl list \<Rightarrow> bool" where
  "center_ok c \<longleftrightarrow> length c = 14 \<and> NaN \<notin> set c"

lemma point_center: "point_ok p \<Longrightarrow> center_ok p"
  by (auto simp: point_ok_def center_ok_def)

lemma pickFrom_ok: "points \<noteq> [] \<Longrightarrow> \<exists>p r'. pickFrom points r = Some (p, r') \<and> p \<in> set points"
  by (simp add: pickFrom_def pick_def Let_def read_at_def)

lemma drawSample_ok:
  "points \<noteq> [] \<Longrightarrow> \<exists>ps r'. drawSample points n r = Some (ps, r') \<and> length ps = n \<and> set ps \<subseteq> set points"
proof (induction n arbitrary: r)
  case (Suc n)
  obtain p r1 where p: "pickFrom points r = Some (p, r1)" "p \<in> set points" using pickFrom_ok Suc.prems by blast
  obtain ps r2 where "drawSample points n r1 = Some (ps, r2)" "length ps = n" "set ps \<subseteq> set points"
    using Suc by blast
  then show ?case using p by simp
qed simp

lemma chooseFrom_less: "chosen < n \<Longrightarrow> i + length ds \<le> n \<Longrightarrow> chooseFrom t i acc ds chosen < n"
  by (induction ds arbitrary: i acc) (simp_all add: Let_def)

lemma nextCenter_ok:
  assumes "sample \<noteq> []" "length minDist = length sample"
  shows "\<exists>c r'. nextCenter sample minDist r = Some (c, r') \<and> c \<in> set sample"
proof -
  have "chooseFrom t 0 a minDist (length sample - 1) < length sample" for t a
    using assms by (intro chooseFrom_less) simp_all
  then show ?thesis
    using pickFrom_ok [OF assms(1), of r] by (auto simp: nextCenter_def Let_def read_at_def split: prod.split)
qed

lemma seedCenters_ok:
  assumes "sample \<noteq> []" "length minDist = length sample"
  shows "\<exists>cs r'. seedCenters sample n minDist r = Some (cs, r') \<and> length cs = n \<and> set cs \<subseteq> set sample"
  using assms(2)
proof (induction n arbitrary: minDist r)
  case (Suc n)
  obtain c r1 where c: "nextCenter sample minDist r = Some (c, r1)" "c \<in> set sample"
    using nextCenter_ok [OF assms(1) Suc.prems] by blast
  have "length (lowerDists sample c minDist) = length sample" using Suc.prems by (simp add: lowerDists_def)
  then obtain cs r2 where "seedCenters sample n (lowerDists sample c minDist) r1 = Some (cs, r2)" "length cs = n" "set cs \<subseteq> set sample"
    using Suc.IH by blast
  then show ?case using c by simp
qed simp

lemma closestFrom_less: "best < n \<Longrightarrow> ci + length cs \<le> n \<Longrightarrow> closestFrom ci best bd cs p < n"
  by (induction cs arbitrary: ci best bd) (simp_all add: Let_def)

definition sums_ok :: "nat \<Rightarrow> fl list list \<times> nat list \<Rightarrow> bool" where
  "sums_ok k st \<longleftrightarrow> length (fst st) = k \<and> length (snd st) = k \<and> (\<forall>t \<in> set (fst st). center_ok t) \<and>
     (\<forall>n \<in> set (snd st). n < 2 ^ 64)"

lemma round_not_NaN: "round64 x \<noteq> NaN" "round32 x \<noteq> NaN"
  by (simp_all add: round64_def round32_def roundTo_def Let_def)

lemma fl_add_not_NaN: "x \<noteq> NaN \<Longrightarrow> fl_add round64 x (Fin y) \<noteq> NaN"
  by (cases x) (simp_all add: round_not_NaN)

lemma addPoint_ok:
  assumes "sums_ok (length centers) st" "centers \<noteq> []" "point_ok p"
  shows "sums_ok (length centers) (addPoint centers st p)"
proof -
  obtain tots counts where st: "st = (tots, counts)" by force
  let ?b = "closestFrom 0 0 (Inf False) centers p"
  let ?t = "map (\<lambda>j. fl_add round64 (tots ! ?b ! j) (p ! j)) [0..<14]"
  have "?b < length centers" using assms(2) by (intro closestFrom_less) simp_all
  then have b: "?b < length tots" "center_ok (tots ! ?b)" using assms(1) by (simp_all add: sums_ok_def st)
  have "fl_add round64 (tots ! ?b ! j) (p ! j) \<noteq> NaN" if j: "j < 14" for j
  proof -
    have "tots ! ?b ! j \<in> set (tots ! ?b)" using b(2) j by (simp add: center_ok_def)
    then have "tots ! ?b ! j \<noteq> NaN" using b(2) by (metis center_ok_def)
    moreover obtain y where "p ! j = Fin y" using assms(3) j by (fastforce simp: point_ok_def)
    ultimately show ?thesis using fl_add_not_NaN by simp
  qed
  then have "center_ok ?t" by (force simp: center_ok_def)
  then have "\<forall>t \<in> set (tots[?b := ?t]). center_ok t"
    using assms(1) set_update_subset_insert [of tots ?b ?t] by (auto simp: sums_ok_def st)
  moreover have "\<forall>n \<in> set (counts[?b := (counts ! ?b + 1) mod 2 ^ 64]). n < 2 ^ 64"
    using assms(1) set_update_subset_insert [of counts ?b] by (fastforce simp: sums_ok_def st)
  ultimately show ?thesis using assms(1) by (simp add: sums_ok_def st addPoint_def Let_def)
qed

lemma roundVal_half:
  assumes "2 powi emin \<le> x" "1 \<le> p"
  shows "0 < x" "x / 2 < roundVal p emin x"
proof -
  show x: "0 < x" using assms(1) powi_pos [of emin] by linarith
  note fl = flog2_bounds [OF x]
  have "emin \<le> flog2 x"
  proof (rule ccontr)
    assume "\<not> emin \<le> flog2 x"
    then have "(2::rat) powi (flog2 x + 1) \<le> 2 powi emin" by (intro power_int_increasing) simp_all
    then show False using fl(2) assms(1) by simp
  qed
  then have "ulpExp p emin x \<le> flog2 x" using x assms(2) by (simp add: ulpExp_def)
  then have "of_int 1 * 2 powi flog2 x \<le> roundVal p emin x"
    using x fl(1) by (intro roundVal_bound(2)) simp_all
  moreover have "x < 2 * 2 powi flog2 x" using fl(2) by (simp add: power_int_add)
  ultimately show "x / 2 < roundVal p emin x" by simp
qed

lemma mean_factor:
  assumes "0 < n" "n < 2 ^ 64"
  shows "\<exists>y > 0. fl_div round64 (Fin 1) (round64 (of_nat n)) = Fin y"
proof -
  let ?x = "of_nat n :: rat" and ?e = "- 1022 :: int"
  have small: "(2::rat) powi ?e \<le> 2 powi (- 64)" "(2::rat) powi ?e \<le> 2 powi 0" by (intro power_int_increasing; simp)+
  have x1: "1 \<le> ?x" using assms(1) by simp
  have "?x \<le> of_nat (2 ^ 64)" using assms(2) by (simp only: of_nat_le_iff less_imp_le)
  then have x2: "\<bar>?x\<bar> \<le> 2 powi 64" by simp
  define r where "r = roundVal 53 ?e ?x"
  have r: "round64 ?x = Fin r" using x2 by (simp add: r_def round64_Fin)
  have "?x / 2 < r" unfolding r_def using x1 small(2) by (intro roundVal_half(2)) simp_all
  then have lo: "1 / 2 < r" using x1 by linarith
  have hi: "r \<le> 2 powi 64" using roundVal_abs_le [OF x2, of ?e 53] by (simp add: r_def)
  have "1 / r \<le> 2" using lo by (simp add: divide_le_eq)
  then have q2: "\<bar>1 / r\<bar> \<le> 2 ^ 64" using lo by simp
  have q1: "2 powi (- 64) \<le> 1 / r" using lo hi by (simp add: power_int_minus field_simps)
  have "(1 / r) / 2 < roundVal 53 ?e (1 / r)" using q1 small(1) by (intro roundVal_half(2)) simp_all
  moreover have "0 < (1 / r) / 2" using lo by simp
  ultimately have "0 < roundVal 53 ?e (1 / r)" by linarith
  then show ?thesis using r lo round64_Fin [OF q2] by simp
qed

lemma mean_not_NaN:
  assumes "0 < n" "n < 2 ^ 64" "x \<noteq> NaN"
  shows "fl_map round32 (fl_mul round64 x (fl_div round64 (Fin 1) (round64 (of_nat n)))) \<noteq> NaN"
proof -
  obtain y where y: "0 < y" "fl_div round64 (Fin 1) (round64 (of_nat n)) = Fin y" using mean_factor [OF assms(1,2)] by blast
  have "fl_mul round64 x (Fin y) \<noteq> NaN" using assms(3) y(1) by (cases x) (simp_all add: round_not_NaN)
  then show ?thesis unfolding y(2) by (cases "fl_mul round64 x (Fin y)") (simp_all add: round_not_NaN)
qed

lemma recenter_ok:
  assumes "length ss = length ns" "\<forall>t \<in> set ss. center_ok t" "\<forall>n \<in> set ns. n < 2 ^ 64"
    "sample \<noteq> []" "\<forall>p \<in> set sample. point_ok p"
  shows "\<exists>cs r'. recenter sample ss ns r = Some (cs, r') \<and> length cs = length ss \<and> (\<forall>c \<in> set cs. center_ok c)"
  using assms(1-3)
proof (induction ss ns arbitrary: r rule: list_induct2)
  case (Cons t ss n ns)
  have "\<exists>c r1. (if n > 0 then
        let inv' = fl_div round64 (Fin 1) (round64 (of_nat n))
        in Some (map (\<lambda>j. fl_map round32 (fl_mul round64 (t ! j) inv')) [0..<14], r)
      else pickFrom sample r) = Some (c, r1) \<and> center_ok c"
  proof (cases "n > 0")
    case True
    have t: "length t = 14" "NaN \<notin> set t" using Cons.prems(1) by (simp_all add: center_ok_def)
    have "t ! j \<noteq> NaN" if j: "j < 14" for j using t nth_mem [of j t] j by metis
    then show ?thesis using True mean_not_NaN [OF True] Cons.prems(2) by (force simp: center_ok_def Let_def)
  next
    case False
    then show ?thesis using pickFrom_ok [OF assms(4), of r] assms(5) point_center by auto
  qed
  then obtain c r1 where c: "(if n > 0 then
        let inv' = fl_div round64 (Fin 1) (round64 (of_nat n))
        in Some (map (\<lambda>j. fl_map round32 (fl_mul round64 (t ! j) inv')) [0..<14], r)
      else pickFrom sample r) = Some (c, r1)" "center_ok c" by blast
  obtain cs r2 where cs: "recenter sample ss ns r1 = Some (cs, r2)" "length cs = length ss" "\<forall>c \<in> set cs. center_ok c"
    using Cons.IH [of r1] Cons.prems by auto
  have "recenter sample (t # ss) (n # ns) r = Some (c # cs, r2)"
    by (simp only: recenter.simps c(1) cs(1) Option.bind.simps prod.case)
  then show ?case using c(2) cs(2,3) by simp
qed simp

lemma lloyd_ok:
  assumes "centers \<noteq> []" "sample \<noteq> []" "\<forall>p \<in> set sample. point_ok p"
  shows "\<exists>cs r'. lloyd sample centers r = Some (cs, r') \<and> length cs = length centers \<and> (\<forall>c \<in> set cs. center_ok c)"
proof -
  let ?k = "length centers"
  have "sums_ok ?k (foldl (addPoint centers) st ps)" if "sums_ok ?k st" "set ps \<subseteq> set sample" for st ps
    using that
  proof (induction ps arbitrary: st)
    case (Cons p ps)
    then show ?case using addPoint_ok [OF Cons.prems(1) assms(1), of p] assms(3) by simp
  qed simp
  moreover have "sums_ok ?k (replicate ?k (replicate 14 (Fin 0)), replicate ?k 0)"
    by (simp add: sums_ok_def center_ok_def)
  ultimately have ok: "sums_ok ?k (foldl (addPoint centers) (replicate ?k (replicate 14 (Fin 0)), replicate ?k 0) sample)" by blast
  obtain tots counts where st: "foldl (addPoint centers) (replicate ?k (replicate 14 (Fin 0)), replicate ?k 0) sample = (tots, counts)"
    by force
  show ?thesis using recenter_ok [of tots counts sample r] ok assms(2,3) by (simp add: lloyd_def st sums_ok_def)
qed

lemma lloydLoop_ok:
  assumes "centers \<noteq> []" "sample \<noteq> []" "\<forall>p \<in> set sample. point_ok p" "\<forall>c \<in> set centers. center_ok c"
  shows "\<exists>cs r'. lloydLoop sample it centers r = Some (cs, r') \<and> length cs = length centers \<and> (\<forall>c \<in> set cs. center_ok c)"
  using assms(1,4)
proof (induction it arbitrary: centers r)
  case (Suc it)
  obtain cs r' where cs: "lloyd sample centers r = Some (cs, r')" "length cs = length centers" "\<forall>c \<in> set cs. center_ok c"
    using lloyd_ok [OF Suc.prems(1) assms(2,3)] by blast
  have "cs \<noteq> []" using cs(2) Suc.prems(1) by auto
  then show ?case using Suc.IH [OF _ cs(3), of r'] cs(1,2) by auto
qed simp

lemma kmeans_ok:
  assumes "points \<noteq> []" "\<forall>p \<in> set points. point_ok p" "0 < k"
  shows "\<exists>cs. kmeansPlusPlus points k iters = Some cs \<and> length cs = k \<and> (\<forall>c \<in> set cs. center_ok c)"
proof -
  define n where "n = (if 500000 > length points then length points else 500000)"
  obtain sample r1 where s: "drawSample points n (newRng 0xDEADBEEFCAFEBABE) = Some (sample, r1)" "length sample = n" "set sample \<subseteq> set points"
    using drawSample_ok [OF assms(1)] by blast
  have ne: "sample \<noteq> []" using s(2) assms(1) by (auto simp: n_def split: if_splits)
  have ok: "\<forall>p \<in> set sample. point_ok p" using s(3) assms(2) by auto
  obtain c0 r2 where c0: "pickFrom sample r1 = Some (c0, r2)" "c0 \<in> set sample" using pickFrom_ok [OF ne] by blast
  obtain cs r3 where cs: "seedCenters sample (k - 1) (map (\<lambda>s. dist2F32 s c0) sample) r2 = Some (cs, r3)" "length cs = k - 1"
      "set cs \<subseteq> set sample"
    using seedCenters_ok [OF ne, of "map (\<lambda>s. dist2F32 s c0) sample" "k - 1" r2] by fastforce
  have "\<forall>c \<in> set (c0 # cs). center_ok c" using c0(2) cs(3) ok point_center by auto
  then obtain cs' r4 where "lloydLoop sample iters (c0 # cs) r3 = Some (cs', r4)" "length cs' = length (c0 # cs)" "\<forall>c \<in> set cs'. center_ok c"
    using lloydLoop_ok [of "c0 # cs" sample iters r3] ne ok by blast
  then show ?thesis
    using s(1) c0(1) cs(1,2) assms(3) by (simp add: kmeansPlusPlus_def Let_def n_def [symmetric])
qed

section \<open>Properties\<close>

text \<open>(C18) Training always ends and gives as many centers as asked for: from at least one finite training
  vector, \<open>kmeansPlusPlus\<close> runs without a panic for every number of rounds and returns \<open>k\<close>
  centers of fourteen numbers, none of them NaN, so that they can be packed into the index.\<close>

theorem kmeans_total:
  assumes "points \<noteq> []" "\<forall>p \<in> set points. point_ok p" "0 < k"
  shows "\<exists>cs. kmeansPlusPlus points k iters = Some cs \<and> length cs = k \<and> (\<forall>c \<in> set cs. center_ok c)"
  using assms by (rule kmeans_ok)

text \<open>The generator never gets stuck: started from any seed, no state it reaches is zero, the one
  fixed point of the shift steps.\<close>

theorem rng_never_zero: "(rng_next ^^ n) (newRng seed) \<noteq> 0"
  by (induction n) (simp_all add: newRng_def rng_next_nonzero)

section \<open>Witnesses\<close>

theorem kmeans_total_witness:
  "\<exists>cs. kmeansPlusPlus one_vec 4096 15 = Some cs \<and> length cs = 4096 \<and> (\<forall>c \<in> set cs. center_ok c)"
  by (rule kmeans_total) (simp_all add: one_vec_def point_ok_def)

end
