(* ===== verification/BuildMain.thy ===== *)
theory BuildMain
  imports RefParse Train
begin

text \<open>
  \<open>main\<close> of the index builder (\<open>cmd/buildindex/main.go\<close>), over the reader of the training file
  (\<open>RefParse\<close>), the training (\<open>Train\<close>) and the packing (\<open>BuildIndex\<close>). The environment
  variables, the file system and \<open>sort.Slice\<close> are parameters: \<open>getenv\<close> gives the value of a
  variable, \<open>readFile\<close> the content of a readable file, \<open>writable\<close> says where a file can be
  created and written. \<open>log.Fatalf\<close> ends the program with \<open>Fatal\<close>; a panic is \<^const>\<open>None\<close>.
\<close>

section \<open>The code\<close>

datatype build_end = Fatal bytes | Wrote bytes "nat list"

definition buildindex_main ::
  "(bytes \<Rightarrow> bytes) \<Rightarrow> (bytes \<Rightarrow> bytes option) \<Rightarrow> (bytes \<Rightarrow> bool) \<Rightarrow> (bytes \<Rightarrow> fl option) \<Rightarrow>
   ((nat \<Rightarrow> nat \<Rightarrow> bool) \<Rightarrow> nat list \<Rightarrow> nat list) \<Rightarrow> build_end option" where
  "buildindex_main getenv readFile writable other srt =
     (let inPath = getenv ''INPUT''; outPath = getenv ''OUTPUT'' in
      if inPath = [] \<or> outPath = [] then Some (Fatal ''set INPUT and OUTPUT'')
      else case readFile inPath of
          None \<Rightarrow> Some (Fatal ''read'')
        | Some buf \<Rightarrow>
            do {
              (vecs, labels) \<leftarrow> parseAll True other buf;
              if vecs = [] then Some (Fatal ''no vectors'')
              else do {
                centers \<leftarrow> kmeansPlusPlus vecs K 15;
                t \<leftarrow> buildTables srt centers vecs labels;
                Some (if writable outPath then Wrote outPath (indexFile t) else Fatal ''create'')
              }
            })"

section \<open>What it writes\<close>

lemma train_okI: "refs_ok vecs labels \<Longrightarrow> \<forall>v \<in> set vecs. point_ok v \<Longrightarrow> train_ok vecs labels"
  by (auto simp: refs_ok_def train_ok_def point_ok_def)

lemma main_builds:
  assumes "getenv ''INPUT'' \<noteq> []" "getenv ''OUTPUT'' \<noteq> []" "readFile (getenv ''INPUT'') = Some buf"
    "writable (getenv ''OUTPUT'')" "parseAll True other buf = Some (vecs, labels)" "vecs \<noteq> []" "\<forall>v \<in> set vecs. point_ok v"
    "length vecs + 7 < 2 ^ 32" "permutes srt"
  shows "\<exists>centers t. centers_ok centers \<and> kmeansPlusPlus vecs K 15 = Some centers \<and> buildTables srt centers vecs labels = Some t \<and>
    buildindex_main getenv readFile writable other srt = Some (Wrote (getenv ''OUTPUT'') (indexFile t))"
proof -
  obtain centers where c: "kmeansPlusPlus vecs K 15 = Some centers" "length centers = K" "\<forall>c \<in> set centers. center_ok c"
    using kmeans_ok [OF assms(6,7), of K 15] by auto
  then have ok: "centers_ok centers" by (auto simp: centers_ok_def center_ok_def)
  have "train_ok vecs labels" using train_okI parseAll_ok [OF assms(5)] assms(7) by blast
  then obtain t where "buildTables srt centers vecs labels = Some t"
    using build_index [OF assms(9) ok _ assms(8)] by blast
  then show ?thesis using c(1) ok assms by (simp add: buildindex_main_def)
qed

definition finite_row :: "bytes list \<times> bool \<Rightarrow> bool" where
  "finite_row e \<longleftrightarrow> row_ok e \<and> list_all (\<lambda>t. \<exists>r. numeral_val t = Fin r) (fst e)"

definition vecs_of :: "(bytes list \<times> bool) list \<Rightarrow> fl list list" where
  "vecs_of es = map (\<lambda>e. map numeral_val (fst e)) es"

definition labels_of :: "(bytes list \<times> bool) list \<Rightarrow> nat list" where
  "labels_of es = map (\<lambda>e. if snd e then 1 else 0) es"

lemma parsed_rows:
  assumes "list_all finite_row es"
  shows "parseAll slack other (file_text es) = Some (vecs_of es, labels_of es)" "\<forall>v \<in> set (vecs_of es). point_ok v"
    "train_ok (vecs_of es) (labels_of es)"
proof -
  have "list_all row_ok es" using assms by (simp add: list_all_iff finite_row_def)
  then show p: "parseAll slack other (file_text es) = Some (vecs_of es, labels_of es)" for slack other
    by (simp add: parseAll_text vecs_of_def labels_of_def)
  show v: "\<forall>v \<in> set (vecs_of es). point_ok v"
    using assms by (auto simp: list_all_iff finite_row_def vecs_of_def point_ok_def row_ok_def)
  show "train_ok (vecs_of es) (labels_of es)" by (rule train_okI [OF parseAll_ok [OF p] v])
qed

lemma references_index:
  assumes "getenv ''INPUT'' \<noteq> []" "getenv ''OUTPUT'' \<noteq> []" "readFile (getenv ''INPUT'') = Some (file_text es)"
    "writable (getenv ''OUTPUT'')" "es \<noteq> []" "list_all finite_row es" "length es + 7 < 2 ^ 32" "permutes srt"
  shows "\<exists>file ix. buildindex_main getenv readFile writable other srt = Some (Wrote (getenv ''OUTPUT'') file) \<and>
    Open (stored file) = Some (Inr ix) \<and> wf_index ix \<and>
    (\<forall>q. query_ok q \<longrightarrow> EarlyDist < fifth (train_cands (vecs_of es) (labels_of es) q) \<longrightarrow>
      length (within_fifth (train_cands (vecs_of es) (labels_of es) q)) \<le> 5 \<longrightarrow>
      search_spec ix q \<le> 4 \<longrightarrow> search_spec ix q = vote (train_cands (vecs_of es) (labels_of es) q))"
proof -
  note p = parsed_rows [OF assms(6)]
  have ne: "vecs_of es \<noteq> []" and len: "length (vecs_of es) + 7 < 2 ^ 32" using assms(5,7) by (simp_all add: vecs_of_def)
  obtain centers t where t: "centers_ok centers" "buildTables srt centers (vecs_of es) (labels_of es) = Some t"
      "buildindex_main getenv readFile writable other srt = Some (Wrote (getenv ''OUTPUT'') (indexFile t))"
    using main_builds [of getenv readFile "file_text es" writable other, OF assms(1-4) p(1) ne p(2) len assms(8)] by blast
  show ?thesis using trained_exact [OF assms(8) t(1) p(3) len] t(2,3) by auto
qed

section \<open>Properties\<close>

text \<open>(C5) From the training file to the answer of the search: from a printed training file of at least
  one entry with finite numbers, the builder writes an index file without a panic or a fatal
  error, \<open>Open\<close> accepts the file, the index is well formed, and the search of the amd64 build
  answers every query with at most five. When the fifth nearest training vector is farther than
  \<open>EarlyDist\<close> and not tied with a sixth, an answer of at most four is the number of frauds among
  the five nearest vectors of the training file.\<close>

theorem references_to_answer:
  assumes "getenv ''INPUT'' \<noteq> []" "getenv ''OUTPUT'' \<noteq> []" "readFile (getenv ''INPUT'') = Some (file_text es)"
    "writable (getenv ''OUTPUT'')" "es \<noteq> []" "list_all finite_row es" "length es + 7 < 2 ^ 32" "permutes srt" "query_ok q"
  shows "\<exists>file ix r. buildindex_main getenv readFile writable other srt = Some (Wrote (getenv ''OUTPUT'') file) \<and>
    Open (stored file) = Some (Inr ix) \<and> wf_index ix \<and> ScoreQ amd64 ix q = Some r \<and> r \<le> 5 \<and>
    (EarlyDist < fifth (train_cands (vecs_of es) (labels_of es) q) \<longrightarrow>
     length (within_fifth (train_cands (vecs_of es) (labels_of es) q)) \<le> 5 \<longrightarrow>
     r \<le> 4 \<longrightarrow> r = vote (train_cands (vecs_of es) (labels_of es) q))"
proof -
  obtain img ix where f: "buildindex_main getenv readFile writable other srt = Some (Wrote (getenv ''OUTPUT'') img)"
      "Open (stored img) = Some (Inr ix)" "wf_index ix"
      "EarlyDist < fifth (train_cands (vecs_of es) (labels_of es) q) \<longrightarrow>
        length (within_fifth (train_cands (vecs_of es) (labels_of es) q)) \<le> 5 \<longrightarrow>
        search_spec ix q \<le> 4 \<longrightarrow> search_spec ix q = vote (train_cands (vecs_of es) (labels_of es) q)"
    using references_index [of getenv readFile es writable srt other, OF assms(1-8)] assms(9) by blast
  then show ?thesis using avx2.ScoreQ_spec [OF f(3) assms(9)] search_spec_le [OF f(3) assms(9)] by blast
qed

section \<open>Witnesses\<close>

definition env_ex :: "bytes \<Rightarrow> bytes" where
  "env_ex k = (if k = ''INPUT'' then ''refs.json'' else if k = ''OUTPUT'' then ''index.bin'' else [])"

theorem references_to_answer_witness:
  "\<exists>file ix r. buildindex_main env_ex (\<lambda>p. Some (file_text [row_one])) (\<lambda>p. True) (\<lambda>t. None) insertion_sort
      = Some (Wrote ''index.bin'' file) \<and>
    Open (stored file) = Some (Inr ix) \<and> wf_index ix \<and> ScoreQ amd64 ix q_origin = Some r \<and> r \<le> 5"
proof -
  have "list_all finite_row [row_one]"
    using row_one_ok numeral_one(2) by (simp add: finite_row_def) (simp add: row_one_def list_all_iff)
  from references_to_answer [of env_ex "\<lambda>p. Some (file_text [row_one])" "[row_one]" "\<lambda>p. True", OF _ _ _ _ _ this _ insertion_permutes origin_ok]
  show ?thesis by (simp add: env_ex_def) blast
qed

end
