(* ===== verification/Startup.thy ===== *)
theory Startup
  imports Lb_Main Train
begin

text \<open>
  How the API process starts: \<open>main\<close>, \<open>warmup\<close> and \<open>runTCP\<close> (\<open>cmd/api/main.go\<close>), with the calls that tune the
  process (\<open>cmd/api/sched_linux.go\<close>, \<open>mlockAll\<close> of \<open>cmd/api/ctrl_linux.go\<close>).

  The environment is a function from names to values, empty when a variable is not set. The
  clock of \<open>warmup\<close> is the list \<open>ticks\<close> of the values \<open>time.Since(t0)\<close> takes in nanoseconds, one per
  look at it; a list that has run out stands for a warm-up that is still going on. The tuning calls
  do not change what the process computes and their errors are ignored; they are a list of their own.
\<close>

unbundle bit_operations_syntax

section \<open>The API process\<close>

definition envOr :: "bytes \<Rightarrow> bytes \<Rightarrow> bytes" where
  "envOr v d = (if v = [] then d else v)"

definition api_envInt :: "bytes \<Rightarrow> int \<Rightarrow> int" where
  "api_envInt v d = (if v = [] then d else case Atoi v of None \<Rightarrow> d | Some n \<Rightarrow> n)"

lemma api_envInt [simp]: "api_envInt = envInt"
  by (simp add: fun_eq_iff api_envInt_def envInt_def)

definition mlockEnabled :: "bytes \<Rightarrow> bool" where
  "mlockEnabled v = (if v = [] then True else v \<noteq> ''0'')"

definition Score :: "kernel \<Rightarrow> Index \<Rightarrow> fl list \<Rightarrow> nat option" where
  "Score kern ix q = do { qq \<leftarrow> Quantize q; ScoreQ kern ix qq }"

definition warmNext :: "64 word \<Rightarrow> 64 word" where
  "warmNext r =
     (let r = r XOR push_bit 13 r; r = r XOR drop_bit 7 r; r = r XOR push_bit 17 r in r)"

definition warmFloat :: "64 word \<Rightarrow> fl" where
  "warmFloat r = fl_div round32 (round32 (of_int (wrap32 (int (unat (drop_bit 32 r)))))) (Fin (2 ^ 31))"

fun warmVec :: "nat \<Rightarrow> 64 word \<Rightarrow> fl list \<times> 64 word" where
  "warmVec 0 r = ([], r)"
| "warmVec (Suc n) r = (let r' = warmNext r; (q, r2) = warmVec n r' in (warmFloat r' # q, r2))"

fun warmBatch :: "kernel \<Rightarrow> Index \<Rightarrow> nat \<Rightarrow> 64 word \<Rightarrow> 64 word option" where
  "warmBatch kern ix 0 r = Some r"
| "warmBatch kern ix (Suc k) r =
     (let (q, r') = warmVec DIMS r in do { s \<leftarrow> Score kern ix q; warmBatch kern ix k r' })"

text \<open>The number of searches and whether the loop has ended.\<close>

fun warmLoop :: "kernel \<Rightarrow> Index \<Rightarrow> int \<Rightarrow> int list \<Rightarrow> 64 word \<Rightarrow> nat \<Rightarrow> (nat \<times> bool) option" where
  "warmLoop kern ix d [] r iters = Some (iters, False)"
| "warmLoop kern ix d (t # ticks) r iters =
     (if t \<ge> d then Some (iters, True)
      else do { r' \<leftarrow> warmBatch kern ix 64 r; warmLoop kern ix d ticks r' (iters + 64) })"

definition warmup :: "kernel \<Rightarrow> Index \<Rightarrow> int \<Rightarrow> 64 word \<Rightarrow> int list \<Rightarrow> (nat \<times> bool) option" where
  "warmup kern ix d now ticks =
     (if d \<le> 0 then Some (0, True) else warmLoop kern ix d ticks (now OR 1) 0)"

datatype api_run = OpenFailed OpenError | Warming | ServeCtrl Index bytes bool | ServeTCP Index bytes bool

definition api_main :: "kernel \<Rightarrow> (bytes \<Rightarrow> bytes) \<Rightarrow> (bytes \<Rightarrow> os_file) \<Rightarrow> 64 word \<Rightarrow> int list \<Rightarrow> api_run option" where
  "api_main kern getenv file now ticks =
     do {
       r \<leftarrow> Open (file (envOr (getenv ''INDEX_PATH'') ''/data/index.bin''));
       (case r of
          Inl e \<Rightarrow> Some (OpenFailed e)
        | Inr ix \<Rightarrow>
            do {
              let mlocked = mlockEnabled (getenv ''MLOCK'');
              let warmupMs = api_envInt (getenv ''WARMUP_MS'') 700;
              (iters, ended) \<leftarrow> warmup kern ix (wrap64 (warmupMs * 1000000)) now ticks;
              let ctrl = getenv ''CTRL_SOCK_PATH'';
              Some (if \<not> ended then Warming
                    else if ctrl \<noteq> [] then ServeCtrl ix ctrl mlocked
                    else ServeTCP ix ('':'' @ envOr (getenv ''PORT'') ''9999'') mlocked)
            })
     }"

text \<open>The calls \<open>main\<close> makes to tune the process: timer slack (\<open>PR_SET_TIMERSLACK\<close> is 29), the scheduler when it is
  asked for, and \<open>mlockall\<close> of what is and will be mapped, once the index is open.\<close>

definition applyLowLatencyTuning :: "bytes \<Rightarrow> sys list" where
  "applyLowLatencyTuning v = [Prctl 29 1] @ (if v \<noteq> ''1'' then [] else [SchedSetscheduler 1 10])"

definition mlockAll :: "sys list" where
  "mlockAll = [Mlockall (1 OR 2)]"

definition tuningCalls :: "(bytes \<Rightarrow> bytes) \<Rightarrow> (bytes \<Rightarrow> os_file) \<Rightarrow> sys list" where
  "tuningCalls getenv file = applyLowLatencyTuning (getenv ''SCHED_FIFO'') @
     (case Open (file (envOr (getenv ''INDEX_PATH'') ''/data/index.bin'')) of
        Some (Inr ix) \<Rightarrow> if mlockEnabled (getenv ''MLOCK'') then mlockAll else []
      | _ \<Rightarrow> [])"

text \<open>The accept loop of \<open>runTCP\<close>: a failed accept is logged and skipped, every connection gets a handler. Without a
  listener the process ends.\<close>

datatype tcp_accept = AcceptErr | Accepted bytes "rd list" "wr list"

fun tcpLoop :: "kernel \<Rightarrow> Index \<Rightarrow> tcp_accept list \<Rightarrow> (bytes \<times> status) list" where
  "tcpLoop kern ix [] = []"
| "tcpLoop kern ix (AcceptErr # as) = tcpLoop kern ix as"
| "tcpLoop kern ix (Accepted inp rs ws # as) = handleConn kern ix inp rs ws # tcpLoop kern ix as"

datatype tcp_end = TcpListenFailed | Served "(bytes \<times> status) list"

definition runTCP :: "kernel \<Rightarrow> Index \<Rightarrow> bool \<Rightarrow> tcp_accept list \<Rightarrow> tcp_end" where
  "runTCP kern ix listening as = (if \<not> listening then TcpListenFailed else Served (tcpLoop kern ix as))"

section \<open>The warm-up never fails\<close>

lemma warmFloat_not_NaN: "warmFloat r \<noteq> NaN"
  unfolding warmFloat_def
  by (cases "round32 (of_int (wrap32 (int (unat (drop_bit 32 r)))))") (simp_all add: round_not_NaN)

lemma warmVec_ok: "length (fst (warmVec n r)) = n \<and> NaN \<notin> set (fst (warmVec n r))"
proof (induction n arbitrary: r)
  case (Suc n)
  show ?case using Suc.IH [of "warmNext r"] warmFloat_not_NaN [of "warmNext r"]
    by (cases "warmVec n (warmNext r)") (auto simp: Let_def)
qed simp

context kernel_spec
begin

lemma Score_ok:
  assumes "wf_index ix" "length v = 14" "NaN \<notin> set v"
  shows "\<exists>s. Score kern ix v = Some s \<and> s \<le> 5"
proof -
  obtain q where "Quantize v = Some q" "query_ok q" using Quantize_range [OF assms(2)] assms(3) by auto
  then show ?thesis using ScoreQ_spec [OF assms(1)] search_spec_le [OF assms(1)] by (simp add: Score_def)
qed

lemma warmBatch_ok: "wf_index ix \<Longrightarrow> \<exists>r'. warmBatch kern ix k r = Some r'"
proof (induction k arbitrary: r)
  case (Suc k)
  obtain q r' where w: "warmVec 14 r = (q, r')" by force
  then have "length q = 14" "NaN \<notin> set q" using warmVec_ok [of 14 r] by simp_all
  then obtain s where "Score kern ix q = Some s" using Score_ok Suc.prems by blast
  then show ?case using Suc w by simp
qed simp

lemma warmLoop_ok: "wf_index ix \<Longrightarrow> \<exists>n. warmLoop kern ix d ticks r iters = Some (n, \<exists>t \<in> set ticks. d \<le> t)"
proof (induction ticks arbitrary: r iters)
  case (Cons t ticks)
  obtain r' where "warmBatch kern ix 64 r = Some r'" using warmBatch_ok Cons.prems by blast
  then show ?case using Cons by (cases "d \<le> t") simp_all
qed simp

lemma warmup_ok: "wf_index ix \<Longrightarrow> \<exists>n. warmup kern ix d now ticks = Some (n, d \<le> 0 \<or> (\<exists>t \<in> set ticks. d \<le> t))"
  using warmLoop_ok by (auto simp: warmup_def)

end

lemma api_main_serves:
  assumes "Open (file (envOr (getenv ''INDEX_PATH'') ''/data/index.bin'')) = Some (Inr ix)" "wf_index ix"
    "\<exists>t \<in> set ticks. wrap64 (envInt (getenv ''WARMUP_MS'') 700 * 1000000) \<le> t"
  shows "api_main amd64 getenv file now ticks =
    Some (if getenv ''CTRL_SOCK_PATH'' \<noteq> [] then ServeCtrl ix (getenv ''CTRL_SOCK_PATH'') (mlockEnabled (getenv ''MLOCK''))
          else ServeTCP ix ('':'' @ envOr (getenv ''PORT'') ''9999'') (mlockEnabled (getenv ''MLOCK'')))"
proof -
  let ?d = "wrap64 (envInt (getenv ''WARMUP_MS'') 700 * 1000000)"
  obtain n where n: "warmup amd64 ix ?d now ticks = Some (n, ?d \<le> 0 \<or> (\<exists>t \<in> set ticks. ?d \<le> t))"
    using avx2.warmup_ok [OF assms(2)] by blast
  have "?d \<le> 0 \<or> (\<exists>t \<in> set ticks. ?d \<le> t)" using assms(3) by blast
  then have "warmup amd64 ix ?d now ticks = Some (n, True)" using n by simp
  then show ?thesis using assms(1) by (simp add: api_main_def Let_def)
qed

section \<open>Properties\<close>

text \<open>(C19) The API comes up: when the index file opens to a well-formed index and the clock of the
  warm-up reaches its limit, \<open>main\<close> gets past the warm-up without a panic, whatever random vectors
  it searched for, and serves that index on the control socket, or on the TCP port when no control
  socket is configured.\<close>

theorem api_comes_up:
  assumes "Open (file (envOr (getenv ''INDEX_PATH'') ''/data/index.bin'')) = Some (Inr ix)" "wf_index ix"
    "\<exists>t \<in> set ticks. wrap64 (envInt (getenv ''WARMUP_MS'') 700 * 1000000) \<le> t"
  shows "api_main amd64 getenv file now ticks =
    Some (if getenv ''CTRL_SOCK_PATH'' \<noteq> [] then ServeCtrl ix (getenv ''CTRL_SOCK_PATH'') (mlockEnabled (getenv ''MLOCK''))
          else ServeTCP ix ('':'' @ envOr (getenv ''PORT'') ''9999'') (mlockEnabled (getenv ''MLOCK'')))"
  using assms by (rule api_main_serves)

section \<open>Witnesses\<close>

theorem api_comes_up_witness:
  "\<exists>t ix. api_main amd64 (\<lambda>k. []) (\<lambda>p. stored (indexFile t)) 5 [700000000] = Some (ServeTCP ix '':9999'' True)"
proof -
  obtain t ix where "Open (stored (indexFile t)) = Some (Inr ix)" "wf_index ix"
    using build_index [OF insertion_permutes one_ok(2,1,3)] by blast
  then show ?thesis
    using api_comes_up [of "\<lambda>p. stored (indexFile t)" "\<lambda>k. []" ix "[700000000]" 5]
    by (auto simp: envInt_def envOr_def mlockEnabled_def wrap64_def)
qed

end
