(* ===== verification/Calibrate.thy ===== *)
theory Calibrate
  imports Startup "HOL-Library.AList"
begin

text \<open>
  The calibration tool (\<open>cmd/calibrate/main.go\<close>), which decides for which leaves of the decision tree
  the search may be skipped. The decoded test file is a list of request bodies with the expected
  decision; \<open>json.Unmarshal\<close> is the parameter \<open>unmarshal\<close>. A Go map that is read by key is a
  function to options; a map whose size and elements are looked at is an association list with
  distinct keys. \<open>log.Fatalf\<close> is \<open>Failed\<close>, together with what was printed before; a panic is
  \<^const>\<open>None\<close>. The diagnostics that are only logged are in \<open>Calibrate_Report\<close>.
\<close>

section \<open>The code\<close>

record rawEntry =
  Request :: bytes
  ExpectedApproved :: bool

record bucket =
  bCount :: nat
  scoreSet :: "(nat \<times> nat) list"
  tCnt :: "(nat \<times> nat) list"
  bPurity :: nat

record tally =
  tp :: nat
  tn :: nat
  fp :: nat
  fn :: nat

definition tally0 :: tally where
  "tally0 = \<lparr>tp = 0, tn = 0, fp = 0, fn = 0\<rparr>"

definition bump :: "bool \<Rightarrow> bool \<Rightarrow> tally \<Rightarrow> tally" where
  "bump approved expected t =
     (if approved \<and> expected then t\<lparr>tn := tn t + 1\<rparr>
      else if \<not> approved \<and> \<not> expected then t\<lparr>tp := tp t + 1\<rparr>
      else if approved \<and> \<not> expected then t\<lparr>fn := fn t + 1\<rparr>
      else t\<lparr>fp := fp t + 1\<rparr>)"

definition mapInc :: "nat \<Rightarrow> (nat \<times> nat) list \<Rightarrow> (nat \<times> nat) list" where
  "mapInc k m = AList.update k ((case map_of m k of None \<Rightarrow> 0 | Some n \<Rightarrow> n) + 1) m"

text \<open>Parsing, features, quantization and the tree, as all three passes do them.\<close>

definition features :: "bytes \<Rightarrow> bytes \<Rightarrow> (bytes + (int list \<times> Result)) option" where
  "features msg req =
     do {
       r \<leftarrow> Parse req;
       (case r of
          Inl _ \<Rightarrow> Some (Inl msg)
        | Inr p \<Rightarrow> do { v \<leftarrow> Vectorize p; qq \<leftarrow> Quantize v; tr \<leftarrow> Predict qq; Some (Inr (qq, tr)) })
     }"

definition clamp5 :: "nat \<Rightarrow> nat" where
  "clamp5 fr = (if fr > 5 then 5 else fr)"

definition note_sample :: "Result \<Rightarrow> nat \<Rightarrow> (nat \<Rightarrow> bucket option) \<Rightarrow> nat \<Rightarrow> bucket option" where
  "note_sample tr fr byLeaf =
     (let b = (case byLeaf (LeafID tr) of
                 None \<Rightarrow> \<lparr>bCount = 0, scoreSet = [], tCnt = [], bPurity = PurityMilli tr\<rparr>
               | Some b \<Rightarrow> b)
      in byLeaf(LeafID tr \<mapsto> b\<lparr>bCount := bCount b + 1, scoreSet := mapInc fr (scoreSet b),
                               tCnt := mapInc (Count tr) (tCnt b)\<rparr>))"

fun scoreAll ::
  "kernel \<Rightarrow> Index \<Rightarrow> rawEntry list \<Rightarrow> tally \<Rightarrow> (nat \<Rightarrow> bucket option) \<Rightarrow> (bytes + (tally \<times> (nat \<Rightarrow> bucket option))) option" where
  "scoreAll kern ix [] t byLeaf = Some (Inr (t, byLeaf))"
| "scoreAll kern ix (e # es) t byLeaf =
     do {
       r \<leftarrow> features ''parse'' (Request e);
       (case r of
          Inl m \<Rightarrow> Some (Inl m)
        | Inr (qq, tr) \<Rightarrow>
            do {
              s \<leftarrow> ScoreQ kern ix qq;
              let fr = clamp5 s;
              scoreAll kern ix es (bump (fr \<le> 2) (ExpectedApproved e) t) (note_sample tr fr byLeaf)
            })
     }"

datatype admission = RejMinObs | RejMixed | RejMismatch | Admitted

definition admit :: "int \<Rightarrow> int \<Rightarrow> bucket \<Rightarrow> admission" where
  "admit minObs minPure b =
     (let meetsT1 = int (bCount b) \<ge> minObs; meetsT2 = bPurity b = 1000 \<and> int (bCount b) \<ge> minPure
      in if \<not> meetsT1 \<and> \<not> meetsT2 then RejMinObs
         else if length (scoreSet b) \<noteq> 1 then RejMixed
         else let knnScore = fst (hd (scoreSet b))
              in if length (tCnt b) \<noteq> 1 then RejMismatch
                 else if fst (hd (tCnt b)) \<noteq> knnScore then RejMismatch
                 else Admitted)"

definition markSafe :: "int \<Rightarrow> int \<Rightarrow> (nat \<Rightarrow> bucket option) \<Rightarrow> bool list" where
  "markSafe minObs minPure byLeaf =
     map (\<lambda>leaf. case byLeaf leaf of None \<Rightarrow> False | Some b \<Rightarrow> admit minObs minPure b = Admitted) [0..<LeafCount]"

text \<open>The passes that run the test file again with a table of safe leaves.\<close>

fun recheck :: "kernel \<Rightarrow> Index \<Rightarrow> bool list \<Rightarrow> rawEntry list \<Rightarrow> tally \<Rightarrow> (bytes + tally) option" where
  "recheck kern ix safe [] t = Some (Inr t)"
| "recheck kern ix safe (e # es) t =
     do {
       r \<leftarrow> features ''re-parse failed'' (Request e);
       (case r of
          Inl m \<Rightarrow> Some (Inl m)
        | Inr (qq, tr) \<Rightarrow>
            do {
              s \<leftarrow> read_at safe (LeafID tr);
              fr \<leftarrow> (if s then Some (Count tr) else ScoreQ kern ix qq);
              recheck kern ix safe es (bump (clamp5 fr \<le> 2) (ExpectedApproved e) t)
            })
     }"

function emitRows :: "bool list \<Rightarrow> bytes" where
  "emitRows safe =
     (if safe = [] then []
      else CHR 0x09 # concat (map (\<lambda>b. if b then ''true, '' else ''false, '') (take 16 safe)) @ [CHR 0x0A]
        @ emitRows (drop 16 safe))"
  by pat_completeness auto
termination by (relation "measure length") auto

declare emitRows.simps [simp del]

definition emit :: "bool list \<Rightarrow> bytes" where
  "emit safe = ''var leafSafeA = [LeafCount]bool{'' @ [CHR 0x0A] @ emitRows safe @ ''}'' @ [CHR 0x0A]"

fun unionShipped :: "nat \<Rightarrow> bool list \<Rightarrow> bool list option" where
  "unionShipped i [] = Some []"
| "unionShipped i (s # safe) =
     do { a \<leftarrow> LeafSafeA i; u \<leftarrow> unionShipped (i + 1) safe; Some ((if a \<and> \<not> s then True else s) # u) }"

datatype calib_end = Finished | Failed bytes

definition calibrate :: "kernel \<Rightarrow> Index \<Rightarrow> rawEntry list \<Rightarrow> int \<Rightarrow> int \<Rightarrow> bool \<Rightarrow> (bytes \<times> calib_end) option" where
  "calibrate kern ix entries minObs minPure merge =
     do {
       r \<leftarrow> scoreAll kern ix entries tally0 (\<lambda>_. None);
       (case r of
          Inl m \<Rightarrow> Some ([], Failed m)
        | Inr (t, byLeaf) \<Rightarrow>
            if fp t \<noteq> 0 \<or> fn t \<noteq> 0 then Some ([], Failed ''baseline KNN has FP/FN'')
            else do {
              let safe = markSafe minObs minPure byLeaf;
              r2 \<leftarrow> recheck kern ix safe entries tally0;
              (case r2 of
                 Inl m \<Rightarrow> Some ([], Failed m)
               | Inr t2 \<Rightarrow>
                   if fp t2 \<noteq> fp t \<or> fn t2 \<noteq> fn t \<or> tp t2 \<noteq> tp t \<or> tn t2 \<noteq> tn t
                   then Some ([], Failed ''CALIBRATION DRIFT'')
                   else if \<not> merge then Some (emit safe, Finished)
                   else do {
                     u \<leftarrow> unionShipped 0 safe;
                     r3 \<leftarrow> recheck kern ix u entries tally0;
                     (case r3 of
                        Inl m \<Rightarrow> Some (emit safe, Failed m)
                      | Inr t3 \<Rightarrow>
                          if fp t3 \<noteq> fp t \<or> fn t3 \<noteq> fn t \<or> tp t3 \<noteq> tp t \<or> tn t3 \<noteq> tn t
                          then Some (emit safe, Failed ''UNION DRIFT'')
                          else Some (emit safe @ ''// === UNION (shipped + calibrated) ==='' @ [CHR 0x0A] @ emit u, Finished))
                   })
            })
     }"

definition calibrate_main ::
  "kernel \<Rightarrow> (bytes \<Rightarrow> bytes) \<Rightarrow> (bytes \<Rightarrow> os_file) \<Rightarrow> (bytes \<Rightarrow> bytes option) \<Rightarrow> (bytes \<Rightarrow> rawEntry list option) \<Rightarrow>
   (bytes \<times> calib_end) option" where
  "calibrate_main kern getenv file readFile unmarshal =
     do {
       let testPath = envOr (getenv ''TEST_DATA'') ''/Users/gustavo/rinha-test-local/test-data.json'';
       let indexPath = envOr (getenv ''INDEX_PATH'') ''/private/tmp/rinha-go/_data/index.bin'';
       let minObs = envInt (getenv ''MIN_OBS'') 50;
       r \<leftarrow> Open (file indexPath);
       (case r of
          Inl e \<Rightarrow> Some ([], Failed ''open index'')
        | Inr ix \<Rightarrow>
            (case readFile testPath of
               None \<Rightarrow> Some ([], Failed ''read test data'')
             | Some data \<Rightarrow>
                 (case unmarshal data of
                    None \<Rightarrow> Some ([], Failed ''parse test data'')
                  | Some entries \<Rightarrow>
                      calibrate kern ix entries minObs (envInt (getenv ''MIN_OBS_PURE'') minObs)
                        (getenv ''UNION_SHIPPED'' = ''1''))))
     }"

section \<open>The buckets\<close>

definition bucket_of :: "(Result \<times> nat) list \<Rightarrow> bucket option \<Rightarrow> bool" where
  "bucket_of ps b \<longleftrightarrow>
     (case b of
        None \<Rightarrow> ps = []
      | Some b \<Rightarrow> ps \<noteq> [] \<and> bCount b = length ps \<and>
          distinct (map fst (scoreSet b)) \<and> fst ` set (scoreSet b) = snd ` set ps \<and>
          distinct (map fst (tCnt b)) \<and> fst ` set (tCnt b) = (\<lambda>p. Count (fst p)) ` set ps)"

definition seen :: "(Result \<times> nat) list \<Rightarrow> (nat \<Rightarrow> bucket option) \<Rightarrow> bool" where
  "seen ps byLeaf \<longleftrightarrow> (\<forall>l. bucket_of (filter (\<lambda>p. LeafID (fst p) = l) ps) (byLeaf l))"

lemma mapInc_keys: "distinct (map fst m) \<Longrightarrow> distinct (map fst (mapInc k m)) \<and> fst ` set (mapInc k m) = insert k (fst ` set m)"
  by (simp add: mapInc_def distinct_update dom_update)

lemma note_sample_bucket:
  assumes "bucket_of ps (byLeaf (LeafID tr))"
  shows "bucket_of (ps @ [(tr, fr)]) (note_sample tr fr byLeaf (LeafID tr))"
  using assms by (auto simp: bucket_of_def note_sample_def Let_def mapInc_keys split: option.splits)

lemma note_sample_seen: "seen ps byLeaf \<Longrightarrow> seen (ps @ [(tr, fr)]) (note_sample tr fr byLeaf)"
proof -
  assume s: "seen ps byLeaf"
  have "bucket_of (filter (\<lambda>p. LeafID (fst p) = l) (ps @ [(tr, fr)])) (note_sample tr fr byLeaf l)" for l
  proof (cases "l = LeafID tr")
    case True
    then show ?thesis using s note_sample_bucket [of _ byLeaf tr fr] by (simp add: seen_def)
  next
    case False
    then show ?thesis using s by (simp add: seen_def note_sample_def Let_def)
  qed
  then show ?thesis by (simp add: seen_def)
qed

lemma singleton_keys: "distinct (map fst m) \<Longrightarrow> length m = 1 \<Longrightarrow> k \<in> fst ` set m \<Longrightarrow> k = fst (hd m)"
  by (cases m) auto

lemma admitted_agree:
  assumes "bucket_of ps (Some b)" "admit minObs minPure b = Admitted" "(tr, fr) \<in> set ps"
  shows "Count tr = fr"
proof -
  have a: "length (scoreSet b) = 1" "length (tCnt b) = 1" "fst (hd (tCnt b)) = fst (hd (scoreSet b))"
    using assms(2) by (auto simp: admit_def Let_def split: if_splits)
  have k: "fr \<in> fst ` set (scoreSet b)" "Count tr \<in> fst ` set (tCnt b)"
    using assms(1,3) by (force simp: bucket_of_def)+
  have d: "distinct (map fst (scoreSet b))" "distinct (map fst (tCnt b))" using assms(1) by (simp_all add: bucket_of_def)
  show ?thesis using singleton_keys [OF d(1) a(1) k(1)] singleton_keys [OF d(2) a(2) k(2)] a(3) by simp
qed

section \<open>The first pass\<close>

definition scored :: "kernel \<Rightarrow> Index \<Rightarrow> rawEntry \<Rightarrow> int list \<times> Result \<times> nat \<Rightarrow> bool" where
  "scored kern ix e s \<longleftrightarrow> (case s of (qq, tr, f) \<Rightarrow>
     (\<forall>msg. features msg (Request e) = Some (Inr (qq, tr))) \<and> ScoreQ kern ix qq = Some f)"

definition tallyOf :: "rawEntry list \<Rightarrow> nat list \<Rightarrow> tally \<Rightarrow> tally" where
  "tallyOf es fs t = foldl (\<lambda>t (e, f). bump (f \<le> 2) (ExpectedApproved e) t) t (zip es fs)"

lemma features_msg: "features msg req = Some (Inr x) \<Longrightarrow> features msg' req = Some (Inr x)"
  by (auto simp: features_def split: sum.splits Option.bind_splits)

lemma scoreAll_samples:
  assumes "scoreAll kern ix es t byLeaf = Some (Inr (t', byLeaf'))" "seen ps byLeaf"
  shows "\<exists>ss. list_all2 (scored kern ix) es ss \<and> t' = tallyOf es (map (\<lambda>(qq, tr, f). clamp5 f) ss) t \<and>
    seen (ps @ map (\<lambda>(qq, tr, f). (tr, clamp5 f)) ss) byLeaf'"
  using assms
proof (induction es arbitrary: t byLeaf ps)
  case (Cons e es)
  obtain qq tr f where s: "features ''parse'' (Request e) = Some (Inr (qq, tr))" "ScoreQ kern ix qq = Some f"
      "scoreAll kern ix es (bump (clamp5 f \<le> 2) (ExpectedApproved e) t) (note_sample tr (clamp5 f) byLeaf) = Some (Inr (t', byLeaf'))"
    using Cons.prems(1) by (auto simp: Let_def split: Option.bind_splits sum.splits)
  obtain ss where "list_all2 (scored kern ix) es ss"
      "t' = tallyOf es (map (\<lambda>(qq, tr, f). clamp5 f) ss) (bump (clamp5 f \<le> 2) (ExpectedApproved e) t)"
      "seen ((ps @ [(tr, clamp5 f)]) @ map (\<lambda>(qq, tr, f). (tr, clamp5 f)) ss) byLeaf'"
    using Cons.IH [OF s(3) note_sample_seen [OF Cons.prems(2)]] by blast
  moreover have "scored kern ix e (qq, tr, f)" using features_msg [OF s(1)] s(2) by (simp add: scored_def)
  ultimately show ?case by (intro exI [of _ "(qq, tr, f) # ss"]) (simp add: tallyOf_def)
qed (auto simp: tallyOf_def)

lemma Vectorize_length: "Vectorize p = Some v \<Longrightarrow> length v = 14"
  by (auto simp: Vectorize_def Let_def split: Option.bind_splits if_splits)

lemma Quantize_length: "Quantize v = Some q \<Longrightarrow> length v = 14 \<Longrightarrow> length q = 16"
  by (auto simp: Quantize_def split: Option.bind_splits dest: those_Some_nth)

lemma features_leaf: "features msg req = Some (Inr (qq, tr)) \<Longrightarrow> LeafID tr < 512 \<and> Count tr \<le> 5"
proof -
  assume "features msg req = Some (Inr (qq, tr))"
  then obtain p v where "Vectorize p = Some v" "Quantize v = Some qq" "Predict qq = Some tr"
    by (auto simp: features_def split: Option.bind_splits sum.splits)
  then show ?thesis using Predict_ok [of qq] Vectorize_length Quantize_length by fastforce
qed

section \<open>The later passes\<close>

definition agrees :: "bool list \<Rightarrow> int list \<times> Result \<times> nat \<Rightarrow> bool" where
  "agrees safe s \<longleftrightarrow> (case s of (qq, tr, f) \<Rightarrow> LeafID tr < length safe \<and> (safe ! LeafID tr \<longrightarrow> Count tr = clamp5 f))"

lemma recheck_agrees:
  assumes "list_all2 (scored kern ix) es ss" "list_all (agrees safe) ss"
  shows "recheck kern ix safe es t = Some (Inr (tallyOf es (map (\<lambda>(qq, tr, f). clamp5 f) ss) t))"
  using assms
proof (induction es ss arbitrary: t rule: list_all2_induct)
  case (Cons e es s ss)
  obtain qq tr f where s: "s = (qq, tr, f)" by (metis surj_pair)
  have "features ''re-parse failed'' (Request e) = Some (Inr (qq, tr))" "ScoreQ kern ix qq = Some f"
    using Cons.hyps(1) by (simp_all add: s scored_def)
  moreover have "clamp5 (clamp5 f) = clamp5 f" by (simp add: clamp5_def)
  moreover have a: "LeafID tr < length safe" "safe ! LeafID tr \<longrightarrow> Count tr = clamp5 f"
    using Cons.prems by (simp_all add: s agrees_def)
  moreover note IH = Cons.IH [of "bump (clamp5 f \<le> 2) (ExpectedApproved e) t"]
  ultimately show ?case using Cons.prems
    by (cases "safe ! LeafID tr") (simp_all add: s read_at_def tallyOf_def)
qed (simp add: tallyOf_def)

lemma markSafe_agrees:
  assumes "list_all2 (scored kern ix) es ss" "seen (map (\<lambda>(qq, tr, f). (tr, clamp5 f)) ss) byLeaf"
  shows "list_all (agrees (markSafe minObs minPure byLeaf)) ss"
  unfolding list_all_iff
proof
  fix s assume s: "s \<in> set ss"
  obtain qq tr f where t: "s = (qq, tr, f)" by (metis surj_pair)
  obtain e where "scored kern ix e s" using assms(1) s by (auto simp: list_all2_conv_all_nth in_set_conv_nth)
  then have l: "LeafID tr < 512" using features_leaf by (fastforce simp: scored_def t)
  let ?ps = "filter (\<lambda>p. LeafID (fst p) = LeafID tr) (map (\<lambda>(qq, tr, f). (tr, clamp5 f)) ss)"
  have m: "(tr, clamp5 f) \<in> set ?ps" using s by (force simp: t)
  have b: "bucket_of ?ps (byLeaf (LeafID tr))" using assms(2) unfolding seen_def by blast
  show "agrees (markSafe minObs minPure byLeaf) s"
  proof (cases "byLeaf (LeafID tr)")
    case (Some b')
    then show ?thesis using l admitted_agree [OF _ _ m] b by (auto simp: agrees_def t markSafe_def LeafCount_def)
  qed (use l in \<open>simp add: agrees_def t markSafe_def LeafCount_def\<close>)
qed

section \<open>The whole run\<close>

lemma tallyOf_match:
  "length es = length fs \<Longrightarrow> fp (tallyOf es fs t) = 0 \<Longrightarrow> fn (tallyOf es fs t) = 0 \<Longrightarrow>
   fp t = 0 \<and> fn t = 0 \<and> list_all2 (\<lambda>e f. ExpectedApproved e \<longleftrightarrow> f \<le> 2) es fs"
proof (induction es fs arbitrary: t rule: list_induct2)
  case Nil
  then show ?case by (simp add: tallyOf_def)
next
  case (Cons e es f fs)
  let ?t = "bump (f \<le> 2) (ExpectedApproved e) t"
  have "tallyOf (e # es) (f # fs) t = tallyOf es fs ?t" by (simp add: tallyOf_def)
  then have "fp ?t = 0 \<and> fn ?t = 0 \<and> list_all2 (\<lambda>e f. ExpectedApproved e \<longleftrightarrow> f \<le> 2) es fs"
    using Cons.prems Cons.IH [of ?t] by simp
  then show ?case by (cases "f \<le> 2"; cases "ExpectedApproved e") (simp_all add: bump_def)
qed

lemma tallyOf_clean:
  "list_all2 (\<lambda>e f. ExpectedApproved e \<longleftrightarrow> f \<le> 2) es fs \<Longrightarrow>
   fp (tallyOf es fs t) = fp t \<and> fn (tallyOf es fs t) = fn t"
proof (induction es fs arbitrary: t rule: list_all2_induct)
  case (Cons e es f fs)
  have "tallyOf (e # es) (f # fs) t = tallyOf es fs (bump (f \<le> 2) (ExpectedApproved e) t)" by (simp add: tallyOf_def)
  then show ?case using Cons by (auto simp: bump_def split: if_splits)
qed (simp add: tallyOf_def)

lemma tallyOf_same:
  "list_all2 (\<lambda>e f. ExpectedApproved e \<longleftrightarrow> f \<le> 2) es fs \<Longrightarrow> list_all2 (\<lambda>e f. ExpectedApproved e \<longleftrightarrow> f \<le> 2) es gs \<Longrightarrow>
   tallyOf es fs t = tallyOf es gs t"
proof (induction es fs arbitrary: gs t rule: list_all2_induct)
  case (Cons e es f fs)
  obtain g gs' where g: "gs = g # gs'" "ExpectedApproved e \<longleftrightarrow> g \<le> 2" "list_all2 (\<lambda>e f. ExpectedApproved e \<longleftrightarrow> f \<le> 2) es gs'"
    using Cons.prems by (auto simp: list_all2_Cons1)
  have "f \<le> 2 \<longleftrightarrow> g \<le> 2" using Cons.hyps(1) g(2) by simp
  then show ?case using Cons.IH [OF g(3)] by (simp add: tallyOf_def g(1))
qed simp

lemma seen0: "seen [] (\<lambda>_. None)"
  by (simp add: seen_def bucket_of_def)

text \<open>The first pass decides what the second one finds.\<close>

lemma first_pass:
  assumes "scoreAll kern ix es tally0 (\<lambda>_. None) = Some (Inr (t, byLeaf))"
  shows "\<exists>ss. list_all2 (scored kern ix) es ss \<and> t = tallyOf es (map (\<lambda>(qq, tr, f). clamp5 f) ss) tally0 \<and>
    list_all (agrees (markSafe minObs minPure byLeaf)) ss \<and>
    recheck kern ix (markSafe minObs minPure byLeaf) es tally0 = Some (Inr t)"
proof -
  obtain ss where s: "list_all2 (scored kern ix) es ss" "t = tallyOf es (map (\<lambda>(qq, tr, f). clamp5 f) ss) tally0"
      "seen (map (\<lambda>(qq, tr, f). (tr, clamp5 f)) ss) byLeaf"
    using scoreAll_samples [OF assms seen0] by auto
  have a: "list_all (agrees (markSafe minObs minPure byLeaf)) ss" by (rule markSafe_agrees [OF s(1,3)])
  then show ?thesis using s(1,2) recheck_agrees [OF s(1) a, of tally0] by blast
qed

lemma features_Inl: "features msg req = Some (Inl m) \<Longrightarrow> m = msg"
  by (auto simp: features_def split: Option.bind_splits sum.splits)

lemma scoreAll_Inl: "scoreAll kern ix es t byLeaf = Some (Inl m) \<Longrightarrow> m = ''parse''"
  by (induction es arbitrary: t byLeaf)
    (auto simp: Let_def split: Option.bind_splits sum.splits dest: features_Inl)

text \<open>What a pass with a table decides for a sample.\<close>

definition decided :: "bool list \<Rightarrow> int list \<times> Result \<times> nat \<Rightarrow> nat" where
  "decided u s = (case s of (qq, tr, f) \<Rightarrow> if u ! LeafID tr then Count tr else clamp5 f)"

lemma recheck_tally:
  assumes "list_all2 (scored kern ix) es ss" "length u = 512"
  shows "recheck kern ix u es t = Some (Inr (tallyOf es (map (decided u) ss) t))"
  using assms(1)
proof (induction es ss arbitrary: t rule: list_all2_induct)
  case (Cons e es s ss)
  obtain qq tr f where s: "s = (qq, tr, f)" by (metis surj_pair)
  have f: "features ''re-parse failed'' (Request e) = Some (Inr (qq, tr))" "ScoreQ kern ix qq = Some f"
    using Cons.hyps(1) by (simp_all add: s scored_def)
  have "clamp5 (Count tr) = Count tr" using features_leaf [OF f(1)] by (simp add: clamp5_def)
  then show ?case using f features_leaf [OF f(1)] assms(2) Cons.IH
    by (cases "u ! LeafID tr") (simp_all add: s read_at_def tallyOf_def decided_def)
qed (simp add: tallyOf_def)

lemma unionShipped_total: "i + length safe \<le> 512 \<Longrightarrow> \<exists>u. unionShipped i safe = Some u \<and> length u = length safe"
proof (induction safe arbitrary: i)
  case (Cons s safe)
  obtain u where "unionShipped (i + 1) safe = Some u" "length u = length safe"
    using Cons.IH [of "i + 1"] Cons.prems by auto
  moreover have "\<exists>a. LeafSafeA i = Some a" using Cons.prems by (simp add: LeafSafeA_def LeafCount_def read_at_def length_leafSafe)
  ultimately show ?case by auto
qed simp

lemma unionShipped_nth:
  "unionShipped i safe = Some u \<Longrightarrow> k < length safe \<Longrightarrow> u ! k \<longleftrightarrow> safe ! k \<or> LeafSafeA (i + k) = Some True"
proof (induction safe arbitrary: i u k)
  case (Cons s safe)
  then obtain a u' where "LeafSafeA i = Some a" "unionShipped (i + 1) safe = Some u'" "u = (if a \<and> \<not> s then True else s) # u'"
    by (auto split: Option.bind_splits)
  then show ?case using Cons.IH [of "i + 1" u'] Cons.prems(2) by (cases k) auto
qed simp

lemma length_markSafe [simp]: "length (markSafe minObs minPure byLeaf) = 512"
  by (simp add: markSafe_def LeafCount_def)

lemma calibrate_cases:
  assumes "scoreAll kern ix es tally0 (\<lambda>_. None) = Some (Inr (t, byLeaf))" "fp t = 0" "fn t = 0"
  shows "\<exists>rest en. calibrate kern ix es minObs minPure merge = Some (emit (markSafe minObs minPure byLeaf) @ rest, en) \<and>
    (en = Finished \<or> en = Failed ''UNION DRIFT'') \<and> (\<not> merge \<longrightarrow> en = Finished)"
proof -
  let ?safe = "markSafe minObs minPure byLeaf"
  obtain ss where ss: "list_all2 (scored kern ix) es ss" "recheck kern ix ?safe es tally0 = Some (Inr t)"
    using first_pass [OF assms(1)] by blast
  obtain u where u: "unionShipped 0 ?safe = Some u" "length u = 512" using unionShipped_total [of 0 ?safe] by auto
  obtain t3 where "recheck kern ix u es tally0 = Some (Inr t3)" using recheck_tally [OF ss(1) u(2)] by blast
  then show ?thesis using assms ss(2) u(1) by (simp add: calibrate_def Let_def)
qed

text \<open>How a run ends once the search has passed its own check: by the decisions of the merged table.\<close>

lemma calibrate_ends:
  assumes "scoreAll kern ix es tally0 (\<lambda>_. None) = Some (Inr (t, byLeaf))" "list_all2 (scored kern ix) es ss"
    "list_all2 (\<lambda>e f. ExpectedApproved e \<longleftrightarrow> f \<le> 2) es (map (\<lambda>(qq, tr, f). clamp5 f) ss)"
    "t = tallyOf es (map (\<lambda>(qq, tr, f). clamp5 f) ss) tally0" "list_all (agrees (markSafe minObs minPure byLeaf)) ss"
  shows "\<exists>rest. calibrate kern ix es minObs minPure merge = Some (emit (markSafe minObs minPure byLeaf) @ rest,
    if merge \<and> \<not> list_all2 (\<lambda>e (qq, tr, f). LeafSafeA (LeafID tr) = Some True \<longrightarrow> (ExpectedApproved e \<longleftrightarrow> Count tr \<le> 2)) es ss
    then Failed ''UNION DRIFT'' else Finished)"
proof -
  let ?safe = "markSafe minObs minPure byLeaf" and ?ok = "\<lambda>e f. ExpectedApproved e \<longleftrightarrow> (f::nat) \<le> 2"
  have t0: "fp t = 0" "fn t = 0" using tallyOf_clean [OF assms(3), of tally0] by (simp_all add: assms(4) tally0_def)
  have r2: "recheck kern ix ?safe es tally0 = Some (Inr t)" unfolding assms(4) by (rule recheck_agrees [OF assms(2,5)])
  obtain u where u: "unionShipped 0 ?safe = Some u" "length u = 512" using unionShipped_total [of 0 ?safe] by auto
  note r3 = recheck_tally [OF assms(2) u(2), of tally0]
  have len: "length es = length ss" by (rule list_all2_lengthD [OF assms(2)])
  have drift: "fp t3 \<noteq> fp t \<or> fn t3 \<noteq> fn t \<or> tp t3 \<noteq> tp t \<or> tn t3 \<noteq> tn t \<longleftrightarrow> \<not> list_all2 ?ok es (map (decided u) ss)"
    if "t3 = tallyOf es (map (decided u) ss) tally0" for t3
    using tallyOf_match [of es "map (decided u) ss" tally0] tallyOf_same [OF assms(3), of "map (decided u) ss" tally0] len t0 that
    by (auto simp: assms(4))
  have one: "?ok (es ! i) (decided u (ss ! i)) \<longleftrightarrow> (case ss ! i of (qq, tr, f) \<Rightarrow>
      LeafSafeA (LeafID tr) = Some True \<longrightarrow> (ExpectedApproved (es ! i) \<longleftrightarrow> Count tr \<le> 2))" if "i < length es" for i
  proof -
    obtain qq tr f where s: "ss ! i = (qq, tr, f)" by (metis surj_pair)
    have a: "agrees ?safe (qq, tr, f)" using assms(5) that len s by (metis list_all_length)
    have "?ok (es ! i) (clamp5 f)" using list_all2_nthD [OF assms(3) that] that len s by simp
    then show ?thesis using a unionShipped_nth [OF u(1), of "LeafID tr"] by (auto simp: s decided_def agrees_def)
  qed
  have "list_all2 ?ok es (map (decided u) ss) \<longleftrightarrow>
      list_all2 (\<lambda>e (qq, tr, f). LeafSafeA (LeafID tr) = Some True \<longrightarrow> (ExpectedApproved e \<longleftrightarrow> Count tr \<le> 2)) es ss"
    using one len by (simp add: list_all2_conv_all_nth)
  then show ?thesis using assms(1) t0 r2 u(1) r3 drift [OF refl] by (simp add: calibrate_def Let_def)
qed

lemma calibrate_emits:
  assumes "calibrate kern ix es minObs minPure merge = Some (out, Finished)"
  shows "\<exists>t byLeaf rest. scoreAll kern ix es tally0 (\<lambda>_. None) = Some (Inr (t, byLeaf)) \<and> fp t = 0 \<and> fn t = 0 \<and>
    out = emit (markSafe minObs minPure byLeaf) @ rest"
proof -
  obtain t byLeaf where s: "scoreAll kern ix es tally0 (\<lambda>_. None) = Some (Inr (t, byLeaf))" "fp t = 0" "fn t = 0"
    using assms by (cases "scoreAll kern ix es tally0 (\<lambda>_. None)") (auto simp: calibrate_def split: sum.splits if_splits)
  then show ?thesis using calibrate_cases [OF s, of minObs minPure merge] assms by auto
qed

section \<open>Reading back the emitted table\<close>

fun read_bools :: "bytes \<Rightarrow> bool list" where
  "read_bools [] = []"
| "read_bools (c # s) =
     (if take 6 (c # s) = ''true, '' then True # read_bools (drop 5 s)
      else if take 7 (c # s) = ''false, '' then False # read_bools (drop 6 s)
      else read_bools s)"

lemma read_row: "read_bools (concat (map (\<lambda>b. if b then ''true, '' else ''false, '') bs) @ r) = bs @ read_bools r"
  by (induction bs) simp_all

lemma read_emitRows: "read_bools (emitRows bs @ ''}'' @ [CHR 0x0A]) = bs"
proof (induction bs rule: emitRows.induct)
  case (1 bs)
  show ?case
  proof (cases "bs = []")
    case False
    then have "read_bools (emitRows bs @ ''}'' @ [CHR 0x0A]) = take 16 bs @ read_bools (emitRows (drop 16 bs) @ ''}'' @ [CHR 0x0A])"
      by (subst emitRows.simps) (simp add: read_row)
    then show ?thesis using 1 False by simp
  qed (simp add: emitRows.simps)
qed

section \<open>Well-formed test files\<close>

definition sample_ok :: "doc \<Rightarrow> bool" where
  "sample_ok d \<longleftrightarrow> doc_ok d \<and> finite_payload (payload_of d) \<and> Month (timex_Parse (dRequestedAt d)) \<in> {1..12}"

definition entry_of :: "(doc \<Rightarrow> bool) \<Rightarrow> doc \<Rightarrow> rawEntry" where
  "entry_of expected d = \<lparr>Request = render_body d, ExpectedApproved = expected d\<rparr>"

lemma features_doc:
  assumes "sample_ok d"
  shows "\<exists>qq tr. (\<forall>msg. features msg (render_body d) = Some (Inr (qq, tr))) \<and> query_ok qq"
proof -
  have p: "Parse (render_body d) = Some (Inr (payload_of d))" using Parse_body [of d "[]"] assms by (simp add: sample_ok_def)
  have ok: "payload_ok (payload_of d)" using Parse_keeps_ok [OF p] by (simp add: payload_ok_def)
  have "Month (timex_Parse (RequestedAt (payload_of d))) \<in> {1..12}" using assms by (simp add: sample_ok_def payload_of_def)
  then obtain v where v: "Vectorize (payload_of d) = Some v" using Vectorize_cases [OF ok] by fastforce
  then have "length v = 14" "NaN \<notin> set v" using Vectorize_range [OF _ v] assms by (auto simp: sample_ok_def)
  then obtain q where q: "Quantize v = Some q" "query_ok q" using Quantize_range by fastforce
  then have "length q = 16" by (simp add: query_ok_def)
  then obtain tr where "Predict q = Some tr" using Predict_ok by blast
  then show ?thesis using p v q by (auto simp: features_def)
qed

text \<open>The two ways in which a test file can contradict the tables.\<close>

definition search_wrong :: "Index \<Rightarrow> (doc \<Rightarrow> bool) \<Rightarrow> doc \<Rightarrow> bool" where
  "search_wrong ix expected d \<longleftrightarrow> (case features ''parse'' (render_body d) of
     Some (Inr (qq, tr)) \<Rightarrow> expected d \<noteq> (search_spec ix qq \<le> 2) | _ \<Rightarrow> False)"

definition shipped_wrong :: "(doc \<Rightarrow> bool) \<Rightarrow> doc \<Rightarrow> bool" where
  "shipped_wrong expected d \<longleftrightarrow> (case features ''parse'' (render_body d) of
     Some (Inr (qq, tr)) \<Rightarrow> LeafSafeA (LeafID tr) = Some True \<and> expected d \<noteq> (Count tr \<le> 2) | _ \<Rightarrow> False)"

context kernel_spec
begin

lemma scoreAll_docs:
  assumes "wf_index ix" "list_all sample_ok ds"
  shows "\<exists>t' l'. scoreAll kern ix (map (entry_of expected) ds) t byLeaf = Some (Inr (t', l'))"
  using assms(2)
proof (induction ds arbitrary: t byLeaf)
  case (Cons d ds)
  obtain qq tr where "\<forall>msg. features msg (render_body d) = Some (Inr (qq, tr))" "query_ok qq"
    using features_doc Cons.prems by fastforce
  then show ?case using Cons ScoreQ_spec [OF assms(1)] by (simp add: entry_of_def Let_def)
qed simp

lemma scored_doc:
  assumes "wf_index ix" "sample_ok d" "scored kern ix (entry_of expected d) (qq, tr, f)"
  shows "features ''parse'' (render_body d) = Some (Inr (qq, tr))" "clamp5 f = search_spec ix qq"
proof -
  obtain q' tr' where q': "\<forall>msg. features msg (render_body d) = Some (Inr (q', tr'))" "query_ok q'"
    using features_doc [OF assms(2)] by blast
  then have q: "query_ok qq" and f: "features ''parse'' (render_body d) = Some (Inr (qq, tr))"
    using assms(3) by (simp_all add: scored_def entry_of_def)
  show "features ''parse'' (render_body d) = Some (Inr (qq, tr))" by (rule f)
  show "clamp5 f = search_spec ix qq"
    using assms(3) ScoreQ_spec [OF assms(1) q] search_spec_le [OF assms(1) q] by (simp add: scored_def clamp5_def)
qed

lemma calibrate_docs:
  assumes "wf_index ix" "list_all sample_ok ds"
  shows "if \<exists>d \<in> set ds. search_wrong ix expected d
    then calibrate kern ix (map (entry_of expected) ds) minObs minPure merge = Some ([], Failed ''baseline KNN has FP/FN'')
    else \<exists>safe rest. length safe = 512 \<and> calibrate kern ix (map (entry_of expected) ds) minObs minPure merge =
      Some (emit safe @ rest, if merge \<and> (\<exists>d \<in> set ds. shipped_wrong expected d) then Failed ''UNION DRIFT'' else Finished)"
proof -
  let ?es = "map (entry_of expected) ds" and ?ok = "\<lambda>e f. ExpectedApproved e \<longleftrightarrow> (f::nat) \<le> 2"
  obtain t byLeaf where s: "scoreAll kern ix ?es tally0 (\<lambda>_. None) = Some (Inr (t, byLeaf))"
    using scoreAll_docs [OF assms] by blast
  obtain ss where ss: "list_all2 (scored kern ix) ?es ss" "t = tallyOf ?es (map (\<lambda>(qq, tr, f). clamp5 f) ss) tally0"
      "list_all (agrees (markSafe minObs minPure byLeaf)) ss"
    using first_pass [OF s] by blast
  have len: "length ds = length ss" using list_all2_lengthD [OF ss(1)] by simp
  have nth: "features ''parse'' (render_body (ds ! i)) = Some (Inr (qq, tr)) \<and> clamp5 f = search_spec ix qq"
    if "i < length ds" "ss ! i = (qq, tr, f)" for i qq tr f
    using scored_doc [OF assms(1), of "ds ! i" expected qq tr f] list_all2_nthD [OF ss(1), of i] that assms(2) by (simp add: list_all_length)
  have ex: "(\<exists>d \<in> set ds. P d) \<longleftrightarrow> (\<exists>i < length ds. P (ds ! i))" for P by (metis in_set_conv_nth)
  have pw: "search_wrong ix expected (ds ! i) \<longleftrightarrow> \<not> ?ok (?es ! i) (map (\<lambda>(qq, tr, f). clamp5 f) ss ! i)"
      "shipped_wrong expected (ds ! i) \<longleftrightarrow>
        \<not> (\<lambda>e (qq, tr, f). LeafSafeA (LeafID tr) = Some True \<longrightarrow> (ExpectedApproved e \<longleftrightarrow> Count tr \<le> 2)) (?es ! i) (ss ! i)"
    if "i < length ds" for i
    using nth [OF that] that len by (cases "ss ! i"; simp add: search_wrong_def shipped_wrong_def entry_of_def)+
  have base: "list_all2 ?ok ?es (map (\<lambda>(qq, tr, f). clamp5 f) ss) \<longleftrightarrow> \<not> (\<exists>d \<in> set ds. search_wrong ix expected d)"
    unfolding ex list_all2_conv_all_nth using pw(1) len by simp
  have ship: "list_all2 (\<lambda>e (qq, tr, f). LeafSafeA (LeafID tr) = Some True \<longrightarrow> (ExpectedApproved e \<longleftrightarrow> Count tr \<le> 2)) ?es ss \<longleftrightarrow>
      \<not> (\<exists>d \<in> set ds. shipped_wrong expected d)"
    unfolding ex list_all2_conv_all_nth using pw(2) len by simp
  show ?thesis
  proof (cases "\<exists>d \<in> set ds. search_wrong ix expected d")
    case True
    then have "fp t \<noteq> 0 \<or> fn t \<noteq> 0"
      using base tallyOf_match [of ?es "map (\<lambda>(qq, tr, f). clamp5 f) ss" tally0] len by (auto simp: ss(2))
    then show ?thesis using True s by (simp add: calibrate_def)
  next
    case False
    then show ?thesis
      using calibrate_ends [OF s ss(1) base [THEN iffD2] ss(2,3), of merge] unfolding ship
      by (auto intro!: exI [of _ "markSafe minObs minPure byLeaf"])
  qed
qed

end

section \<open>Properties\<close>

text \<open>(C10) Calibration is sound on its test file: when a run finishes, the table it emits marks a leaf only
  where skipping the search changes nothing. For every entry of the test file the search answers,
  its decision is the expected one, and if the leaf of the entry is marked then the fraud count
  stored in the leaf is the clamped answer of the search. The table is the first one printed; a table merged with
  the shipped one may follow it.\<close>

theorem calibrate_sound:
  assumes "calibrate kern ix entries minObs minPure merge = Some (out, Finished)"
  shows "\<exists>safe rest. out = emit safe @ rest \<and> length safe = 512 \<and>
    (\<forall>e \<in> set entries. \<exists>qq tr f. features ''parse'' (Request e) = Some (Inr (qq, tr)) \<and> ScoreQ kern ix qq = Some f \<and>
       (safe ! LeafID tr \<longrightarrow> Count tr = clamp5 f) \<and> (ExpectedApproved e \<longleftrightarrow> clamp5 f \<le> 2))"
proof -
  obtain t byLeaf rest where s: "scoreAll kern ix entries tally0 (\<lambda>_. None) = Some (Inr (t, byLeaf))" "fp t = 0" "fn t = 0"
      and out: "out = emit (markSafe minObs minPure byLeaf) @ rest"
    using calibrate_emits [OF assms] by blast
  let ?safe = "markSafe minObs minPure byLeaf"
  obtain ss where ss: "list_all2 (scored kern ix) entries ss" "t = tallyOf entries (map (\<lambda>(qq, tr, f). clamp5 f) ss) tally0"
      "list_all (agrees ?safe) ss"
    using first_pass [OF s(1)] by blast
  have len: "length entries = length ss" by (rule list_all2_lengthD [OF ss(1)])
  have m: "list_all2 (\<lambda>e f. ExpectedApproved e \<longleftrightarrow> f \<le> 2) entries (map (\<lambda>(qq, tr, f). clamp5 f) ss)"
    using tallyOf_match [of entries "map (\<lambda>(qq, tr, f). clamp5 f) ss" tally0] len s(2,3) by (simp add: ss(2))
  have "\<exists>qq tr f. features ''parse'' (Request e) = Some (Inr (qq, tr)) \<and> ScoreQ kern ix qq = Some f \<and>
       (?safe ! LeafID tr \<longrightarrow> Count tr = clamp5 f) \<and> (ExpectedApproved e \<longleftrightarrow> clamp5 f \<le> 2)" if e: "e \<in> set entries" for e
  proof -
    obtain i where i: "i < length entries" "e = entries ! i" using e by (auto simp: in_set_conv_nth)
    obtain qq tr f where f: "ss ! i = (qq, tr, f)" by (metis surj_pair)
    have "scored kern ix e (qq, tr, f)" using list_all2_nthD [OF ss(1) i(1)] i(2) f by simp
    moreover have "agrees ?safe (qq, tr, f)" using ss(3) i(1) len f by (metis list_all_length)
    moreover have "ExpectedApproved e \<longleftrightarrow> clamp5 f \<le> 2" using list_all2_nthD [OF m i(1)] i len f by simp
    ultimately show ?thesis by (auto simp: scored_def agrees_def)
  qed
  then show ?thesis using out by (intro exI [of _ ?safe] exI [of _ rest]) simp
qed

text \<open>The drift check can never fire: the second pass, with the calibrated table, always gives the
  counts of the first. A run ends with the table, with a request that cannot be parsed, with a
  baseline that disagrees with the expected decisions, or with a drift of the table merged with the
  shipped one.\<close>

theorem calibrate_no_drift:
  assumes "calibrate kern ix entries minObs minPure merge = Some (out, Failed msg)"
  shows "msg \<in> {''parse'', ''baseline KNN has FP/FN'', ''UNION DRIFT''}"
proof -
  obtain r where r: "scoreAll kern ix entries tally0 (\<lambda>_. None) = Some r" using assms by (auto simp: calibrate_def split: Option.bind_splits)
  show ?thesis
  proof (cases r)
    case (Inl m)
    then show ?thesis using assms r scoreAll_Inl by (fastforce simp: calibrate_def)
  next
    case (Inr p)
    obtain t byLeaf where p: "p = (t, byLeaf)" by force
    show ?thesis
    proof (cases "fp t = 0 \<and> fn t = 0")
      case True
      then show ?thesis using calibrate_cases [of kern ix entries t byLeaf minObs minPure merge] assms r Inr p by auto
    qed (use assms r Inr p in \<open>simp add: calibrate_def\<close>)
  qed
qed

text \<open>(C40) The tool runs through, and how it ends: on a well-formed index and test entries with well-formed requests it
  never panics. It fails before it prints anything exactly when the search contradicts the expected decision of some
  entry. Otherwise it prints the table; it then finishes, except that with \<open>UNION_SHIPPED\<close> it fails with a drift
  exactly when the shipped table marks the leaf of some entry and the count stored there contradicts the expected decision.\<close>

theorem calibrate_completes:
  assumes "wf_index ix" "list_all sample_ok ds"
  shows "if \<exists>d \<in> set ds. search_wrong ix expected d
    then calibrate amd64 ix (map (entry_of expected) ds) minObs minPure merge = Some ([], Failed ''baseline KNN has FP/FN'')
    else \<exists>safe rest. length safe = 512 \<and> calibrate amd64 ix (map (entry_of expected) ds) minObs minPure merge =
      Some (emit safe @ rest, if merge \<and> (\<exists>d \<in> set ds. shipped_wrong expected d) then Failed ''UNION DRIFT'' else Finished)"
  by (rule avx2.calibrate_docs [OF assms])

text \<open>The printed Go literal holds the table: reading its boolean words in order gives back exactly
  the entries.\<close>

theorem emit_roundtrip: "read_bools (emit safe) = safe"
proof -
  have "read_bools (emit safe) = read_bools (emitRows safe @ ''}'' @ [CHR 0x0A])" by (simp add: emit_def)
  then show ?thesis by (simp only: read_emitRows)
qed

section \<open>Witnesses\<close>

lemma small_sample: "list_all sample_ok [doc_small]"
  using doc_small_ok by (simp add: sample_ok_def)

definition expected_small :: "doc \<Rightarrow> bool" where
  "expected_small d =
     (case features ''parse'' (render_body d) of Some (Inr (qq, tr)) \<Rightarrow> search_spec ix_far qq \<le> 2 | _ \<Rightarrow> False)"

lemma small_matches: "\<not> search_wrong ix_far expected_small doc_small" "search_wrong ix_far (\<lambda>d. \<not> expected_small d) doc_small"
proof -
  obtain q tr where "\<forall>msg. features msg (render_body doc_small) = Some (Inr (q, tr))"
    using features_doc [of doc_small] small_sample by auto
  then show "\<not> search_wrong ix_far expected_small doc_small" "search_wrong ix_far (\<lambda>d. \<not> expected_small d) doc_small"
    by (simp_all add: search_wrong_def expected_small_def)
qed

lemma calibrate_small:
  "\<exists>out. calibrate amd64 ix_far (map (entry_of expected_small) [doc_small]) 1 1 False = Some (out, Finished)"
  using avx2.calibrate_docs [OF wf_far small_sample, of expected_small 1 1 False] small_matches by auto

theorem calibrate_sound_witness:
  "\<exists>out safe rest. calibrate amd64 ix_far (map (entry_of expected_small) [doc_small]) 1 1 False = Some (out, Finished) \<and>
    out = emit safe @ rest \<and> length safe = 512"
proof -
  obtain out where o1: "calibrate amd64 ix_far (map (entry_of expected_small) [doc_small]) 1 1 False = Some (out, Finished)"
    using calibrate_small by blast
  from calibrate_sound [OF this] o1 show ?thesis by blast
qed

theorem calibrate_no_drift_witness:
  "calibrate amd64 ix_far [\<lparr>Request = [], ExpectedApproved = True\<rparr>] 1 1 False = Some ([], Failed ''parse'') \<and>
    ''parse'' \<in> {''parse'', ''baseline KNN has FP/FN'', ''UNION DRIFT''}"
proof -
  have "Parse [] = Some (Inl ErrMalformed)" by (simp add: Parse_def object_def expect_def skipWs_def)
  then have c: "calibrate amd64 ix_far [\<lparr>Request = [], ExpectedApproved = True\<rparr>] 1 1 False = Some ([], Failed ''parse'')"
    by (simp add: calibrate_def features_def)
  with calibrate_no_drift [OF c] show ?thesis by blast
qed

theorem calibrate_completes_witness:
  "(\<exists>safe rest. calibrate amd64 ix_far (map (entry_of expected_small) [doc_small]) 50 50 False = Some (emit safe @ rest, Finished)) \<and>
   calibrate amd64 ix_far (map (entry_of (\<lambda>d. \<not> expected_small d)) [doc_small]) 50 50 True = Some ([], Failed ''baseline KNN has FP/FN'')"
  using calibrate_completes [OF wf_far small_sample, of expected_small 50 50 False]
    calibrate_completes [OF wf_far small_sample, of "\<lambda>d. \<not> expected_small d" 50 50 True] small_matches by auto

end
