(* ===== verification/Calibrate_Report.thy ===== *)
theory Calibrate_Report
  imports Calibrate
begin

text \<open>
  The diagnostics of the calibration tool (\<open>cmd/calibrate/main.go\<close>): the counters of the admission pass, the
  purity of the observed leaves, the most populated leaves, the audit of the shipped table, the list of safe leaves
  and the size of the merged table. Two contracts of the standard library are arguments: \<open>srt\<close> is
  \<open>sort.Slice\<close>, and \<open>anyKey\<close> the key a \<open>range\<close> over a map meets first.
\<close>

section \<open>The code\<close>

record report =
  safeCount :: nat
  rejMinObs :: nat
  rejMixedKNN :: nat
  rejTreeMismatch :: nat
  unseen :: nat
  totalSafeSamples :: nat
  totalSamples :: nat

definition report0 :: report where
  "report0 = \<lparr>safeCount = 0, rejMinObs = 0, rejMixedKNN = 0, rejTreeMismatch = 0, unseen = 0, totalSafeSamples = 0, totalSamples = 0\<rparr>"

definition countLeaf :: "int \<Rightarrow> int \<Rightarrow> (nat \<Rightarrow> bucket option) \<Rightarrow> report \<Rightarrow> nat \<Rightarrow> report" where
  "countLeaf minObs minPure byLeaf rp leaf =
     (case byLeaf leaf of
        None \<Rightarrow> rp\<lparr>unseen := unseen rp + 1\<rparr>
      | Some b \<Rightarrow>
          let rp = rp\<lparr>totalSamples := totalSamples rp + bCount b\<rparr> in
          (case admit minObs minPure b of
             RejMinObs \<Rightarrow> rp\<lparr>rejMinObs := rejMinObs rp + 1\<rparr>
           | RejMixed \<Rightarrow> rp\<lparr>rejMixedKNN := rejMixedKNN rp + 1\<rparr>
           | RejMismatch \<Rightarrow> rp\<lparr>rejTreeMismatch := rejTreeMismatch rp + 1\<rparr>
           | Admitted \<Rightarrow> rp\<lparr>safeCount := safeCount rp + 1, totalSafeSamples := totalSafeSamples rp + bCount b\<rparr>))"

definition leafReport :: "int \<Rightarrow> int \<Rightarrow> (nat \<Rightarrow> bucket option) \<Rightarrow> report" where
  "leafReport minObs minPure byLeaf = foldl (countLeaf minObs minPure byLeaf) report0 [0..<LeafCount]"

definition purityCounts :: "(nat \<Rightarrow> bucket option) \<Rightarrow> nat \<times> nat" where
  "purityCounts byLeaf =
     foldl (\<lambda>(pure1000, pureLT1000) leaf.
         case byLeaf leaf of
           None \<Rightarrow> (pure1000, pureLT1000)
         | Some b \<Rightarrow> if bPurity b = 1000 then (pure1000 + 1, pureLT1000) else (pure1000, pureLT1000 + 1))
       (0, 0) [0..<LeafCount]"

record pop =
  popLeaf :: nat
  popCount :: nat
  popScore :: nat
  popMulti :: bool

definition populated :: "((nat \<times> nat) list \<Rightarrow> nat) \<Rightarrow> (nat \<Rightarrow> bucket option) \<Rightarrow> pop list" where
  "populated anyKey byLeaf =
     concat (map (\<lambda>leaf. case byLeaf leaf of
         None \<Rightarrow> []
       | Some b \<Rightarrow> [\<lparr>popLeaf = leaf, popCount = bCount b, popScore = anyKey (scoreSet b), popMulti = length (scoreSet b) > 1\<rparr>]) [0..<LeafCount])"

definition topLeaves ::
  "((pop \<Rightarrow> pop \<Rightarrow> bool) \<Rightarrow> pop list \<Rightarrow> pop list) \<Rightarrow> ((nat \<times> nat) list \<Rightarrow> nat) \<Rightarrow> (nat \<Rightarrow> bucket option) \<Rightarrow> pop list" where
  "topLeaves srt anyKey byLeaf = take 30 (srt (\<lambda>a b. popCount a > popCount b) (populated anyKey byLeaf))"

datatype audit_line = ShippedUnseen nat | ShippedMixed nat bucket | ShippedDiffers nat nat nat nat

definition auditLeaf :: "(nat \<Rightarrow> bucket option) \<Rightarrow> nat \<Rightarrow> audit_line list option" where
  "auditLeaf byLeaf leaf =
     do {
       a \<leftarrow> LeafSafeA leaf;
       Some (if \<not> a then []
             else case byLeaf leaf of
               None \<Rightarrow> [ShippedUnseen leaf]
             | Some b \<Rightarrow>
                 if length (scoreSet b) \<noteq> 1 \<or> length (tCnt b) \<noteq> 1 then [ShippedMixed leaf b]
                 else let ks = fst (hd (scoreSet b)); tc = fst (hd (tCnt b))
                      in if tc \<noteq> ks then [ShippedDiffers leaf tc ks (bCount b)] else [])
     }"

definition audit :: "(nat \<Rightarrow> bucket option) \<Rightarrow> audit_line list option" where
  "audit byLeaf = map_option concat (those (map (auditLeaf byLeaf) [0..<LeafCount]))"

definition safeIds :: "bool list \<Rightarrow> nat list" where
  "safeIds safe = sort (filter (\<lambda>i. safe ! i) [0..<length safe])"

definition unionTotal :: "bool list \<Rightarrow> nat" where
  "unionTotal u = foldl (\<lambda>n s. if s then n + 1 else n) 0 u"

section \<open>The counters\<close>

lemma countLeaf_fold:
  "let rp' = foldl (countLeaf minObs minPure byLeaf) rp ls in
   unseen rp' = unseen rp + length (filter (\<lambda>l. byLeaf l = None) ls) \<and>
   safeCount rp' + rejMinObs rp' + rejMixedKNN rp' + rejTreeMismatch rp' + unseen rp' =
     safeCount rp + rejMinObs rp + rejMixedKNN rp + rejTreeMismatch rp + unseen rp + length ls \<and>
   safeCount rp' = safeCount rp + length (filter (\<lambda>l. case byLeaf l of None \<Rightarrow> False | Some b \<Rightarrow> admit minObs minPure b = Admitted) ls) \<and>
   totalSamples rp' = totalSamples rp + sum_list (map (\<lambda>l. case byLeaf l of None \<Rightarrow> 0 | Some b \<Rightarrow> bCount b) ls) \<and>
   totalSafeSamples rp' = totalSafeSamples rp +
     sum_list (map (\<lambda>l. case byLeaf l of None \<Rightarrow> 0 | Some b \<Rightarrow> if admit minObs minPure b = Admitted then bCount b else 0) ls)"
proof (induction ls arbitrary: rp)
  case (Cons l ls)
  show ?case using Cons.IH [of "countLeaf minObs minPure byLeaf rp l"]
    by (auto simp: Let_def countLeaf_def split: option.splits admission.splits)
qed (simp add: Let_def)

lemma purity_fold:
  "foldl (\<lambda>(a, c) leaf. case byLeaf leaf of None \<Rightarrow> (a, c) | Some b \<Rightarrow> if bPurity b = 1000 then (a + 1, c) else (a, c + 1)) (m, n) ls = (m', n') \<Longrightarrow>
   m' + n' + length (filter (\<lambda>l. byLeaf l = None) ls) = m + n + length ls"
proof (induction ls arbitrary: m n)
  case (Cons l ls)
  show ?case
  proof (cases "byLeaf l")
    case None
    then show ?thesis using Cons by simp
  next
    case (Some b)
    then show ?thesis using Cons.prems Cons.IH [of "m + 1" n] Cons.IH [of m "n + 1"] by (simp split: if_splits)
  qed
qed simp

lemma sum_by_key: "(\<Sum>l \<leftarrow> [0..<n]. length (filter (\<lambda>p. P p \<and> key p = l) ps)) = length (filter (\<lambda>p. P p \<and> key p < n) ps)"
proof (induction n)
  case (Suc n)
  have "length (filter (\<lambda>p. P p \<and> key p < Suc n) ps) =
      length (filter (\<lambda>p. P p \<and> key p < n) ps) + length (filter (\<lambda>p. P p \<and> key p = n) ps)"
    by (induction ps) (auto simp: less_Suc_eq)
  then show ?case using Suc by simp
qed simp

text \<open>What the tool says of the samples, in terms of the samples.\<close>

lemma bucket_count:
  assumes "seen ps byLeaf"
  shows "(case byLeaf l of None \<Rightarrow> 0 | Some b \<Rightarrow> bCount b) = length (filter (\<lambda>p. LeafID (fst p) = l) ps)"
proof -
  have "bucket_of (filter (\<lambda>p. LeafID (fst p) = l) ps) (byLeaf l)" using assms by (simp add: seen_def)
  then show ?thesis by (cases "byLeaf l") (simp_all add: bucket_of_def)
qed

lemma safe_count:
  assumes "seen ps byLeaf"
  shows "(case byLeaf l of None \<Rightarrow> 0 | Some b \<Rightarrow> if admit minObs minPure b = Admitted then bCount b else 0) =
    length (filter (\<lambda>p. (case byLeaf (LeafID (fst p)) of None \<Rightarrow> False | Some b \<Rightarrow> admit minObs minPure b = Admitted) \<and> LeafID (fst p) = l) ps)"
proof -
  let ?A = "case byLeaf l of None \<Rightarrow> False | Some b \<Rightarrow> admit minObs minPure b = Admitted"
  have "filter (\<lambda>p. (case byLeaf (LeafID (fst p)) of None \<Rightarrow> False | Some b \<Rightarrow> admit minObs minPure b = Admitted) \<and> LeafID (fst p) = l) ps =
      (if ?A then filter (\<lambda>p. LeafID (fst p) = l) ps else [])"
    by (cases ?A) (auto intro: filter_cong simp: filter_empty_conv)
  then show ?thesis using bucket_count [OF assms, of l] by (cases "byLeaf l") simp_all
qed

lemma markSafe_nth: "l < 512 \<Longrightarrow>
   markSafe minObs minPure byLeaf ! l = (case byLeaf l of None \<Rightarrow> False | Some b \<Rightarrow> admit minObs minPure b = Admitted)"
  by (simp add: markSafe_def LeafCount_def)

lemma report_samples:
  assumes "seen ps byLeaf" "\<forall>p \<in> set ps. LeafID (fst p) < 512"
  shows "totalSamples (leafReport minObs minPure byLeaf) = length ps"
    "totalSafeSamples (leafReport minObs minPure byLeaf) = length (filter (\<lambda>p. markSafe minObs minPure byLeaf ! LeafID (fst p)) ps)"
proof -
  let ?A = "\<lambda>l. case byLeaf l of None \<Rightarrow> False | Some b \<Rightarrow> admit minObs minPure b = Admitted"
  note f = countLeaf_fold [of minObs minPure byLeaf report0 "[0..<LeafCount]", folded leafReport_def, unfolded Let_def]
  have "totalSamples (leafReport minObs minPure byLeaf) = (\<Sum>l \<leftarrow> [0..<512]. length (filter (\<lambda>p. True \<and> LeafID (fst p) = l) ps))"
    using f bucket_count [OF assms(1)] by (simp add: report0_def LeafCount_def del: upt_Suc)
  also have "\<dots> = length (filter (\<lambda>p. True \<and> LeafID (fst p) < 512) ps)" by (rule sum_by_key)
  also have "\<dots> = length ps" using assms(2) by (simp cong: filter_cong)
  finally show "totalSamples (leafReport minObs minPure byLeaf) = length ps" .
  have "totalSafeSamples (leafReport minObs minPure byLeaf) =
      (\<Sum>l \<leftarrow> [0..<512]. length (filter (\<lambda>p. ?A (LeafID (fst p)) \<and> LeafID (fst p) = l) ps))"
    using f safe_count [OF assms(1)] by (simp add: report0_def LeafCount_def del: upt_Suc)
  also have "\<dots> = length (filter (\<lambda>p. ?A (LeafID (fst p)) \<and> LeafID (fst p) < 512) ps)" by (rule sum_by_key)
  also have "filter (\<lambda>p. ?A (LeafID (fst p)) \<and> LeafID (fst p) < 512) ps = filter (\<lambda>p. markSafe minObs minPure byLeaf ! LeafID (fst p)) ps"
    using assms(2) by (intro filter_cong) (simp_all add: markSafe_nth)
  finally show "totalSafeSamples (leafReport minObs minPure byLeaf) =
      length (filter (\<lambda>p. markSafe minObs minPure byLeaf ! LeafID (fst p)) ps)" .
qed

section \<open>The audit\<close>

text \<open>A leaf of the tree has one count.\<close>

lemma Predict_count:
  assumes "Predict q = Some r" "length q = 16"
  shows "Count r = lCount (leaves ! LeafID r)"
proof -
  obtain T where T: "nodes = lin 0 0 T" "feats T \<subseteq> {..<16}" "leafCount T = 512" using nodes_tree by blast
  have "leafOf T q < 512" using leafOf_less [of T q] T(3) by simp
  then show ?thesis using walk_lin [of "[]" 0 T "[]" q] T assms leafResult_ok [of "leafOf T q"] by (auto simp: Predict_def)
qed

lemma features_count:
  assumes "features msg req = Some (Inr (qq, tr))"
  shows "Count tr = lCount (leaves ! LeafID tr)" "Predict qq = Some tr"
proof -
  obtain p v where "Vectorize p = Some v" "Quantize v = Some qq" and t: "Predict qq = Some tr"
    using assms by (auto simp: features_def split: Option.bind_splits sum.splits)
  then have "length qq = 16" using Vectorize_length Quantize_length by blast
  then show "Count tr = lCount (leaves ! LeafID tr)" by (rule Predict_count [OF t])
  show "Predict qq = Some tr" by (rule t)
qed

lemma bucket_differs:
  assumes "bucket_of ps (Some b)" "\<forall>p \<in> set ps. Count (fst p) = n"
  shows "length (scoreSet b) = 1 \<and> length (tCnt b) = 1 \<and> fst (hd (tCnt b)) = fst (hd (scoreSet b)) \<longleftrightarrow> (\<forall>p \<in> set ps. Count (fst p) = snd p)"
proof -
  have ne: "ps \<noteq> []" and d: "distinct (map fst (scoreSet b))" "distinct (map fst (tCnt b))"
    and s: "fst ` set (scoreSet b) = snd ` set ps" and t: "fst ` set (tCnt b) = (\<lambda>p. Count (fst p)) ` set ps"
    using assms(1) by (simp_all add: bucket_of_def)
  have card: "length m = card (fst ` set m)" if "distinct (map fst m)" for m :: "(nat \<times> nat) list"
    using that by (metis distinct_card length_map list.set_map)
  have tn: "fst ` set (tCnt b) = {n}" using t ne assms(2) by (cases ps) auto
  then have t1: "length (tCnt b) = 1" "fst (hd (tCnt b)) = n"
    using card [OF d(2)] by (simp, cases "tCnt b") auto
  show ?thesis
  proof
    assume "\<forall>p \<in> set ps. Count (fst p) = snd p"
    then have "fst ` set (scoreSet b) = {n}" using s ne assms(2) by (cases ps) auto
    moreover from this have "length (scoreSet b) = 1" using card [OF d(1)] by simp
    ultimately show "length (scoreSet b) = 1 \<and> length (tCnt b) = 1 \<and> fst (hd (tCnt b)) = fst (hd (scoreSet b))"
      using t1 by (cases "scoreSet b") auto
  next
    assume a: "length (scoreSet b) = 1 \<and> length (tCnt b) = 1 \<and> fst (hd (tCnt b)) = fst (hd (scoreSet b))"
    then have "fst ` set (scoreSet b) = {n}" using t1 by (cases "scoreSet b") auto
    then show "\<forall>p \<in> set ps. Count (fst p) = snd p" using s assms(2) by auto
  qed
qed

definition complaint :: "audit_line \<Rightarrow> bool" where
  "complaint a = (case a of ShippedUnseen l \<Rightarrow> False | _ \<Rightarrow> True)"

lemma auditLeaf_clean:
  assumes "seen ps byLeaf" "\<forall>p \<in> set ps. Count (fst p) = lCount (leaves ! LeafID (fst p))" "l < 512"
  shows "\<exists>as. auditLeaf byLeaf l = Some as \<and>
    (\<not> list_ex complaint as \<longleftrightarrow> (\<forall>p \<in> set ps. LeafID (fst p) = l \<longrightarrow> LeafSafeA l = Some True \<longrightarrow> Count (fst p) = snd p))"
proof -
  obtain a where a: "LeafSafeA l = Some a" using assms(3) by (simp add: LeafSafeA_def LeafCount_def read_at_def length_leafSafe)
  let ?ps = "filter (\<lambda>p. LeafID (fst p) = l) ps"
  have b: "bucket_of ?ps (byLeaf l)" using assms(1) by (simp add: seen_def)
  show ?thesis
  proof (cases "byLeaf l")
    case None
    then have "?ps = []" using b by (simp add: bucket_of_def)
    then show ?thesis using a None by (auto simp: auditLeaf_def complaint_def filter_empty_conv)
  next
    case (Some bk)
    have "\<forall>p \<in> set ?ps. Count (fst p) = lCount (leaves ! l)" using assms(2) by auto
    note d = bucket_differs [OF b [unfolded Some] this]
    have "\<exists>as. auditLeaf byLeaf l = Some as \<and> (\<not> list_ex complaint as \<longleftrightarrow>
        (a \<longrightarrow> length (scoreSet bk) = 1 \<and> length (tCnt bk) = 1 \<and> fst (hd (tCnt bk)) = fst (hd (scoreSet bk))))"
      using a Some by (auto simp: auditLeaf_def complaint_def Let_def)
    then obtain as where "auditLeaf byLeaf l = Some as" "\<not> list_ex complaint as \<longleftrightarrow> (a \<longrightarrow> (\<forall>p \<in> set ?ps. Count (fst p) = snd p))"
      unfolding d by blast
    then show ?thesis by (intro exI [of _ as]) (auto simp: a)
  qed
qed

lemma list_all2_ball: "list_all2 P xs ys \<Longrightarrow> (\<And>x y. P x y \<Longrightarrow> A x \<longleftrightarrow> B y) \<Longrightarrow> (\<forall>x \<in> set xs. A x) \<longleftrightarrow> (\<forall>y \<in> set ys. B y)"
  by (induction rule: list_all2_induct) auto

lemma those_total: "\<forall>x \<in> set xs. \<exists>y. f x = Some y \<Longrightarrow> those (map f xs) = Some (map (\<lambda>x. the (f x)) xs)"
  by (induction xs) auto

lemma audit_clean:
  assumes "seen ps byLeaf" "\<forall>p \<in> set ps. Count (fst p) = lCount (leaves ! LeafID (fst p)) \<and> LeafID (fst p) < 512"
  shows "\<exists>as. audit byLeaf = Some as \<and>
    (\<not> list_ex complaint as \<longleftrightarrow> (\<forall>p \<in> set ps. LeafSafeA (LeafID (fst p)) = Some True \<longrightarrow> Count (fst p) = snd p))"
proof -
  have ok: "\<exists>as. auditLeaf byLeaf l = Some as \<and>
      (\<not> list_ex complaint as \<longleftrightarrow> (\<forall>p \<in> set ps. LeafID (fst p) = l \<longrightarrow> LeafSafeA l = Some True \<longrightarrow> Count (fst p) = snd p))" if "l < 512" for l
    using assms that by (intro auditLeaf_clean) auto
  let ?as = "concat (map (\<lambda>l. the (auditLeaf byLeaf l)) [0..<512])"
  have "audit byLeaf = Some ?as"
    using ok those_total [of "[0..<512]" "auditLeaf byLeaf"] by (fastforce simp: audit_def LeafCount_def simp del: upt_Suc)
  moreover have "\<not> list_ex complaint ?as \<longleftrightarrow> (\<forall>l < 512. \<not> list_ex complaint (the (auditLeaf byLeaf l)))"
    by (auto simp: list_ex_iff simp del: upt_Suc)
  moreover have "(\<forall>l < 512. \<not> list_ex complaint (the (auditLeaf byLeaf l))) \<longleftrightarrow>
      (\<forall>p \<in> set ps. LeafSafeA (LeafID (fst p)) = Some True \<longrightarrow> Count (fst p) = snd p)"
    using ok assms(2) by (metis option.sel)
  ultimately show ?thesis by blast
qed

text \<open>What the first pass leaves behind.\<close>

lemma first_samples:
  assumes "scoreAll kern ix es tally0 (\<lambda>_. None) = Some (Inr (t, byLeaf))"
  shows "\<exists>ss. list_all2 (scored kern ix) es ss \<and> seen (map (\<lambda>(qq, tr, f). (tr, clamp5 f)) ss) byLeaf \<and>
    (\<forall>p \<in> set (map (\<lambda>(qq, tr, f). (tr, clamp5 f)) ss). Count (fst p) = lCount (leaves ! LeafID (fst p)) \<and> LeafID (fst p) < 512)"
proof -
  obtain ss where s: "list_all2 (scored kern ix) es ss" "seen (map (\<lambda>(qq, tr, f). (tr, clamp5 f)) ss) byLeaf"
    using scoreAll_samples [OF assms seen0] by auto
  have "Count tr = lCount (leaves ! LeafID tr) \<and> LeafID tr < 512" if m: "(qq, tr, f) \<in> set ss" for qq tr f
  proof -
    obtain e where "scored kern ix e (qq, tr, f)" using s(1) m by (auto simp: list_all2_conv_all_nth in_set_conv_nth)
    then have "features [] (Request e) = Some (Inr (qq, tr))" by (simp add: scored_def)
    then show ?thesis using features_count(1) features_leaf by blast
  qed
  then show ?thesis using s by fastforce
qed

section \<open>Properties\<close>

text \<open>(C22) The audit is exact: after the first pass, it complains of the shipped table exactly when there is a
  request in the test file on which the service, with the shipped table, would answer otherwise than the search. The line
  that a shipped leaf was never reached is no complaint: it says nothing about an answer.\<close>

theorem audit_exact:
  assumes "scoreAll kern ix entries tally0 (\<lambda>_. None) = Some (Inr (t, byLeaf))"
  shows "\<exists>as. audit byLeaf = Some as \<and>
    (\<not> list_ex complaint as \<longleftrightarrow>
      (\<forall>e \<in> set entries. \<exists>qq tr f. features ''parse'' (Request e) = Some (Inr (qq, tr)) \<and> ScoreQ kern ix qq = Some f \<and>
         decide kern ix qq = Some (clamp5 f)))"
proof -
  obtain ss where ss: "list_all2 (scored kern ix) entries ss" "seen (map (\<lambda>(qq, tr, f). (tr, clamp5 f)) ss) byLeaf"
      "\<forall>p \<in> set (map (\<lambda>(qq, tr, f). (tr, clamp5 f)) ss). Count (fst p) = lCount (leaves ! LeafID (fst p)) \<and> LeafID (fst p) < 512"
    using first_samples [OF assms] by blast
  have served: "(\<exists>qq' tr' f'. features ''parse'' (Request e) = Some (Inr (qq', tr')) \<and> ScoreQ kern ix qq' = Some f' \<and> decide kern ix qq' = Some (clamp5 f')) \<longleftrightarrow>
      (LeafSafeA (LeafID tr) = Some True \<longrightarrow> Count tr = clamp5 f)" if "scored kern ix e (qq, tr, f)" for e qq tr f
  proof -
    have f: "features ''parse'' (Request e) = Some (Inr (qq, tr))" "ScoreQ kern ix qq = Some f" using that by (simp_all add: scored_def)
    have "LeafID tr < 512" "Count tr \<le> 5" "Predict qq = Some tr" using features_leaf [OF f(1)] features_count [OF f(1)] by simp_all
    moreover from this obtain a where "LeafSafeA (LeafID tr) = Some a" by (simp add: LeafSafeA_def LeafCount_def read_at_def length_leafSafe)
    ultimately show ?thesis using f by (cases a) (auto simp: decide_def clamp5_def)
  qed
  have "(\<forall>e \<in> set entries. \<exists>qq tr f. features ''parse'' (Request e) = Some (Inr (qq, tr)) \<and> ScoreQ kern ix qq = Some f \<and> decide kern ix qq = Some (clamp5 f)) \<longleftrightarrow>
      (\<forall>(qq, tr, f) \<in> set ss. LeafSafeA (LeafID tr) = Some True \<longrightarrow> Count tr = clamp5 f)"
  proof (rule list_all2_ball [OF ss(1)], goal_cases)
    case (1 e y)
    then show ?case using served by (cases y) simp
  qed
  then show ?thesis using audit_clean [OF ss(2,3)] by (auto simp: case_prod_beta)
qed

text \<open>(C23) The counters of the report are right: the five counters of leaves add up to the number of leaves, as do the
  two of pure and impure leaves with the unseen ones; the safe ones are those marked in the emitted table, all samples are counted, and the coverage is the number
  of entries of the test file that the emitted table answers without a search.\<close>

theorem report_adds_up:
  assumes "scoreAll kern ix entries tally0 (\<lambda>_. None) = Some (Inr (t, byLeaf))" "rp = leafReport minObs minPure byLeaf"
    "safe = markSafe minObs minPure byLeaf"
  shows "safeCount rp + rejMinObs rp + rejMixedKNN rp + rejTreeMismatch rp + unseen rp = 512 \<and>
    fst (purityCounts byLeaf) + snd (purityCounts byLeaf) + unseen rp = 512 \<and> safeCount rp = length (safeIds safe) \<and> totalSamples rp = length entries \<and>
    totalSafeSamples rp = length (filter (\<lambda>e. case features [] (Request e) of Some (Inr (qq, tr)) \<Rightarrow> safe ! LeafID tr | _ \<Rightarrow> False) entries)"
proof -
  obtain ss where ss: "list_all2 (scored kern ix) entries ss" "seen (map (\<lambda>(qq, tr, f). (tr, clamp5 f)) ss) byLeaf"
      "\<forall>p \<in> set (map (\<lambda>(qq, tr, f). (tr, clamp5 f)) ss). Count (fst p) = lCount (leaves ! LeafID (fst p)) \<and> LeafID (fst p) < 512"
    using first_samples [OF assms(1)] by blast
  note f = countLeaf_fold [of minObs minPure byLeaf report0 "[0..<LeafCount]", folded leafReport_def, unfolded Let_def]
  have "length (filter (\<lambda>p. safe ! LeafID (fst p)) (map (\<lambda>(qq, tr, f). (tr, clamp5 f)) ss)) =
      length (filter (\<lambda>e. case features [] (Request e) of Some (Inr (qq, tr)) \<Rightarrow> safe ! LeafID tr | _ \<Rightarrow> False) entries)"
    using ss(1) by (induction rule: list_all2_induct) (auto simp: scored_def)
  moreover have "length entries = length ss" using ss(1) by (rule list_all2_lengthD)
  moreover have "safeCount rp = length (safeIds safe)"
  proof -
    have "filter (\<lambda>l. safe ! l) [0..<512] = filter (\<lambda>l. case byLeaf l of None \<Rightarrow> False | Some b \<Rightarrow> admit minObs minPure b = Admitted) [0..<512]"
      by (rule filter_cong) (simp_all add: assms(3) markSafe_nth del: upt_Suc)
    then show ?thesis using f by (simp add: assms(2,3) safeIds_def report0_def LeafCount_def del: upt_Suc)
  qed
  moreover have "safeCount rp + rejMinObs rp + rejMixedKNN rp + rejTreeMismatch rp + unseen rp = 512"
    using f by (simp add: assms(2) report0_def LeafCount_def)
  moreover have "fst (purityCounts byLeaf) + snd (purityCounts byLeaf) + unseen rp = 512"
    using f purity_fold [of byLeaf 0 0 "[0..<512]" "fst (purityCounts byLeaf)" "snd (purityCounts byLeaf)"]
    by (simp add: assms(2) report0_def LeafCount_def purityCounts_def del: upt_Suc)
  ultimately show ?thesis
    using report_samples [OF ss(2), of minObs minPure] ss(3) assms(2,3) by simp
qed

text \<open>The leaves listed as most populated are: with a \<open>sort.Slice\<close> that sorts, there are thirty of them or all that
  were observed, and no other observed leaf has more samples than one of them.\<close>

theorem top_leaves:
  assumes "\<And>lt xs. mset (srt lt xs) = mset xs"
    "\<And>xs. sorted_wrt (\<lambda>a b. popCount b \<le> popCount a) (srt (\<lambda>a b. popCount a > popCount b) xs)"
  shows "length (topLeaves srt anyKey byLeaf) = min 30 (length (populated anyKey byLeaf)) \<and>
    (\<forall>p \<in> set (topLeaves srt anyKey byLeaf). \<forall>q \<in> set (populated anyKey byLeaf) - set (topLeaves srt anyKey byLeaf). popCount q \<le> popCount p)"
proof -
  let ?s = "srt (\<lambda>a b. popCount a > popCount b) (populated anyKey byLeaf)"
  have m: "length ?s = length (populated anyKey byLeaf)" "set ?s = set (populated anyKey byLeaf)"
    using assms(1) mset_eq_length mset_eq_setD by blast+
  have "sorted_wrt (\<lambda>a b. popCount b \<le> popCount a) (take 30 ?s @ drop 30 ?s)" using assms(2) by simp
  then have "\<forall>p \<in> set (take 30 ?s). \<forall>q \<in> set (drop 30 ?s). popCount q \<le> popCount p" unfolding sorted_wrt_append by blast
  moreover have "set (populated anyKey byLeaf) - set (take 30 ?s) \<subseteq> set (drop 30 ?s)"
    unfolding m(2) [symmetric] by (metis Diff_subset_conv append_take_drop_id order_refl set_append)
  ultimately show ?thesis using m(1) by (auto simp: topLeaves_def min.commute)
qed

lemma unionTotal_count: "unionTotal u = length (filter (\<lambda>s. s) u)"
proof -
  have "foldl (\<lambda>n s. if s then n + 1 else n) k u = k + length (filter (\<lambda>s. s) u)" for k :: nat by (induction u arbitrary: k) auto
  then show ?thesis by (simp add: unionTotal_def)
qed

section \<open>Witnesses\<close>

lemma small_pass:
  "\<exists>t byLeaf. scoreAll amd64 ix_far (map (entry_of expected_small) [doc_small]) tally0 (\<lambda>_. None) = Some (Inr (t, byLeaf))"
  using avx2.scoreAll_docs [OF wf_far small_sample] by blast

theorem audit_exact_witness:
  "\<exists>t byLeaf as. scoreAll amd64 ix_far (map (entry_of expected_small) [doc_small]) tally0 (\<lambda>_. None) = Some (Inr (t, byLeaf)) \<and>
    audit byLeaf = Some as"
proof -
  obtain t byLeaf where "scoreAll amd64 ix_far (map (entry_of expected_small) [doc_small]) tally0 (\<lambda>_. None) = Some (Inr (t, byLeaf))"
    using small_pass by blast
  with audit_exact [OF this] show ?thesis by blast
qed

theorem report_adds_up_witness:
  "\<exists>t byLeaf. scoreAll amd64 ix_far (map (entry_of expected_small) [doc_small]) tally0 (\<lambda>_. None) = Some (Inr (t, byLeaf)) \<and>
    totalSamples (leafReport 50 10 byLeaf) = 1"
proof -
  obtain t byLeaf where "scoreAll amd64 ix_far (map (entry_of expected_small) [doc_small]) tally0 (\<lambda>_. None) = Some (Inr (t, byLeaf))"
    using small_pass by blast
  with report_adds_up [OF this refl refl, of 50 10] show ?thesis by auto
qed

end
