(* ===== verification/Spec2Isabelle.thy ===== *)
theory Spec2Isabelle
  imports Timex Knn Tree Quantize Jsonp_Numbers Jsonp_Cursor Normalize Fleet Ctrl_Fds BuildMain Startup Calibrate_Report
begin

text \<open>
  A verification library for \<open>rinha-go-2026\<close>, a fraud-scoring service in Go.

  \<^bold>\<open>The program.\<close> An offline tool (\<open>src/cmd/buildindex\<close>) reads a training file of labelled vectors,
  clusters them by k-means and writes an index file. The API process (\<open>src/cmd/api\<close>) maps that file,
  warms up and answers \<open>POST /fraud-score\<close>: it frames the HTTP request (\<open>src/internal/server\<close>), parses
  the body (\<open>src/internal/jsonp\<close>, \<open>src/internal/timex\<close>), computes fourteen features
  (\<open>src/internal/normalize\<close>), quantizes them, asks a decision tree (\<open>src/internal/tree\<close>) and, unless
  the leaf is marked safe, a nearest-neighbour search over the index (\<open>src/internal/knn\<close>,
  \<open>src/internal/index\<close>). A load balancer (\<open>src/cmd/lb\<close>) accepts the clients, reads what they have
  already sent and passes the file descriptor with these bytes to a backend. A second offline tool
  (\<open>src/cmd/calibrate\<close>) computes the table of safe leaves.

  \<^bold>\<open>Conventions.\<close> A panic is \<^const>\<open>None\<close>, a Go error or \<open>log.Fatalf\<close> the left side of a sum or a
  constructor. Signed integers are \<^typ>\<open>int\<close> with \<open>wrap16\<close>, \<open>wrap32\<close>, \<open>wrap64\<close> written out where
  overflow can happen, unsigned ones \<^typ>\<open>nat\<close> with \<open>u32\<close>, or words where the code works bitwise.
  Bytes of text are characters. Floating-point numbers are NaN, an infinity or a rational, and every
  operation rounds to 24 or 53 bits, ties to even, with gradual underflow; zeros carry no sign.
  Answers of the operating system (system calls, clock, file system, environment) are arguments.

  \<^bold>\<open>Theories.\<close>
  \<^item> \<open>Prelude\<close>: wrap-around arithmetic, bounds-checked reads, lemmas on lists and words.
  \<^item> \<open>Timex\<close>: \<open>timex.go\<close>. Parsing and printing are inverse, the day count is the Gregorian calendar, the
    weekday agrees with it, seconds order stamps as their fields do.
  \<^item> \<open>Index\<close>: \<open>index.go\<close>, the header, \<open>Open\<close> with every slice it cuts and every error or panic, \<open>Close\<close>.
  \<^item> \<open>Kernel\<close>: the portable distance, pruning and bounding-box routines (\<open>knn_other.go\<close>, \<open>knn.go\<close>) and the
    AVX2 assembly (\<open>knn_amd64.s\<close>) on lists of lanes. The locale \<open>kernel_spec\<close> states what the search needs
    of a kernel; it is interpreted for both builds (\<open>portable\<close>, \<open>avx2\<close>).
  \<^item> \<open>Best\<close>, \<open>Probes\<close>: the five-candidate buffer and the heap of probes, refined to a stable sort and to
    the nearest clusters.
  \<^item> \<open>Knn\<close>: \<open>ScoreQ\<close> with the scan and both repair passes. It refines a search that neither prunes blocks nor skips clusters, its
    answers are exact away from the early-exit radius, and a concrete index shows rows it can miss.
  \<^item> \<open>Tree_Tables\<close>, \<open>Tree\<close>: the literal tables and \<open>Predict\<close>, which evaluates a binary decision tree.
  \<^item> \<open>Float_Model\<close>, \<open>Quantize\<close>: rounding, and \<open>Quantize\<close> with its range and its error.
  \<^item> \<open>Jsonp\<close>, \<open>Jsonp_Numbers\<close>: the body parser, total on all input and inverse to printing, and how exact
    its number reader is. The locales \<open>field_reader\<close> and \<open>field_keeper\<close> carry the proofs for all objects.
  \<^item> \<open>Jsonp_Cursor\<close>: the body parser with its index, every read and slice checked; it refines \<open>Jsonp\<close> and so never
    leaves the buffer. The locale \<open>cursor_switch\<close> carries the refinement for all objects.
  \<^item> \<open>Normalize\<close>: \<open>Vectorize\<close>, the range of the features and when it panics.
  \<^item> \<open>Http\<close>, \<open>Server\<close>: \<open>ParseRequest\<close> and \<open>Respond\<close>, from a rendered request to the prepared response.
  \<^item> \<open>Api\<close>: \<open>handleRawConn\<close> and \<open>handleConn\<close> on every schedule of reads and writes: answers in order, all of
    them when nothing fails, and both handlers alike.
  \<^item> \<open>Pool\<close>, \<open>Goroutines\<close>: the handlers as goroutines over the \<open>sync.Pool\<close>s of buffers and payloads, which are multisets that
    the deferred \<open>Put\<close>s of the handlers fill. The locale
    \<open>pooled_handler\<close> is the contract of a handler that works on objects other connections have used; the handler of
    \<open>conn_linux.go\<close>, step by step on its memory, meets it, so that every interleaving looks sequential to each client.
  \<^item> \<open>Os\<close>: system calls, the descriptors that are open after a list of calls, and when calls are proper.
  \<^item> \<open>Ctrl\<close>: \<open>recvFDWithBytes\<close>, \<open>ctrlLoop\<close> and the interleaving of several loops over the shared buffer, as
    a step relation with an invariant.
  \<^item> \<open>Ctrl_Fds\<close>: \<open>runCtrl\<close> with its set-up, and the system calls of all loops and handlers in any order: every open
    descriptor has one owner and none is used after its close.
  \<^item> \<open>Lb\<close>, \<open>Lb_Main\<close>: the balancer's accept loop, the bytes it passes on, turns and failover; \<open>main\<close> with every
    fatal exit and its system calls, which are proper and leave no descriptor of a client open.
  \<^item> \<open>Fleet\<close>: the balancer, the control channel and the goroutines of a backend together.
  \<^item> \<open>Startup\<close>: \<open>main\<close>, \<open>warmup\<close> and \<open>runTCP\<close> of the API and the calls that tune the process.
  \<^item> \<open>Index_File\<close>, \<open>BuildIndex\<close>: assignment, packing, bounding boxes and the writer; the file is accepted by
    \<open>Open\<close> and holds every training vector once.
  \<^item> \<open>Train\<close>: the generator and \<open>kmeansPlusPlus\<close>, which always returns its centers.
  \<^item> \<open>RefParse\<close>, \<open>BuildMain\<close>: the training-file reader, inverse to printing, and \<open>main\<close> of the builder.
  \<^item> \<open>Calibrate\<close>, \<open>Calibrate_Report\<close>: the calibration tool; its table is sound on the test file, the end of every run is
    determined, its drift check never fires, its counters add up, and its audit of the shipped table is exact.

  The two properties of this theory span all of them but the calibration: from the training file to the
  verdict on a request.

  \<^bold>\<open>Bounds and fuel.\<close> The object loops of \<open>Jsonp\<close> and \<open>Jsonp_Cursor\<close> take a bound on their iterations; the length of the text is
  shown to be enough, so that the parser never runs out. Handlers and the warm-up run on a finite list of
  answers of the system; a list that has run out is a call that has not returned. All other loops
  are structural or have a measure.

  \<^bold>\<open>Parameters.\<close> \<open>sort.Slice\<close> is any function that permutes its argument. \<open>fmt.Sscanf\<close> is modelled on
  decimal tokens, with its other spellings as an arbitrary function. \<open>json.Unmarshal\<close>, the file system, the
  environment and the clock are arguments.

  \<^bold>\<open>Not modelled.\<close> \<open>madvise\<close>, \<open>MAP_POPULATE\<close> and prefetching, which do not change a result; logging; the
  stubs for other platforms; the alternative balancer \<open>lb.c\<close>, which the Go build does not use. In the lists
  of system calls the tries of a read or send loop on one descriptor are a single call, and the answers of
  calls whose errors the code ignores are left out. Every floating-point operation rounds on its own; built with
  \<open>GOAMD64=v3\<close> the compiler may fuse the multiplication and the addition of \<open>dist2F32\<close> into one rounding, which can
  change the centers and the assignment of training vectors. The theorems on the built index hold for any centers and use of
  the assignment only that it names a center; \<open>kmeans_total\<close> is about separate roundings. The image is built with bounds checks off
  (\<open>-gcflags=-B\<close>): where the model says that an index panics, the shipped binary reads or writes
  out of bounds.
\<close>

section \<open>From the training file to the verdict\<close>

text \<open>(C1) The whole service: the builder, run on a printed training file of finite numbers, writes an
  index file. When the API finds that file at its index path and the clock of its warm-up reaches the
  limit, it comes up serving an index of the file, and a rendered scoring request is framed and
  answered with one of the six prepared responses. The number of frauds in it is the count of the
  request's leaf when the leaf is marked safe; otherwise, when the fifth nearest training vector is
  farther than \<open>EarlyDist\<close> and not tied with a sixth, a number of at most four is the number of frauds
  among the five nearest vectors of the training file.\<close>

theorem service_end_to_end:
  assumes "getenv ''INPUT'' \<noteq> []" "getenv ''OUTPUT'' \<noteq> []" "readFile (getenv ''INPUT'') = Some (file_text es)"
    "writable (getenv ''OUTPUT'')" "es \<noteq> []" "list_all finite_row es" "length es + 7 < 2 ^ 32" "permutes srt"
    "\<And>img. buildindex_main getenv readFile writable other srt = Some (Wrote (getenv ''OUTPUT'') img) \<Longrightarrow>
       apiFile (envOr (apiEnv ''INDEX_PATH'') ''/data/index.bin'') = stored img"
    "\<exists>t \<in> set ticks. wrap64 (envInt (apiEnv ''WARMUP_MS'') 700 * 1000000) \<le> t"
    "request_ok rq" "sample_ok d"
    "length (render_head rq (length (render_body d))) + length (render_body d) < 2 ^ 63"
  shows "\<exists>ix p q tr n.
    api_main amd64 apiEnv apiFile now ticks =
      Some (if apiEnv ''CTRL_SOCK_PATH'' \<noteq> [] then ServeCtrl ix (apiEnv ''CTRL_SOCK_PATH'') (mlockEnabled (apiEnv ''MLOCK''))
            else ServeTCP ix ('':'' @ envOr (apiEnv ''PORT'') ''9999'') (mlockEnabled (apiEnv ''MLOCK''))) \<and>
    ParseRequest (render_head rq (length (render_body d)) @ render_body d @ rest) = Some (Inr p) \<and>
    Respond amd64 ix p = Some (scores ! n) \<and> n \<le> 5 \<and>
    features [] (render_body d) = Some (Inr (q, tr)) \<and>
    (LeafSafeA (LeafID tr) = Some True \<longrightarrow> n = Count tr) \<and>
    (LeafSafeA (LeafID tr) \<noteq> Some True \<longrightarrow>
       EarlyDist < fifth (train_cands (vecs_of es) (labels_of es) q) \<longrightarrow>
       length (within_fifth (train_cands (vecs_of es) (labels_of es) q)) \<le> 5 \<longrightarrow>
       n \<le> 4 \<longrightarrow> n = vote (train_cands (vecs_of es) (labels_of es) q))"
proof -
  obtain img ix where f: "buildindex_main getenv readFile writable other srt = Some (Wrote (getenv ''OUTPUT'') img)"
      "Open (stored img) = Some (Inr ix)" "wf_index ix"
      "\<And>q. query_ok q \<Longrightarrow> EarlyDist < fifth (train_cands (vecs_of es) (labels_of es) q) \<Longrightarrow>
        length (within_fifth (train_cands (vecs_of es) (labels_of es) q)) \<le> 5 \<Longrightarrow>
        search_spec ix q \<le> 4 \<Longrightarrow> search_spec ix q = vote (train_cands (vecs_of es) (labels_of es) q)"
    using references_index [of getenv readFile es writable srt other, OF assms(1-8)] by blast
  have up: "Open (apiFile (envOr (apiEnv ''INDEX_PATH'') ''/data/index.bin'')) = Some (Inr ix)"
    unfolding assms(9) [OF f(1)] by (rule f(2))
  have d: "doc_ok d" "finite_payload (payload_of d)" "Month (timex_Parse (dRequestedAt d)) \<in> {1..12}"
    using assms(12) by (simp_all add: sample_ok_def)
  obtain p v q tr n where r:
      "ParseRequest (render_head rq (length (render_body d)) @ render_body d @ rest) = Some (Inr p)"
      "Vectorize (payload_of d) = Some v" "Quantize v = Some q" "query_ok q" "Predict q = Some tr"
      "n = (if LeafSafeA (LeafID tr) = Some True then Count tr else search_spec ix q)" "n \<le> 5"
      "Respond amd64 ix p = Some (scores ! n)"
    using Respond_rendered [OF f(3) assms(11) d assms(13), of rest] by blast
  have "features [] (render_body d) = Some (Inr (q, tr))"
    using Parse_body [OF d(1), of "[]"] r(2,3,5) by (simp add: features_def)
  moreover have "LeafSafeA (LeafID tr) \<noteq> Some True \<longrightarrow>
       EarlyDist < fifth (train_cands (vecs_of es) (labels_of es) q) \<longrightarrow>
       length (within_fifth (train_cands (vecs_of es) (labels_of es) q)) \<le> 5 \<longrightarrow>
       n \<le> 4 \<longrightarrow> n = vote (train_cands (vecs_of es) (labels_of es) q)"
    using f(4) [OF r(4)] r(6) by simp
  moreover have "LeafSafeA (LeafID tr) = Some True \<longrightarrow> n = Count tr" using r(6) by simp
  ultimately show ?thesis using api_main_serves [of apiFile apiEnv ix ticks now, OF up f(3) assms(10)] r(1,7,8) by blast
qed

text \<open>(C2) The whole deployment: with an index built from a printed training file the API comes up on its
  control socket. A client of the balancer whose stream is a sequence of well-formed scoring requests, and whose
  connection is handed to a backend, is served there by one goroutine that starts with the bytes the
  balancer has read. Among all interleavings with other goroutines, on buffers and payloads that
  they have used, the goroutine never writes anything but a prefix of the verdicts on the client's requests in
  order; and unless the balancer read more than fits its buffer, it can answer all of them and return.\<close>

theorem deployment_end_to_end:
  assumes "getenv ''INPUT'' \<noteq> []" "getenv ''OUTPUT'' \<noteq> []" "readFile (getenv ''INPUT'') = Some (file_text es)"
    "writable (getenv ''OUTPUT'')" "es \<noteq> []" "list_all finite_row es" "length es + 7 < 2 ^ 32" "permutes srt"
    "\<And>img. buildindex_main getenv readFile writable other srt = Some (Wrote (getenv ''OUTPUT'') img) \<Longrightarrow>
       apiFile (envOr (apiEnv ''INDEX_PATH'') ''/data/index.bin'') = stored img"
    "\<exists>t \<in> set ticks. wrap64 (envInt (apiEnv ''WARMUP_MS'') 700 * 1000000) \<le> t" "apiEnv ''CTRL_SOCK_PATH'' \<noteq> []"
    "acceptOne n rr c = (Handed i msg rest, rr')" "0 \<le> fd" "list_all job_ok js" "cStream c = concat (map job_text js)"
  shows "\<exists>ix p. api_main amd64 apiEnv apiFile now ticks =
      Some (ServeCtrl ix (apiEnv ''CTRL_SOCK_PATH'') (mlockEnabled (apiEnv ''MLOCK''))) \<and>
    ctrlLoop recvPrefixBuf0 [Pkt msg (Some [Some [fd]])] = [(fd, p)] \<and> p @ rest = cStream c \<and>
    (\<forall>w k g. api_reachable amd64 ix w \<longrightarrow>
       finished w k = Some ((p, rest), g) \<or> (\<exists>b j. running w k = Some ((p, rest), b, j, g)) \<longrightarrow>
       prefix (gOut g) (concat (map (\<lambda>j. scores ! verdict ix (snd j)) js))) \<and>
    (length p \<le> 8192 \<longrightarrow>
       (\<exists>w g. api_reachable amd64 ix w \<and> finished w 0 = Some ((p, rest), g) \<and> gOut g = concat (map (\<lambda>j. scores ! verdict ix (snd j)) js)))"
proof -
  obtain img ix where f: "buildindex_main getenv readFile writable other srt = Some (Wrote (getenv ''OUTPUT'') img)"
      "Open (stored img) = Some (Inr ix)" "wf_index ix"
    using references_index [of getenv readFile es writable srt other, OF assms(1-8)] by blast
  have up: "Open (apiFile (envOr (apiEnv ''INDEX_PATH'') ''/data/index.bin'')) = Some (Inr ix)"
    unfolding assms(9) [OF f(1)] by (rule f(2))
  note main = api_main_serves [of apiFile apiEnv ix ticks now, OF up f(3) assms(10)]
  obtain p where p: "msg = message p" "length p \<le> 16384" "p @ rest = cStream c" using acceptOne_msg [OF assms(12)] by blast
  have ctrl: "ctrlLoop recvPrefixBuf0 [Pkt msg (Some [Some [fd]])] = [(fd, p)]"
    using ctrlLoop_messages [of "[(fd, p)]" recvPrefixBuf0] p(1,2) assms(13) by simp
  have ans: "fst (answers amd64 ix (p @ rest)) = map (\<lambda>j. scores ! verdict ix (snd j)) js"
    using avx2.jobs_answers [OF f(3) assms(14)] by (simp add: p(3) assms(15))
  have pre: "prefix (gOut g) (concat (map (\<lambda>j. scores ! verdict ix (snd j)) js))"
    if "api_reachable amd64 ix w" "finished w k = Some ((p, rest), g) \<or> (\<exists>b j. running w k = Some ((p, rest), b, j, g))" for w k g
    using that(2) finished_prefix [OF that(1), of k "(p, rest)" g] sequential_prefix [OF that(1), of k "(p, rest)" _ _ g] by (auto simp: ans)
  have fin: "\<exists>w g. api_reachable amd64 ix w \<and> finished w 0 = Some ((p, rest), g) \<and> gOut g = concat (map (\<lambda>j. scores ! verdict ix (snd j)) js)"
    if "length p \<le> 8192"
  proof -
    let ?out = "concat (map (\<lambda>j. scores ! verdict ix (snd j)) js)"
    have "handleRawConn amd64 ix p rest (replicate (Suc (length rest)) (Ready 0)) (replicate (length ?out) (Room 0)) = (?out, Closed)"
      using that p(3) assms(15) by (intro avx2.pipeline [OF f(3) assms(14)]) (simp_all add: readies_def rooms_def)
    then show ?thesis using can_finish [OF reach0, of 0] by (force simp: world0_def)
  qed
  show ?thesis using main assms(11) ctrl p(3) pre fin by (intro exI [of _ ix] exI [of _ p]) simp
qed

section \<open>Witness\<close>

definition built_file :: "bytes \<Rightarrow> os_file" where
  "built_file p =
     (case buildindex_main env_ex (\<lambda>p. Some (file_text [row_one])) (\<lambda>p. True) (\<lambda>t. None) insertion_sort of
        Some (Wrote _ img) \<Rightarrow> stored img | _ \<Rightarrow> stored [])"

theorem service_end_to_end_witness:
  "\<exists>ix p n. api_main amd64 (\<lambda>k. []) built_file 5 [700000000] = Some (ServeTCP ix '':9999'' True) \<and>
    ParseRequest (render_head rq_ex (length (render_body doc_small)) @ render_body doc_small @ []) = Some (Inr p) \<and>
    Respond amd64 ix p = Some (scores ! n) \<and> n \<le> 5"
proof -
  have row: "list_all finite_row [row_one]"
    using row_one_ok numeral_one(2) by (simp add: finite_row_def) (simp add: row_one_def list_all_iff)
  have len: "length (render_head rq_ex (length (render_body doc_small))) + length (render_body doc_small) < 2 ^ 63"
    using length_body_small length_head_ex [of "length (render_body doc_small)"]
      length_dec [of "length (render_body doc_small)"] by simp
  have sample: "sample_ok doc_small" using small_sample by simp
  have "\<exists>ix p q tr n.
    api_main amd64 (\<lambda>k. []) built_file 5 [700000000] =
      Some (if [] \<noteq> ([] :: bytes) then ServeCtrl ix [] (mlockEnabled []) else ServeTCP ix ('':'' @ envOr [] ''9999'') (mlockEnabled [])) \<and>
    ParseRequest (render_head rq_ex (length (render_body doc_small)) @ render_body doc_small @ []) = Some (Inr p) \<and>
    Respond amd64 ix p = Some (scores ! n) \<and> n \<le> 5"
    using service_end_to_end [of env_ex "\<lambda>p. Some (file_text [row_one])" "[row_one]" "\<lambda>p. True" insertion_sort "\<lambda>t. None"
        built_file "\<lambda>k. []" "[700000000]" rq_ex doc_small 5 "[]", OF _ _ _ _ _ row _ insertion_permutes _ _ rq_ok_ex sample len]
    by (fastforce simp: env_ex_def built_file_def envInt_def wrap64_def)
  then show ?thesis by (simp add: envOr_def mlockEnabled_def)
qed

definition env_ctrl :: "bytes \<Rightarrow> bytes" where
  "env_ctrl k = (if k = ''CTRL_SOCK_PATH'' then ''s'' else [])"

theorem deployment_end_to_end_witness:
  "\<exists>ix w g. api_main amd64 env_ctrl built_file 5 [700000000] = Some (ServeCtrl ix ''s'' True) \<and> api_reachable amd64 ix w \<and>
    finished w 0 = Some (([], cStream one_client), g) \<and> gOut g = scores ! verdict ix doc_small"
proof -
  have row: "list_all finite_row [row_one]"
    using row_one_ok numeral_one(2) by (simp add: finite_row_def) (simp add: row_one_def list_all_iff)
  have js: "list_all job_ok [(rq_ex, doc_small)]" "cStream one_client = concat (map job_text [(rq_ex, doc_small)])"
    using job_ok_ex by (simp_all add: one_client_def)
  have "\<exists>ix p. api_main amd64 env_ctrl built_file 5 [700000000] = Some (ServeCtrl ix (env_ctrl ''CTRL_SOCK_PATH'') (mlockEnabled (env_ctrl ''MLOCK''))) \<and>
      p @ cStream one_client = cStream one_client \<and> (length p \<le> 8192 \<longrightarrow> (\<exists>w g. api_reachable amd64 ix w \<and>
        finished w 0 = Some ((p, cStream one_client), g) \<and> gOut g = concat (map (\<lambda>j. scores ! verdict ix (snd j)) [(rq_ex, doc_small)])))"
    using deployment_end_to_end [of env_ex "\<lambda>p. Some (file_text [row_one])" "[row_one]" "\<lambda>p. True" insertion_sort "\<lambda>t. None"
        built_file env_ctrl "[700000000]" 2 0 one_client 1 "sendData []" "cStream one_client" 0 5 "[(rq_ex, doc_small)]" 5,
        OF _ _ _ _ _ row _ insertion_permutes _ _ _ one_handed _ js]
    by (fastforce simp: env_ex_def built_file_def env_ctrl_def envOr_def envInt_def wrap64_def)
  then show ?thesis by (auto simp: env_ctrl_def mlockEnabled_def)
qed

end
